(* ===== verification/Studio_Prelude.thy ===== *)
theory Studio_Prelude
  imports Main "HOL-Library.Multiset" "HOL-Library.AList" "HOL-Library.List_Lexorder"
    "HOL-Library.Char_ord" "HOL-Library.Word" "HOL-Library.Sublist"
begin

text \<open>
  What the components share: the JavaScript standard library the modules of
  theia/product-ext/src call (String.split, Array.join, Array.slice, Array.sort,
  Number.toString), and the lemmas about it. A JavaScript string is a list of
  code units, modelled by \<open>string\<close>; an array is a list; a Map with insertion
  order is an association list under \<open>AList.update\<close> and \<open>AList.delete\<close>.
  Array.prototype.sort is stable (ECMAScript 2019), so it is insertion by the
  comparator. The collections \<open>js_simps\<close> and \<open>edit_simps\<close> gather the
  rewrite rules the component proofs use.
\<close>

named_theorems js_simps
named_theorems edit_simps

type_synonym jstr = string

abbreviation LF :: char where "LF \<equiv> CHR 0x0A"
abbreviation CR :: char where "CR \<equiv> CHR 0x0D"
abbreviation TAB :: char where "TAB \<equiv> CHR 0x09"
abbreviation NUL :: char where "NUL \<equiv> CHR 0x00"
abbreviation DQUOTE :: char where "DQUOTE \<equiv> CHR 0x22"

section \<open>Arrays and strings\<close>

text \<open>\<open>xs.slice(i, j)\<close> for non-negative \<open>i\<close> and \<open>j\<close>; empty when \<open>j\<close> is not past \<open>i\<close>.\<close>

definition js_slice :: "'a list \<Rightarrow> nat \<Rightarrow> nat \<Rightarrow> 'a list" where
  "js_slice xs i j = take (j - i) (drop i xs)"

text \<open>\<open>xs.join(sep)\<close>.\<close>

fun join :: "'a list \<Rightarrow> 'a list list \<Rightarrow> 'a list" where
  "join sep [] = []"
| "join sep [x] = x"
| "join sep (x # y # r) = x @ sep @ join sep (y # r)"

text \<open>\<open>s.split(c)\<close> for a one-character separator: always at least one piece.\<close>

fun split_on :: "'a \<Rightarrow> 'a list \<Rightarrow> 'a list list" where
  "split_on c [] = [[]]"
| "split_on c (x # xs) =
     (if x = c then [] # split_on c xs
      else (case split_on c xs of [] \<Rightarrow> [[x]] | l # ls \<Rightarrow> (x # l) # ls))"

lemma split_on_ne [simp]: "split_on c s \<noteq> []"
  by (induction s) (auto split: list.splits)

lemma join_Cons: "r \<noteq> [] \<Longrightarrow> join sep (x # r) = x @ sep @ join sep r"
  by (cases r) auto

lemma join_split_on [simp]: "join [c] (split_on c s) = s"
proof (induction s)
  case (Cons x s)
  obtain l ls where e: "split_on c s = l # ls"
    by (cases "split_on c s") auto
  show ?case using Cons e by (cases ls) (auto simp: join_Cons)
qed simp

lemma split_on_free: "c \<notin> set l \<Longrightarrow> split_on c l = [l]"
  by (induction l) auto

lemma split_on_sep: "c \<notin> set l \<Longrightarrow> split_on c (l @ c # r) = l # split_on c r"
  by (induction l) auto

lemma split_on_join:
  "ls \<noteq> [] \<Longrightarrow> \<forall>l \<in> set ls. c \<notin> set l \<Longrightarrow> split_on c (join [c] ls) = ls"
proof (induction ls)
  case (Cons l ls)
  then show ?case
    by (cases ls) (auto simp: split_on_free split_on_sep)
qed simp

lemma split_on_pieces: "l \<in> set (split_on c s) \<Longrightarrow> c \<notin> set l"
proof (induction s arbitrary: l)
  case (Cons x s)
  obtain l' ls where e: "split_on c s = l' # ls"
    by (cases "split_on c s") auto
  show ?case using Cons e by (auto split: if_splits)
qed simp

lemma js_slice_append: "i \<le> j \<Longrightarrow> j \<le> k \<Longrightarrow> js_slice xs i j @ js_slice xs j k = js_slice xs i k"
proof -
  assume h: "i \<le> j" "j \<le> k"
  have "take (k - i) (drop i xs) = take ((j - i) + (k - j)) (drop i xs)"
    using h by simp
  also have "\<dots> = take (j - i) (drop i xs) @ take (k - j) (drop (j - i) (drop i xs))"
    by (rule take_add)
  finally show ?thesis using h by (simp add: js_slice_def)
qed

lemma js_slice_0 [simp]: "js_slice xs 0 n = take n xs"
  by (simp add: js_slice_def)

lemma js_slice_full [simp]: "js_slice xs i (length xs) = drop i xs"
  by (simp add: js_slice_def)

lemma length_js_slice [simp]: "length (js_slice xs i j) = min (j - i) (length xs - i)"
  by (simp add: js_slice_def)

lemma js_slice_take: "j \<le> n \<Longrightarrow> js_slice (take n xs) i j = js_slice xs i j"
  by (simp add: js_slice_def drop_take min_def)

lemma length_filter_mono: "(\<And>x. P x \<Longrightarrow> Q x) \<Longrightarrow> length (filter P xs) \<le> length (filter Q xs)"
  by (induction xs) auto

text \<open>\<open>s.startsWith(p)\<close> and \<open>s.slice(p.length)\<close>.\<close>

definition starts_with :: "'a list \<Rightarrow> 'a list \<Rightarrow> bool" where
  "starts_with s p = (take (length p) s = p)"

lemma starts_with_iff: "starts_with s p \<longleftrightarrow> (\<exists>r. s = p @ r)"
proof
  assume "starts_with s p"
  then have "s = p @ drop (length p) s"
    by (metis append_take_drop_id starts_with_def)
  then show "\<exists>r. s = p @ r" by blast
qed (auto simp: starts_with_def)

definition ends_with :: "'a list \<Rightarrow> 'a list \<Rightarrow> bool" where
  "ends_with s p = starts_with (rev s) (rev p)"

lemma ends_with_iff: "ends_with s p \<longleftrightarrow> (\<exists>r. s = r @ p)"
  unfolding ends_with_def starts_with_iff
  by (metis rev_append rev_rev_ident)

text \<open>The white space of \<open>\s\<close> and \<open>trim()\<close> among the Latin-1 code units.\<close>

definition is_space :: "char \<Rightarrow> bool" where
  "is_space c = (c \<in> {CHR 0x09, CHR 0x0A, CHR 0x0B, CHR 0x0C, CHR 0x0D, CHR 0x20, CHR 0xA0})"

definition js_trim :: "jstr \<Rightarrow> jstr" where
  "js_trim s = rev (dropWhile is_space (rev (dropWhile is_space s)))"

lemma js_trim_Nil [simp]: "js_trim [] = []"
  by (simp add: js_trim_def)

text \<open>\<open>toLowerCase()\<close> on one Latin-1 code unit.\<close>

definition js_lower :: "char \<Rightarrow> char" where
  "js_lower c =
     (let n = (of_char c :: nat) in
      if (65 \<le> n \<and> n \<le> 90) \<or> (192 \<le> n \<and> n \<le> 222 \<and> n \<noteq> 215) then char_of (n + 32) else c)"

text \<open>\<open>text.replace(/\r\n/g, '\n')\<close>.\<close>

fun unify_crlf :: "jstr \<Rightarrow> jstr" where
  "unify_crlf [] = []"
| "unify_crlf [c] = [c]"
| "unify_crlf (c # d # r) = (if c = CR \<and> d = LF then LF # unify_crlf r else c # unify_crlf (d # r))"

section \<open>Numbers as text\<close>

text \<open>\<open>n.toString(b)\<close> for a non-negative integer and a radix up to 36.\<close>

definition radix_digit :: "nat \<Rightarrow> char" where
  "radix_digit d = ''0123456789abcdefghijklmnopqrstuvwxyz'' ! d"

fun radix_digits :: "nat \<Rightarrow> nat \<Rightarrow> nat list" where
  "radix_digits b n = (if n < b \<or> b < 2 then [n] else radix_digits b (n div b) @ [n mod b])"

declare radix_digits.simps [simp del]

definition to_radix :: "nat \<Rightarrow> nat \<Rightarrow> jstr" where
  "to_radix b n = map radix_digit (radix_digits b n)"

definition to_dec :: "nat \<Rightarrow> jstr" where
  "to_dec n = to_radix 10 n"

fun radix_value :: "nat \<Rightarrow> nat list \<Rightarrow> nat" where
  "radix_value b ds = foldl (\<lambda>acc d. b * acc + d) 0 ds"

lemma radix_value_digits: "2 \<le> b \<Longrightarrow> radix_value b (radix_digits b n) = n"
proof (induction b n rule: radix_digits.induct)
  case (1 b n)
  then show ?case
    by (cases "n < b") (simp_all add: radix_digits.simps [of b n])
qed

lemma radix_digits_bound: "2 \<le> b \<Longrightarrow> d \<in> set (radix_digits b n) \<Longrightarrow> d < b"
proof (induction b n rule: radix_digits.induct)
  case (1 b n)
  then show ?case
    by (cases "n < b") (auto simp: radix_digits.simps [of b n])
qed

lemma radix_digit_inj: "i < 36 \<Longrightarrow> j < 36 \<Longrightarrow> radix_digit i = radix_digit j \<Longrightarrow> i = j"
proof -
  have d: "distinct ''0123456789abcdefghijklmnopqrstuvwxyz''"
    by simp
  show "i < 36 \<Longrightarrow> j < 36 \<Longrightarrow> radix_digit i = radix_digit j \<Longrightarrow> i = j"
    unfolding radix_digit_def using nth_eq_iff_index_eq [OF d, of i j] by simp
qed

lemma map_radix_inj:
  "\<forall>d \<in> set xs. d < 36 \<Longrightarrow> \<forall>d \<in> set ys. d < 36 \<Longrightarrow> map radix_digit xs = map radix_digit ys \<Longrightarrow> xs = ys"
proof (induction xs arbitrary: ys)
  case (Cons x xs)
  then obtain y ys' where "ys = y # ys'" by (cases ys) auto
  with Cons show ?case by (auto dest: radix_digit_inj)
qed simp

lemma to_radix_inj:
  assumes "2 \<le> b" and "b \<le> 36" and "to_radix b m = to_radix b n"
  shows "m = n"
proof -
  have "\<forall>d \<in> set (radix_digits b k). d < 36" for k
    using radix_digits_bound [OF assms(1)] assms(2) by fastforce
  then have "radix_digits b m = radix_digits b n"
    using assms(3) map_radix_inj unfolding to_radix_def by blast
  then show ?thesis
    using radix_value_digits [OF assms(1)] by metis
qed

lemma to_dec_inj: "to_dec m = to_dec n \<Longrightarrow> m = n"
  unfolding to_dec_def by (rule to_radix_inj [of 10]) auto

section \<open>Array.prototype.sort\<close>

text \<open>
  \<open>xs.sort(cmp)\<close>: stable, so elements the comparator calls equal keep their order.
\<close>

fun js_insort :: "('a \<Rightarrow> 'a \<Rightarrow> int) \<Rightarrow> 'a \<Rightarrow> 'a list \<Rightarrow> 'a list" where
  "js_insort cmp x [] = [x]"
| "js_insort cmp x (y # ys) = (if cmp x y \<le> 0 then x # y # ys else y # js_insort cmp x ys)"

fun js_sort :: "('a \<Rightarrow> 'a \<Rightarrow> int) \<Rightarrow> 'a list \<Rightarrow> 'a list" where
  "js_sort cmp [] = []"
| "js_sort cmp (x # xs) = js_insort cmp x (js_sort cmp xs)"

lemma mset_js_insort [simp]: "mset (js_insort cmp x ys) = add_mset x (mset ys)"
  by (induction ys) auto

lemma mset_js_sort [simp]: "mset (js_sort cmp xs) = mset xs"
  by (induction xs) auto

lemma set_js_sort [simp]: "set (js_sort cmp xs) = set xs"
  by (metis mset_js_sort set_mset_mset)

lemma set_js_insort [simp]: "set (js_insort cmp x xs) = insert x (set xs)"
  by (induction xs) auto

lemma js_insort_first: "\<forall>y \<in> set ys. cmp x y \<le> 0 \<Longrightarrow> js_insort cmp x ys = x # ys"
  by (cases ys) auto

text \<open>An array already in order is left as it is.\<close>

lemma js_sort_id: "sorted_wrt (\<lambda>x y. cmp x y \<le> 0) xs \<Longrightarrow> js_sort cmp xs = xs"
  by (induction xs) (auto simp: js_insort_first)

text \<open>
  The contract of a comparator: a total preorder read through the sign of an
  integer. Every sort of the modules goes through an instance of it.
\<close>

locale comparator =
  fixes cmp :: "'a \<Rightarrow> 'a \<Rightarrow> int"
  assumes cmp_total: "cmp x y \<le> 0 \<or> cmp y x \<le> 0"
    and cmp_trans: "cmp x y \<le> 0 \<Longrightarrow> cmp y z \<le> 0 \<Longrightarrow> cmp x z \<le> 0"
begin

lemma cmp_refl: "cmp x x \<le> 0"
  using cmp_total by blast

lemma sorted_insort:
  "sorted_wrt (\<lambda>x y. cmp x y \<le> 0) ys \<Longrightarrow> sorted_wrt (\<lambda>x y. cmp x y \<le> 0) (js_insort cmp x ys)"
proof (induction ys)
  case (Cons y ys)
  show ?case
  proof (cases "cmp x y \<le> 0")
    case True
    with Cons show ?thesis by (auto intro: cmp_trans)
  next
    case False
    then have "cmp y x \<le> 0" using cmp_total by blast
    with Cons False show ?thesis by auto
  qed
qed simp

lemma sorted_sort: "sorted_wrt (\<lambda>x y. cmp x y \<le> 0) (js_sort cmp xs)"
  by (induction xs) (auto simp: sorted_insort)

lemma sort_idem: "js_sort cmp (js_sort cmp xs) = js_sort cmp xs"
  by (rule js_sort_id) (rule sorted_sort)

lemma sorted_unique:
  "sorted_wrt (\<lambda>x y. cmp x y \<le> 0) xs \<Longrightarrow> sorted_wrt (\<lambda>x y. cmp x y \<le> 0) ys \<Longrightarrow>
   mset xs = mset ys \<Longrightarrow>
   (\<And>x y. x \<in> set xs \<Longrightarrow> y \<in> set xs \<Longrightarrow> cmp x y \<le> 0 \<Longrightarrow> cmp y x \<le> 0 \<Longrightarrow> x = y) \<Longrightarrow> xs = ys"
proof (induction xs arbitrary: ys)
  case (Cons x xs)
  then obtain y ys' where ys: "ys = y # ys'" by (cases ys) auto
  have sets: "set ys = set (x # xs)"
    using Cons.prems(3) by (metis set_mset_mset)
  have y: "y \<in> set (x # xs)" and x: "x \<in> set ys"
    using sets ys by auto
  have "cmp x y \<le> 0"
    using Cons.prems(1) y cmp_refl by auto
  moreover have "cmp y x \<le> 0"
    using Cons.prems(2) x ys cmp_refl by auto
  ultimately have xy: "x = y"
    using Cons.prems(4) sets ys by auto
  have "xs = ys'"
    using Cons.prems xy ys by (intro Cons.IH) auto
  with xy ys show ?case by simp
qed simp

text \<open>
  Sorting forgets the order it was given, when the comparator tells distinct
  elements apart: two listings of the same elements sort to the same array.
\<close>

lemma sort_perm:
  assumes "mset xs = mset ys"
    and "\<And>x y. x \<in> set xs \<Longrightarrow> y \<in> set xs \<Longrightarrow> cmp x y \<le> 0 \<Longrightarrow> cmp y x \<le> 0 \<Longrightarrow> x = y"
  shows "js_sort cmp xs = js_sort cmp ys"
proof (rule sorted_unique [OF sorted_sort sorted_sort])
  show "mset (js_sort cmp xs) = mset (js_sort cmp ys)"
    using assms(1) by simp
qed (use assms(2) in auto)

text \<open>
  A ranking cut off after \<open>n\<close>: what is shown and what is hidden are all the elements, in order,
  and nothing hidden comes before anything shown.
\<close>

lemma cut_off:
  fixes xs :: "'a list" and n :: nat
  defines "ranked \<equiv> js_sort cmp xs"
  shows "mset (take n ranked @ drop n ranked) = mset xs"
    "sorted_wrt (\<lambda>x y. cmp x y \<le> 0) (take n ranked @ drop n ranked)"
    "length (take n ranked) = min n (length xs)" "length (drop n ranked) = length xs - n"
    "x \<in> set (take n ranked) \<Longrightarrow> y \<in> set (drop n ranked) \<Longrightarrow> cmp x y \<le> 0"
proof -
  have "length ranked = length xs"
    unfolding ranked_def by (metis mset_js_sort size_mset)
  then show "length (take n ranked) = min n (length xs)" "length (drop n ranked) = length xs - n"
    by simp_all
  show sorted: "sorted_wrt (\<lambda>x y. cmp x y \<le> 0) (take n ranked @ drop n ranked)"
    unfolding append_take_drop_id ranked_def by (rule sorted_sort)
  show "x \<in> set (take n ranked) \<Longrightarrow> y \<in> set (drop n ranked) \<Longrightarrow> cmp x y \<le> 0"
    using sorted unfolding sorted_wrt_append by blast
  show "mset (take n ranked @ drop n ranked) = mset xs"
    by (simp add: ranked_def)
qed

end

text \<open>
  A comparator whose sign turns with its arguments, as a difference of numbers or
  \<open>localeCompare\<close>: such comparators compose, the second deciding where the first says 0.
\<close>

locale signed_comparator =
  fixes cmp :: "'a \<Rightarrow> 'a \<Rightarrow> int"
  assumes turns: "cmp x y < 0 \<longleftrightarrow> 0 < cmp y x"
    and through: "cmp x y \<le> 0 \<Longrightarrow> cmp y z \<le> 0 \<Longrightarrow> cmp x z \<le> 0"
begin

lemma zero_both: "cmp x y = 0 \<longleftrightarrow> cmp x y \<le> 0 \<and> cmp y x \<le> 0"
  using turns [of x y] turns [of y x] by linarith

lemma through_less: "cmp x y < 0 \<Longrightarrow> cmp y z \<le> 0 \<Longrightarrow> cmp x z < 0" "cmp x y \<le> 0 \<Longrightarrow> cmp y z < 0 \<Longrightarrow> cmp x z < 0"
  using through [of x y z] through [of z x y] through [of y z x] turns [of x y] turns [of y z] turns [of x z] turns [of z x]
  by (smt (verit))+

end

sublocale signed_comparator \<subseteq> comparator
proof
  fix x y z
  show "cmp x y \<le> 0 \<or> cmp y x \<le> 0"
    using turns [of y x] by linarith
  show "cmp x y \<le> 0 \<Longrightarrow> cmp y z \<le> 0 \<Longrightarrow> cmp x z \<le> 0"
    by (rule through)
qed

context signed_comparator
begin

lemma is_comparator: "comparator cmp"
  by unfold_locales

end

definition then_by :: "('a \<Rightarrow> 'a \<Rightarrow> int) \<Rightarrow> ('a \<Rightarrow> 'a \<Rightarrow> int) \<Rightarrow> 'a \<Rightarrow> 'a \<Rightarrow> int" where
  "then_by f g a b = (if f a b \<noteq> 0 then f a b else g a b)"

lemma then_by_signed:
  assumes "signed_comparator f" "signed_comparator g"
  shows "signed_comparator (then_by f g)"
proof
  have f: "f a b < 0 \<longleftrightarrow> 0 < f b a" and g: "g a b < 0 \<longleftrightarrow> 0 < g b a" for a b
    using assms by (simp_all add: signed_comparator.turns)
  fix x y z
  show "then_by f g x y < 0 \<longleftrightarrow> 0 < then_by f g y x"
    using f [of x y] f [of y x] g [of x y] by (auto simp: then_by_def)
  assume h: "then_by f g x y \<le> 0" "then_by f g y z \<le> 0"
  then have le: "f x y \<le> 0" "f y z \<le> 0"
    by (auto simp: then_by_def split: if_splits)
  show "then_by f g x z \<le> 0"
  proof (cases "f x y < 0 \<or> f y z < 0")
    case True
    then have "f x z < 0"
      using signed_comparator.through_less [OF assms(1)] le by blast
    then show ?thesis by (simp add: then_by_def)
  next
    case False
    then have "f x y = 0" "f y z = 0"
      using le by simp_all
    moreover from this have "f x z = 0"
      using signed_comparator.zero_both [OF assms(1)] signed_comparator.through [OF assms(1)] by metis
    ultimately show ?thesis
      using h signed_comparator.through [OF assms(2), of x y z] by (simp add: then_by_def)
  qed
qed

lemma signed_of: "signed_comparator cmp \<Longrightarrow> signed_comparator (\<lambda>a b. cmp (p a) (p b))"
  by (simp add: signed_comparator_def)

lemma signed_reverse: "signed_comparator cmp \<Longrightarrow> signed_comparator (\<lambda>a b. cmp (p b) (p a))"
  unfolding signed_comparator_def by blast

text \<open>A comparator that subtracts an integer key: \<open>(a, b) => key(a) - key(b)\<close>.\<close>

definition by_key :: "('a \<Rightarrow> int) \<Rightarrow> 'a \<Rightarrow> 'a \<Rightarrow> int" where
  "by_key key a b = key a - key b"

interpretation key_cmp: signed_comparator "by_key key" for key :: "'a \<Rightarrow> int"
  by unfold_locales (auto simp: by_key_def)

lemma sort_by_key_sorted: "sorted (map key (js_sort (by_key key) xs))"
  using key_cmp.sorted_sort [of key xs]
  by (simp add: sorted_map sorted_wrt_map by_key_def)

lemma sort_by_key_id: "sorted (map key xs) \<Longrightarrow> js_sort (by_key key) xs = xs"
  by (rule js_sort_id) (simp add: sorted_map by_key_def)

end
