(* ===== verification/Seq_Diff.thy ===== *)
theory Seq_Diff
  imports Studio_Prelude
begin

text \<open>
  The sequence diff of theia/product-ext/src/browser/diff.js: diffSequences with
  its prefix and suffix trimming, the longest-common-subsequence table of lcsOps
  and the walk over it, and mergeRuns. The element type is a parameter: the code
  aligns lines, words and whole blocks with the same function. The reference
  definition \<open>lcs_len\<close> says what the table holds; the theorems show that
  the ops rebuild both inputs, that neighbouring runs are merged, and that below
  the cell budget the kept elements are a longest common subsequence.
\<close>

section \<open>Edit ops\<close>

text \<open>\<open>{ op: '=' | '-' | '+', a, b }\<close>.\<close>

datatype 'a edit = Same "'a list" "'a list" | Del "'a list" | Ins "'a list"

fun old_side :: "'a edit \<Rightarrow> 'a list" where
  "old_side (Same a b) = a"
| "old_side (Del a) = a"
| "old_side (Ins b) = []"

fun new_side :: "'a edit \<Rightarrow> 'a list" where
  "new_side (Same a b) = b"
| "new_side (Del a) = []"
| "new_side (Ins b) = b"

fun same_side :: "'a edit \<Rightarrow> 'a list" where
  "same_side (Same a b) = a"
| "same_side (Del a) = []"
| "same_side (Ins b) = []"

fun is_same :: "'a edit \<Rightarrow> bool" where
  "is_same (Same a b) = True"
| "is_same _ = False"

definition olds :: "'a edit list \<Rightarrow> 'a list" where
  "olds ops = concat (map old_side ops)"

definition news :: "'a edit list \<Rightarrow> 'a list" where
  "news ops = concat (map new_side ops)"

definition kept :: "'a edit list \<Rightarrow> 'a list" where
  "kept ops = concat (map same_side ops)"

lemma sides_simps [edit_simps, simp]:
  "olds [] = []" "news [] = []" "kept [] = []"
  "olds (e # es) = old_side e @ olds es"
  "news (e # es) = new_side e @ news es"
  "kept (e # es) = same_side e @ kept es"
  "olds (es @ fs) = olds es @ olds fs"
  "news (es @ fs) = news es @ news fs"
  "kept (es @ fs) = kept es @ kept fs"
  by (simp_all add: olds_def news_def kept_def)

lemma sides_singletons [edit_simps, simp]:
  "olds (map (\<lambda>x. Del [x]) xs) = xs" "news (map (\<lambda>x. Del [x]) xs) = []"
  "kept (map (\<lambda>x. Del [x]) xs) = []"
  "olds (map (\<lambda>x. Ins [x]) xs) = []" "news (map (\<lambda>x. Ins [x]) xs) = xs"
  "kept (map (\<lambda>x. Ins [x]) xs) = []"
  by (induction xs) simp_all

text \<open>A run marked \<open>=\<close> carries the same elements on both sides.\<close>

fun honest :: "'a edit \<Rightarrow> bool" where
  "honest (Same a b) = (a = b)"
| "honest _ = True"

section \<open>mergeRuns\<close>

fun same_kind :: "'a edit \<Rightarrow> 'a edit \<Rightarrow> bool" where
  "same_kind (Same _ _) (Same _ _) = True"
| "same_kind (Del _) (Del _) = True"
| "same_kind (Ins _) (Ins _) = True"
| "same_kind _ _ = False"

fun glue :: "'a edit \<Rightarrow> 'a edit \<Rightarrow> 'a edit" where
  "glue (Same a b) (Same c d) = Same (a @ c) (b @ d)"
| "glue (Del a) (Del c) = Del (a @ c)"
| "glue (Ins b) (Ins d) = Ins (b @ d)"
| "glue e _ = e"

definition push_run :: "'a edit list \<Rightarrow> 'a edit \<Rightarrow> 'a edit list" where
  "push_run out e =
     (if out \<noteq> [] \<and> same_kind (last out) e then butlast out @ [glue (last out) e]
      else out @ [e])"

definition merge_runs :: "'a edit list \<Rightarrow> 'a edit list" where
  "merge_runs ops = foldl push_run [] ops"

fun runs_merged :: "'a edit list \<Rightarrow> bool" where
  "runs_merged (e # f # es) = (\<not> same_kind e f \<and> runs_merged (f # es))"
| "runs_merged _ = True"

section \<open>lcsOps\<close>

text \<open>Row \<open>i\<close> of the table from row \<open>i + 1\<close>, right to left.\<close>

fun lcs_row :: "'a \<Rightarrow> 'a list \<Rightarrow> nat list \<Rightarrow> nat list" where
  "lcs_row x [] below = [0]"
| "lcs_row x (y # ys) below =
     (let rest = lcs_row x ys (tl below)
      in (if x = y then hd (tl below) + 1 else max (hd below) (hd rest)) # rest)"

fun lcs_table :: "'a list \<Rightarrow> 'a list \<Rightarrow> nat list list" where
  "lcs_table [] b = [replicate (length b + 1) 0]"
| "lcs_table (x # xs) b = (let t = lcs_table xs b in lcs_row x b (hd t) # t)"

function lcs_walk :: "'a list \<Rightarrow> 'a list \<Rightarrow> nat list list \<Rightarrow> nat \<Rightarrow> nat \<Rightarrow> 'a edit list" where
  "lcs_walk a b t i j =
     (if i < length a \<and> j < length b then
        (if a ! i = b ! j then Same [a ! i] [b ! j] # lcs_walk a b t (i + 1) (j + 1)
         else if t ! (i + 1) ! j \<ge> t ! i ! (j + 1) then Del [a ! i] # lcs_walk a b t (i + 1) j
         else Ins [b ! j] # lcs_walk a b t i (j + 1))
      else map (\<lambda>x. Del [x]) (drop i a) @ map (\<lambda>x. Ins [x]) (drop j b))"
  by pat_completeness auto
termination
  by (relation "measure (\<lambda>(a, b, t, i, j). (length a - i) + (length b - j))") auto

declare lcs_walk.simps [simp del]

definition lcs_ops :: "'a list \<Rightarrow> 'a list \<Rightarrow> 'a edit list" where
  "lcs_ops a b = lcs_walk a b (lcs_table a b) 0 0"

section \<open>diffSequences\<close>

definition LCS_CELL_BUDGET :: nat where
  "LCS_CELL_BUDGET = 4000000"

text \<open>The two trimming loops: a count of equal leading elements.\<close>

fun common_prefix :: "'a list \<Rightarrow> 'a list \<Rightarrow> nat" where
  "common_prefix (x # xs) (y # ys) = (if x = y then Suc (common_prefix xs ys) else 0)"
| "common_prefix _ _ = 0"

definition middle_ops :: "'a list \<Rightarrow> 'a list \<Rightarrow> 'a edit list" where
  "middle_ops midA midB =
     (if midA \<noteq> [] \<and> midB \<noteq> [] \<and> length midA * length midB > LCS_CELL_BUDGET
      then [Del midA, Ins midB]
      else if midA = [] \<and> midB \<noteq> [] then [Ins midB]
      else if midA \<noteq> [] \<and> midB = [] then [Del midA]
      else if midA \<noteq> [] \<and> midB \<noteq> [] then lcs_ops midA midB
      else [])"

definition diff_sequences :: "'a list \<Rightarrow> 'a list \<Rightarrow> 'a edit list" where
  "diff_sequences a b =
     (let start = common_prefix a b;
          tail_len = common_prefix (rev (drop start a)) (rev (drop start b));
          endA = length a - tail_len;
          endB = length b - tail_len
      in merge_runs
           ((if start > 0 then [Same (js_slice a 0 start) (js_slice b 0 start)] else [])
            @ middle_ops (js_slice a start endA) (js_slice b start endB)
            @ (if endA < length a then [Same (drop endA a) (drop endB b)] else [])))"

section \<open>Merging changes no side\<close>

lemma glue_sides:
  "same_kind e f \<Longrightarrow> old_side (glue e f) = old_side e @ old_side f"
  "same_kind e f \<Longrightarrow> new_side (glue e f) = new_side e @ new_side f"
  "same_kind e f \<Longrightarrow> same_side (glue e f) = same_side e @ same_side f"
  by (cases e; cases f; simp)+

lemma push_run_sides:
  "olds (push_run out e) = olds out @ old_side e"
  "news (push_run out e) = news out @ new_side e"
  "kept (push_run out e) = kept out @ same_side e"
proof -
  have "out = butlast out @ [last out]" if "out \<noteq> []"
    using that by simp
  then have "olds out = olds (butlast out) @ old_side (last out)"
    "news out = news (butlast out) @ new_side (last out)"
    "kept out = kept (butlast out) @ same_side (last out)" if "out \<noteq> []"
    using that by (metis append.right_neutral sides_simps(1,4,7), metis append.right_neutral sides_simps(2,5,8),
      metis append.right_neutral sides_simps(3,6,9))
  then show "olds (push_run out e) = olds out @ old_side e"
    "news (push_run out e) = news out @ new_side e"
    "kept (push_run out e) = kept out @ same_side e"
    by (auto simp: push_run_def glue_sides)
qed

lemma foldl_push_sides:
  "olds (foldl push_run out ops) = olds out @ olds ops"
  "news (foldl push_run out ops) = news out @ news ops"
  "kept (foldl push_run out ops) = kept out @ kept ops"
  by (induction ops arbitrary: out) (simp_all add: push_run_sides)

lemma merge_runs_sides [edit_simps, simp]:
  "olds (merge_runs ops) = olds ops"
  "news (merge_runs ops) = news ops"
  "kept (merge_runs ops) = kept ops"
  by (simp_all add: merge_runs_def foldl_push_sides)

lemma same_kind_glue [simp]: "same_kind e f \<Longrightarrow> same_kind d (glue e f) = same_kind d e"
  by (cases d; cases e; cases f; simp)

lemma runs_merged_snoc:
  "runs_merged (es @ [e]) = (runs_merged es \<and> (es = [] \<or> \<not> same_kind (last es) e))"
proof (induction es)
  case (Cons d es)
  then show ?case by (cases es) auto
qed simp

lemma push_run_merged: "runs_merged out \<Longrightarrow> runs_merged (push_run out e)"
proof (cases "out \<noteq> [] \<and> same_kind (last out) e")
  case True
  assume m: "runs_merged out"
  have "out = butlast out @ [last out]" using True by simp
  with m have "runs_merged (butlast out)"
    "butlast out = [] \<or> \<not> same_kind (last (butlast out)) (last out)"
    by (metis runs_merged_snoc)+
  with True show ?thesis by (auto simp: push_run_def runs_merged_snoc)
qed (auto simp: push_run_def runs_merged_snoc)

lemma foldl_push_merged: "runs_merged out \<Longrightarrow> runs_merged (foldl push_run out ops)"
  by (induction ops arbitrary: out) (simp_all add: push_run_merged)

lemma merge_runs_merged [simp]: "runs_merged (merge_runs ops)"
  by (simp add: merge_runs_def foldl_push_merged)

lemma push_run_pred:
  assumes g: "\<And>e f. same_kind e f \<Longrightarrow> P e \<Longrightarrow> P f \<Longrightarrow> P (glue e f)"
  shows "list_all P out \<Longrightarrow> P e \<Longrightarrow> list_all P (push_run out e)"
  by (auto simp: push_run_def list_all_iff intro: g dest: in_set_butlastD)

lemma merge_runs_pred:
  assumes g: "\<And>e f. same_kind e f \<Longrightarrow> P e \<Longrightarrow> P f \<Longrightarrow> P (glue e f)"
    and all: "list_all P ops"
  shows "list_all P (merge_runs ops)"
proof -
  have "list_all P out \<Longrightarrow> list_all P ops \<Longrightarrow> list_all P (foldl push_run out ops)" for out
    by (induction ops arbitrary: out) (simp_all add: push_run_pred [where P = P, OF g])
  then show ?thesis using all by (simp add: merge_runs_def)
qed

section \<open>The reference: length of a longest common subsequence\<close>

fun lcs_len :: "'a list \<Rightarrow> 'a list \<Rightarrow> nat" where
  "lcs_len (x # xs) (y # ys) =
     (if x = y then Suc (lcs_len xs ys)
      else max (lcs_len xs (y # ys)) (lcs_len (x # xs) ys))"
| "lcs_len _ _ = 0"

lemma lcs_len_Nil2 [simp]: "lcs_len a [] = 0"
  by (cases a) auto

lemma lcs_row_spec:
  "below = map (\<lambda>j. lcs_len xs (drop j b)) [0..<Suc (length b)] \<Longrightarrow>
   lcs_row x b below = map (\<lambda>j. lcs_len (x # xs) (drop j b)) [0..<Suc (length b)]"
proof (induction b arbitrary: below)
  case (Cons y ys)
  have up: "[0..<Suc (length (y # ys))] = 0 # map Suc [0..<Suc (length ys)]"
    by (simp add: map_Suc_upt upt_conv_Cons del: upt_Suc)
  have below: "below = lcs_len xs (y # ys) # map (\<lambda>j. lcs_len xs (drop j ys)) [0..<Suc (length ys)]"
    unfolding Cons.prems up by (simp add: comp_def del: upt_Suc)
  have hd2: "hd (map (\<lambda>j. f (drop j ys)) [0..<Suc (length ys)]) = f ys" for f :: "'a list \<Rightarrow> nat"
    by (simp add: upt_conv_Cons del: upt_Suc)
  have rest: "lcs_row x ys (map (\<lambda>j. lcs_len xs (drop j ys)) [0..<Suc (length ys)]) =
      map (\<lambda>j. lcs_len (x # xs) (drop j ys)) [0..<Suc (length ys)]"
    by (rule Cons.IH) (rule refl)
  show ?case
    unfolding up lcs_row.simps Let_def below list.sel rest
    by (simp add: comp_def hd2 del: upt_Suc)
qed simp

lemma lcs_table_spec:
  "lcs_table a b = map (\<lambda>i. map (\<lambda>j. lcs_len (drop i a) (drop j b)) [0..<Suc (length b)]) [0..<Suc (length a)]"
proof (induction a)
  case Nil
  have "replicate n 0 = map (\<lambda>j. lcs_len [] (drop j b)) [0..<n]" for n
    by (rule nth_equalityI) auto
  then show ?case by simp
next
  case (Cons x xs)
  have up: "[0..<Suc (length (x # xs))] = 0 # map Suc [0..<Suc (length xs)]"
    by (simp add: map_Suc_upt upt_conv_Cons del: upt_Suc)
  have hd1: "hd (lcs_table xs b) = map (\<lambda>j. lcs_len xs (drop j b)) [0..<Suc (length b)]"
    unfolding Cons.IH by (simp add: upt_conv_Cons del: upt_Suc)
  show ?case
    unfolding up lcs_table.simps Let_def lcs_row_spec [OF hd1]
    by (simp add: Cons.IH comp_def del: upt_Suc)
qed

text \<open>The table the code fills holds the reference value of every pair of suffixes.\<close>

lemma lcs_table_nth:
  assumes "i \<le> length a" and "j \<le> length b"
  shows "lcs_table a b ! i ! j = lcs_len (drop i a) (drop j b)"
  unfolding lcs_table_spec using assms by (simp add: less_Suc_eq_le del: upt_Suc)

lemma lcs_walk_sides:
  "i \<le> length a \<Longrightarrow> j \<le> length b \<Longrightarrow>
   olds (lcs_walk a b t i j) = drop i a \<and> news (lcs_walk a b t i j) = drop j b"
proof (induction a b t i j rule: lcs_walk.induct)
  case (1 a b t i j)
  show ?case
  proof (cases "i < length a \<and> j < length b")
    case True
    then have "drop i a = a ! i # drop (i + 1) a" "drop j b = b ! j # drop (j + 1) b"
      by (simp_all add: Cons_nth_drop_Suc)
    with True 1 show ?thesis by (auto simp: lcs_walk.simps [of a b t i j])
  next
    case False
    with 1 show ?thesis by (auto simp: lcs_walk.simps [of a b t i j])
  qed
qed

lemma lcs_walk_honest: "list_all honest (lcs_walk a b t i j)"
proof (induction a b t i j rule: lcs_walk.induct)
  case (1 a b t i j)
  have "list_all honest (map (\<lambda>x. Del [x]) xs)" "list_all honest (map (\<lambda>x. Ins [x]) xs)" for xs :: "'a list"
    by (induction xs) auto
  with 1 show ?case by (auto simp: lcs_walk.simps [of a b t i j])
qed

lemma lcs_walk_kept:
  "i \<le> length a \<Longrightarrow> j \<le> length b \<Longrightarrow>
   \<forall>i j. i \<le> length a \<longrightarrow> j \<le> length b \<longrightarrow> t ! i ! j = lcs_len (drop i a) (drop j b) \<Longrightarrow>
   length (kept (lcs_walk a b t i j)) = lcs_len (drop i a) (drop j b)"
proof (induction a b t i j rule: lcs_walk.induct)
  case (1 a b t i j)
  show ?case
  proof (cases "i < length a \<and> j < length b")
    case True
    then have d: "drop i a = a ! i # drop (i + 1) a" "drop j b = b ! j # drop (j + 1) b"
      by (simp_all add: Cons_nth_drop_Suc)
    have t: "t ! (i + 1) ! j = lcs_len (drop (i + 1) a) (drop j b)"
      "t ! i ! (j + 1) = lcs_len (drop i a) (drop (j + 1) b)"
      using True "1.prems"(3) by simp_all
    show ?thesis
      using True 1 t by (auto simp: lcs_walk.simps [of a b t i j] d max_def simp del: drop_Suc)
  next
    case False
    with 1 show ?thesis by (auto simp: lcs_walk.simps [of a b t i j])
  qed
qed

section \<open>The reference is the maximum over all common subsequences\<close>

lemma lcs_len_upper: "subseq zs a \<Longrightarrow> subseq zs b \<Longrightarrow> length zs \<le> lcs_len a b"
proof (induction a b arbitrary: zs rule: lcs_len.induct)
  case (1 x xs y ys)
  show ?case
  proof (cases zs)
    case (Cons z zs')
    show ?thesis
    proof (cases "x = y")
      case True
      have "subseq zs' xs \<and> subseq zs' ys"
        using 1 Cons True by (metis subseq_Cons' subseq_Cons2_iff)
      then show ?thesis using 1 Cons True by simp
    next
      case False
      then consider "z \<noteq> x" | "z \<noteq> y" by blast
      then show ?thesis
      proof cases
        case 1
        then have "length zs \<le> lcs_len xs (y # ys)"
          using "1.prems" "1.IH"(2) [OF False, of zs] Cons by simp
        then show ?thesis using False by (simp add: le_max_iff_disj)
      next
        case 2
        then have "length zs \<le> lcs_len (x # xs) ys"
          using "1.prems" "1.IH"(3) [OF False, of zs] Cons by simp
        then show ?thesis using False by (simp add: le_max_iff_disj)
      qed
    qed
  qed simp
qed (auto simp: list_emb_Nil2)

lemma lcs_len_attained: "\<exists>zs. subseq zs a \<and> subseq zs b \<and> length zs = lcs_len a b"
proof (induction a b rule: lcs_len.induct)
  case (1 x xs y ys)
  show ?case
  proof (cases "x = y")
    case True
    with 1 obtain zs where "subseq zs xs" "subseq zs ys" "length zs = lcs_len xs ys" by blast
    with True show ?thesis by (intro exI [of _ "x # zs"]) auto
  next
    case False
    with 1 obtain us vs where "subseq us xs" "subseq us (y # ys)" "length us = lcs_len xs (y # ys)"
      and "subseq vs (x # xs)" "subseq vs ys" "length vs = lcs_len (x # xs) ys" by blast
    with False show ?thesis
      by (cases "lcs_len xs (y # ys) \<le> lcs_len (x # xs) ys")
        (auto simp: max_def intro: list_emb_Cons)
  qed
qed auto

lemma subseq_rev_mono: "subseq xs ys \<Longrightarrow> subseq (rev xs) (rev ys)"
proof (induction rule: list_emb.induct)
  case (list_emb_Cons2 x y xs ys)
  then show ?case by (simp add: list_emb_append_mono)
qed (auto intro: subseq_rev_drop_many)

lemma lcs_len_rev: "lcs_len (rev a) (rev b) = lcs_len a b"
proof (rule antisym)
  have "lcs_len (rev a) (rev b) \<le> lcs_len a b" for a b :: "'a list"
  proof -
    obtain zs where "subseq zs (rev a)" "subseq zs (rev b)" "length zs = lcs_len (rev a) (rev b)"
      using lcs_len_attained by blast
    then show ?thesis
      using lcs_len_upper [of "rev zs" a b] by (metis length_rev rev_rev_ident subseq_rev_mono)
  qed
  from this [of a b] this [of "rev a" "rev b"]
  show "lcs_len (rev a) (rev b) \<le> lcs_len a b" "lcs_len a b \<le> lcs_len (rev a) (rev b)"
    by simp_all
qed

lemma lcs_len_prefix: "lcs_len (p @ a) (p @ b) = length p + lcs_len a b"
  by (induction p) auto

lemma lcs_len_suffix: "lcs_len (a @ s) (b @ s) = lcs_len a b + length s"
proof -
  have "lcs_len (a @ s) (b @ s) = lcs_len (rev s @ rev a) (rev s @ rev b)"
    by (metis lcs_len_rev rev_append)
  then show ?thesis by (simp add: lcs_len_prefix lcs_len_rev)
qed

section \<open>Trimming\<close>

lemma common_prefix_le: "common_prefix a b \<le> length a \<and> common_prefix a b \<le> length b"
  by (induction a b rule: common_prefix.induct) auto

lemma common_prefix_take: "take (common_prefix a b) a = take (common_prefix a b) b"
  by (induction a b rule: common_prefix.induct) auto

text \<open>What the two trimming loops leave: a shared head, two middles, a shared tail.\<close>

lemma trim_decompose:
  fixes a b :: "'a list"
  defines "start \<equiv> common_prefix a b"
  defines "n \<equiv> common_prefix (rev (drop start a)) (rev (drop start b))"
  defines "midA \<equiv> js_slice a start (length a - n)"
  defines "midB \<equiv> js_slice b start (length b - n)"
  shows "a = take start a @ midA @ drop (length a - n) a"
    and "b = take start a @ midB @ drop (length a - n) a"
    and "drop (length b - n) b = drop (length a - n) a"
    and "take start b = take start a"
    and "start \<le> length a - n" and "length midA \<le> length a" and "length midB \<le> length b"
proof -
  have st: "start \<le> length a" "start \<le> length b" and h: "take start b = take start a"
    using common_prefix_le [of a b] common_prefix_take [of a b] by (simp_all add: start_def)
  have n: "n \<le> length a - start" "n \<le> length b - start"
    using common_prefix_le [of "rev (drop start a)" "rev (drop start b)"] by (simp_all add: n_def)
  have "rev (take n (rev (drop start a))) = rev (take n (rev (drop start b)))"
    using common_prefix_take [of "rev (drop start a)" "rev (drop start b)"] by (simp add: n_def)
  then have tl: "drop (length b - n) b = drop (length a - n) a"
    using st n by (simp add: rev_take rev_drop)
  have split: "xs = take i xs @ js_slice xs i j @ drop j xs" if "i \<le> j" for i j and xs :: "'a list"
    using that js_slice_append [of 0 i j xs] by (simp add: js_slice_def) (metis append_assoc append_take_drop_id)
  have le: "start \<le> length a - n" "start \<le> length b - n"
    using st n by simp_all
  show "a = take start a @ midA @ drop (length a - n) a"
    using split [OF le(1), of a] by (simp add: midA_def)
  show "b = take start a @ midB @ drop (length a - n) a"
    using split [OF le(2), of b] h tl by (simp add: midB_def)
  show "drop (length b - n) b = drop (length a - n) a" "take start b = take start a"
    "start \<le> length a - n"
    by (fact tl h le(1))+
  show "length midA \<le> length a" "length midB \<le> length b"
    by (simp_all add: midA_def midB_def)
qed

lemma lcs_ops_spec:
  "olds (lcs_ops a b) = a" "news (lcs_ops a b) = b" "list_all honest (lcs_ops a b)"
  "length (kept (lcs_ops a b)) = lcs_len a b"
  using lcs_walk_sides [of 0 a 0 b "lcs_table a b"] lcs_walk_honest [of a b "lcs_table a b" 0 0]
    lcs_walk_kept [of 0 a 0 b "lcs_table a b"]
  by (simp_all add: lcs_ops_def lcs_table_nth)

lemma middle_ops_sides:
  "olds (middle_ops a b) = a" "news (middle_ops a b) = b" "list_all honest (middle_ops a b)"
  by (auto simp: middle_ops_def lcs_ops_spec)

lemma middle_ops_kept:
  "length a * length b \<le> LCS_CELL_BUDGET \<Longrightarrow> length (kept (middle_ops a b)) = lcs_len a b"
  by (auto simp: middle_ops_def lcs_ops_spec)

section \<open>What diffSequences promises\<close>

lemma diff_sequences_olds [edit_simps, simp]: "olds (diff_sequences a b) = a"
proof -
  let ?s = "common_prefix a b"
  let ?n = "common_prefix (rev (drop ?s a)) (rev (drop ?s b))"
  have "olds (diff_sequences a b) = take ?s a @ js_slice a ?s (length a - ?n) @ drop (length a - ?n) a"
    by (auto simp: diff_sequences_def Let_def middle_ops_sides)
  also have "\<dots> = a" by (rule trim_decompose(1) [where a = a and b = b, symmetric])
  finally show ?thesis .
qed

lemma diff_sequences_news [edit_simps, simp]: "news (diff_sequences a b) = b"
proof -
  let ?s = "common_prefix a b"
  let ?n = "common_prefix (rev (drop ?s a)) (rev (drop ?s b))"
  have e: "drop (length b - ?n) b = drop (length a - ?n) a" "take ?s b = take ?s a"
    by (rule trim_decompose(3,4) [where a = a and b = b])+
  have "news (diff_sequences a b) = take ?s a @ js_slice b ?s (length b - ?n) @ drop (length a - ?n) a"
    by (auto simp: diff_sequences_def Let_def middle_ops_sides e)
  also have "\<dots> = b" by (rule trim_decompose(2) [where a = a and b = b, symmetric])
  finally show ?thesis .
qed

lemma honest_glue: "same_kind e f \<Longrightarrow> honest e \<Longrightarrow> honest f \<Longrightarrow> honest (glue e f)"
  by (cases e; cases f) auto

lemma diff_sequences_honest: "list_all honest (diff_sequences a b)"
proof -
  note t = trim_decompose(3,4) [where a = a and b = b]
  show ?thesis
    unfolding diff_sequences_def Let_def
    by (rule merge_runs_pred [where P = honest])
      (auto simp: honest_glue t middle_ops_sides)
qed

lemma diff_sequences_merged: "runs_merged (diff_sequences a b)"
  by (simp add: diff_sequences_def Let_def)

lemma honest_kept: "list_all honest ops \<Longrightarrow> subseq (kept ops) (olds ops) \<and> subseq (kept ops) (news ops)"
proof (induction ops)
  case (Cons e ops)
  then show ?case by (cases e) (auto intro: list_emb_append_mono subseq_drop_many)
qed simp

lemma diff_sequences_kept:
  assumes "length a * length b \<le> LCS_CELL_BUDGET"
  shows "length (kept (diff_sequences a b)) = lcs_len a b"
proof -
  note t = trim_decompose [where a = a and b = b]
  let ?s = "common_prefix a b"
  let ?n = "common_prefix (rev (drop ?s a)) (rev (drop ?s b))"
  let ?ma = "js_slice a ?s (length a - ?n)"
  let ?mb = "js_slice b ?s (length b - ?n)"
  have b: "length ?ma * length ?mb \<le> LCS_CELL_BUDGET"
    using mult_le_mono [OF t(6) t(7)] assms by linarith
  have "kept (diff_sequences a b) = take ?s a @ kept (middle_ops ?ma ?mb) @ drop (length a - ?n) a"
    by (auto simp: diff_sequences_def Let_def)
  then have "length (kept (diff_sequences a b)) =
      length (take ?s a) + (lcs_len ?ma ?mb + length (drop (length a - ?n) a))"
    by (simp only: length_append middle_ops_kept [OF b])
  also have "\<dots> = lcs_len (take ?s a @ ?ma @ drop (length a - ?n) a) (take ?s a @ ?mb @ drop (length a - ?n) a)"
    by (simp only: lcs_len_prefix lcs_len_suffix)
  also have "\<dots> = lcs_len a b"
    by (simp only: t(1) [symmetric] t(2) [symmetric])
  finally show ?thesis .
qed

text \<open>
  The ops of diffSequences rebuild both inputs exactly, a run marked unchanged
  carries equal elements on its two sides, and no two neighbouring runs have the
  same kind. It holds above the cell budget too, where the middle is one replacement.
\<close>

theorem diff_sequences_faithful:
  "olds (diff_sequences a b) = a \<and> news (diff_sequences a b) = b \<and>
   list_all honest (diff_sequences a b) \<and> runs_merged (diff_sequences a b)"
  by (simp add: diff_sequences_honest diff_sequences_merged)

text \<open>
  C5: within the cell budget the alignment is optimal: what diffSequences keeps is a
  common subsequence of the inputs, and no common subsequence is longer. The table,
  the walk and the trimming of shared ends together lose nothing.
\<close>

theorem diff_sequences_longest:
  assumes "length a * length b \<le> LCS_CELL_BUDGET"
  shows "subseq (kept (diff_sequences a b)) a \<and> subseq (kept (diff_sequences a b)) b \<and>
    (subseq zs a \<and> subseq zs b \<longrightarrow> length zs \<le> length (kept (diff_sequences a b)))"
  using honest_kept [OF diff_sequences_honest, of a b] lcs_len_upper [of zs a b]
  by (simp add: diff_sequences_kept [OF assms])

theorem diff_sequences_longest_witness:
  "kept (diff_sequences [1, 2, 3, 4] [2, 9, 4, 1::nat]) = [2, 4] \<and>
   subseq (kept (diff_sequences [1, 2, 3, 4] [2, 9, 4, 1::nat])) [1, 2, 3, 4] \<and>
   length [1::nat] \<le> length (kept (diff_sequences [1, 2, 3, 4] [2, 9, 4, 1::nat]))"
proof -
  have h: "length [1, 2, 3, 4::nat] * length [2, 9, 4, 1::nat] \<le> LCS_CELL_BUDGET"
    by (simp add: LCS_CELL_BUDGET_def)
  have "kept (diff_sequences [1, 2, 3, 4] [2, 9, 4, 1::nat]) = [2, 4]"
    by (simp add: diff_sequences_def middle_ops_def lcs_ops_def lcs_walk.simps js_slice_def
      LCS_CELL_BUDGET_def merge_runs_def push_run_def Let_def)
  then show ?thesis
    using diff_sequences_longest [OF h, of "[1]"] by simp
qed

end
