(* ===== verification/Word_Diff.thy ===== *)
theory Word_Diff
  imports Seq_Diff
begin

text \<open>
  The word-level half of theia/product-ext/src/browser/diff.js: the TOKEN
  tokeniser, graphemeUnits, refineWordPair, refineParts, diffWords, pairLines and
  coalesceParts. Strings range over Latin-1 code units, for which the Unicode
  classes of TOKEN are written out in \<open>is_word\<close>; the combining marks of
  COMBINING_MARK lie above that range, so the class is an argument \<open>mark\<close>
  and every theorem holds for any class. The theorems show that whatever the
  refinement and the coalescing do, the parts still spell the two lines.
\<close>

section \<open>Parts\<close>

datatype kind = KSame | KDel | KIns

type_synonym part = "kind \<times> jstr"

definition part_olds :: "part list \<Rightarrow> jstr" where
  "part_olds ps = concat (map snd (filter (\<lambda>p. fst p \<noteq> KIns) ps))"

definition part_news :: "part list \<Rightarrow> jstr" where
  "part_news ps = concat (map snd (filter (\<lambda>p. fst p \<noteq> KDel) ps))"

lemma part_sides [edit_simps, simp]:
  "part_olds [] = []" "part_news [] = []"
  "part_olds (p # ps) = (if fst p = KIns then [] else snd p) @ part_olds ps"
  "part_news (p # ps) = (if fst p = KDel then [] else snd p) @ part_news ps"
  "part_olds (ps @ qs) = part_olds ps @ part_olds qs"
  "part_news (ps @ qs) = part_news ps @ part_news qs"
  by (simp_all add: part_olds_def part_news_def)

section \<open>TOKEN\<close>

text \<open>The letters, digits and underscore of TOKEN among the Latin-1 code units.\<close>

definition is_word :: "char \<Rightarrow> bool" where
  "is_word c =
     (let n = (of_char c :: nat) in
      (48 \<le> n \<and> n \<le> 57) \<or> (65 \<le> n \<and> n \<le> 90) \<or> n = 95 \<or> (97 \<le> n \<and> n \<le> 122) \<or>
      n \<in> {170, 178, 179, 181, 185, 186, 188, 189, 190} \<or>
      (192 \<le> n \<and> n \<le> 214) \<or> (216 \<le> n \<and> n \<le> 246) \<or> (248 \<le> n \<and> n \<le> 255))"

function tokens :: "jstr \<Rightarrow> jstr list" where
  "tokens [] = []"
| "tokens (c # s) =
     (if is_space c then (c # takeWhile is_space s) # tokens (dropWhile is_space s)
      else if is_word c then (c # takeWhile is_word s) # tokens (dropWhile is_word s)
      else [c] # tokens s)"
  by pat_completeness auto
termination
  by (relation "measure length") (auto simp: less_Suc_eq_le length_dropWhile_le)

section \<open>graphemeUnits\<close>

definition push_unit :: "(char \<Rightarrow> bool) \<Rightarrow> jstr list \<Rightarrow> char \<Rightarrow> jstr list" where
  "push_unit mark units c =
     (if units \<noteq> [] \<and> mark c then butlast units @ [last units @ [c]] else units @ [[c]])"

definition grapheme_units :: "(char \<Rightarrow> bool) \<Rightarrow> jstr \<Rightarrow> jstr list" where
  "grapheme_units mark text = foldl (push_unit mark) [] text"

section \<open>refineWordPair\<close>

text \<open>The parts a refined pair becomes; one unchanged part when both middles are empty.\<close>

definition assemble_parts :: "jstr \<Rightarrow> jstr \<Rightarrow> jstr \<Rightarrow> jstr \<Rightarrow> part list" where
  "assemble_parts pre delMid insMid post =
     (if delMid = [] \<and> insMid = [] then
        (let whole = pre @ post in if whole \<noteq> [] then [(KSame, whole)] else [])
      else
        (if pre \<noteq> [] then [(KSame, pre)] else [])
        @ (if delMid \<noteq> [] then [(KDel, delMid)] else [])
        @ (if insMid \<noteq> [] then [(KIns, insMid)] else [])
        @ (if post \<noteq> [] then [(KSame, post)] else []))"

text \<open>
  The floor \<open>(prefixLen + suffixLen) / shorter < 0.4\<close> is a comparison of
  integers: two counts below \<open>2 ^ 50\<close> have a quotient that rounds to the
  same side of the literal.
\<close>

definition refine_word_pair :: "(char \<Rightarrow> bool) \<Rightarrow> jstr \<Rightarrow> jstr \<Rightarrow> part list option" where
  "refine_word_pair mark delText insText =
     (let du = grapheme_units mark delText;
          iu = grapheme_units mark insText;
          shorter = min (length du) (length iu);
          p = common_prefix du iu;
          s = common_prefix (rev (drop p du)) (rev (drop p iu))
      in if shorter = 0 \<or> 5 * (p + s) < 2 * shorter then None
         else
           Some (assemble_parts (concat (js_slice du 0 p))
                   (concat (js_slice du p (length du - s)))
                   (concat (js_slice iu p (length iu - s)))
                   (concat (drop (length du - s) du))))"

section \<open>refineParts\<close>

definition push_part :: "part list \<Rightarrow> part \<Rightarrow> part list" where
  "push_part out p =
     (if out \<noteq> [] \<and> fst (last out) = fst p
      then butlast out @ [(fst (last out), snd (last out) @ snd p)] else out @ [p])"

fun refine_loop :: "(char \<Rightarrow> bool) \<Rightarrow> part list \<Rightarrow> part list \<Rightarrow> part list" where
  "refine_loop mark out [] = out"
| "refine_loop mark out [p] = push_part out p"
| "refine_loop mark out (p # q # ps) =
     (if fst p = KDel \<and> fst q = KIns then
        (case refine_word_pair mark (snd p) (snd q) of
           Some refined \<Rightarrow> refine_loop mark (foldl push_part out refined) ps
         | None \<Rightarrow> refine_loop mark (push_part out p) (q # ps))
      else refine_loop mark (push_part out p) (q # ps))"

definition refine_parts :: "(char \<Rightarrow> bool) \<Rightarrow> part list \<Rightarrow> part list" where
  "refine_parts mark parts = refine_loop mark [] parts"

section \<open>diffWords\<close>

fun part_of :: "jstr edit \<Rightarrow> part" where
  "part_of (Same a b) = (KSame, concat b)"
| "part_of (Del a) = (KDel, concat a)"
| "part_of (Ins b) = (KIns, concat b)"

definition diff_words :: "(char \<Rightarrow> bool) \<Rightarrow> jstr \<Rightarrow> jstr \<Rightarrow> part list" where
  "diff_words mark a b =
     refine_parts mark
       (filter (\<lambda>p. length (snd p) > 0) (map part_of (diff_sequences (tokens a) (tokens b))))"

section \<open>pairLines\<close>

text \<open>The similarity floor \<open>changed / total <= 0.6\<close>, over integers as above.\<close>

definition pair_line :: "(char \<Rightarrow> bool) \<Rightarrow> jstr list \<Rightarrow> jstr list \<Rightarrow> nat \<Rightarrow> part list option" where
  "pair_line mark oldLines newLines i =
     (if length oldLines \<le> i \<or> length newLines \<le> i then None
      else
        let a = oldLines ! i; b = newLines ! i;
            parts = diff_words mark a b;
            changed = sum_list (map (\<lambda>p. length (snd p)) (filter (\<lambda>p. fst p \<noteq> KSame) parts));
            total = max (max (length a) (length b)) 1
        in if 5 * changed \<le> 3 * total then Some parts else None)"

definition pair_lines :: "(char \<Rightarrow> bool) \<Rightarrow> jstr list \<Rightarrow> jstr list \<Rightarrow> part list option list" where
  "pair_lines mark oldLines newLines =
     map (pair_line mark oldLines newLines) [0..<max (length oldLines) (length newLines)]"

section \<open>coalesceParts\<close>

definition BRIDGE_MAX :: nat where
  "BRIDGE_MAX = 3"

definition bridge_at :: "part list \<Rightarrow> nat \<Rightarrow> bool" where
  "bridge_at parts i =
     (fst (parts ! i) = KSame \<and> length (js_trim (snd (parts ! i))) \<le> BRIDGE_MAX \<and>
      i > 0 \<and> i < length parts - 1 \<and>
      fst (parts ! (i - 1)) \<noteq> KSame \<and> fst (parts ! (i + 1)) \<noteq> KSame)"

definition flush_parts :: "part list \<Rightarrow> jstr \<Rightarrow> jstr \<Rightarrow> part list" where
  "flush_parts out removed added =
     out @ (if removed \<noteq> [] then [(KDel, removed)] else [])
         @ (if added \<noteq> [] then [(KIns, added)] else [])"

fun coalesce_step :: "part list \<Rightarrow> part list \<times> jstr \<times> jstr \<Rightarrow> nat \<Rightarrow> part list \<times> jstr \<times> jstr" where
  "coalesce_step parts (out, removed, added) i =
     (let part = parts ! i in
      if fst part = KSame \<and> \<not> bridge_at parts i then (flush_parts out removed added @ [part], [], [])
      else if fst part = KSame then (out, removed @ snd part, added @ snd part)
      else if fst part = KDel then (out, removed @ snd part, added)
      else (out, removed, added @ snd part))"

definition coalesce_parts :: "part list \<Rightarrow> part list" where
  "coalesce_parts parts =
     (case foldl (coalesce_step parts) ([], [], []) [0..<length parts] of
        (out, removed, added) \<Rightarrow> flush_parts out removed added)"

section \<open>Nothing is lost\<close>

lemma concat_tokens [simp]: "concat (tokens s) = s"
  by (induction s rule: tokens.induct) auto

lemma concat_push_unit: "concat (push_unit mark units c) = concat units @ [c]"
proof (cases "units = []")
  case False
  then have "concat (butlast units) @ last units = concat units"
    by (metis append_butlast_last_id concat.simps(1,2) concat_append append.right_neutral)
  then show ?thesis
    by (auto simp: push_unit_def simp flip: append_assoc)
qed (simp add: push_unit_def)

lemma concat_grapheme_units [simp]: "concat (grapheme_units mark s) = s"
proof -
  have "concat (foldl (push_unit mark) us s) = concat us @ s" for us
    by (induction s arbitrary: us) (simp_all add: concat_push_unit)
  then show ?thesis by (simp add: grapheme_units_def)
qed

lemma concat_slices:
  "i \<le> j \<Longrightarrow> concat (js_slice xs 0 i) @ concat (js_slice xs i j) @ concat (drop j xs) = concat xs"
  unfolding concat_append [symmetric] append_assoc [symmetric]
  by (simp add: js_slice_append js_slice_append [of 0, simplified])

lemma assemble_parts_sides [simp]:
  "part_olds (assemble_parts p d i s) = p @ d @ s"
  "part_news (assemble_parts p d i s) = p @ i @ s"
  by (auto simp: assemble_parts_def Let_def)

lemma refine_word_pair_sides:
  assumes "refine_word_pair mark d i = Some ps"
  shows "part_olds ps = d" and "part_news ps = i"
proof -
  let ?du = "grapheme_units mark d"
  let ?iu = "grapheme_units mark i"
  let ?p = "common_prefix ?du ?iu"
  let ?s = "common_prefix (rev (drop ?p ?du)) (rev (drop ?p ?iu))"
  note t = trim_decompose [where a = "?du" and b = "?iu"]
  have d: "concat (js_slice ?du 0 ?p) @ concat (js_slice ?du ?p (length ?du - ?s)) @
      concat (drop (length ?du - ?s) ?du) = d"
    unfolding concat_slices [OF t(5)] by (rule concat_grapheme_units)
  have i: "concat (js_slice ?du 0 ?p) @ concat (js_slice ?iu ?p (length ?iu - ?s)) @
      concat (drop (length ?du - ?s) ?du) = i"
    using arg_cong [OF t(2), of concat] by simp
  show "part_olds ps = d" "part_news ps = i"
    using assms unfolding refine_word_pair_def Let_def
    by (auto simp only: d i assemble_parts_sides option.inject split: if_splits)
qed

lemma push_part_sides [simp]:
  "part_olds (push_part out p) = part_olds out @ part_olds [p]"
  "part_news (push_part out p) = part_news out @ part_news [p]"
proof -
  have e: "out = butlast out @ [last out]" if "out \<noteq> []"
    using that by simp
  have "part_olds out = part_olds (butlast out) @ part_olds [last out]"
    "part_news out = part_news (butlast out) @ part_news [last out]" if "out \<noteq> []"
    by (subst e [OF that], simp only: part_sides(5,6))+
  then show "part_olds (push_part out p) = part_olds out @ part_olds [p]"
    "part_news (push_part out p) = part_news out @ part_news [p]"
    by (auto simp: push_part_def)
qed

lemma foldl_push_part_sides:
  "part_olds (foldl push_part out ps) = part_olds out @ part_olds ps"
  "part_news (foldl push_part out ps) = part_news out @ part_news ps"
  by (induction ps arbitrary: out) simp_all

lemma refine_loop_sides:
  "part_olds (refine_loop mark out ps) = part_olds out @ part_olds ps \<and>
   part_news (refine_loop mark out ps) = part_news out @ part_news ps"
proof (induction mark out ps rule: refine_loop.induct)
  case (3 mark out p q ps)
  then show ?case
    by (auto split: option.split simp: foldl_push_part_sides dest: refine_word_pair_sides)
qed simp_all

lemma part_sides_filter:
  "part_olds (filter (\<lambda>p. snd p \<noteq> []) ps) = part_olds ps"
  "part_news (filter (\<lambda>p. snd p \<noteq> []) ps) = part_news ps"
  by (induction ps) auto

lemma part_of_news: "part_news (map part_of ops) = concat (news ops)"
proof (induction ops)
  case (Cons e ops)
  then show ?case by (cases e) auto
qed simp

lemma part_of_olds: "list_all honest ops \<Longrightarrow> part_olds (map part_of ops) = concat (olds ops)"
proof (induction ops)
  case (Cons e ops)
  then show ?case by (cases e) auto
qed simp

lemma coalesce_steps_sides:
  "n \<le> length parts \<Longrightarrow> foldl (coalesce_step parts) ([], [], []) [0..<n] = (out, removed, added) \<Longrightarrow>
   part_olds out @ removed = part_olds (take n parts) \<and>
   part_news out @ added = part_news (take n parts)"
proof (induction n arbitrary: out removed added)
  case (Suc n)
  obtain o' r' a' where e: "foldl (coalesce_step parts) ([], [], []) [0..<n] = (o', r', a')"
    by (metis prod_cases3)
  have IH: "part_olds o' @ r' = part_olds (take n parts)"
    "part_news o' @ a' = part_news (take n parts)"
    using Suc.IH [OF _ e] Suc.prems(1) by auto
  have t: "take (Suc n) parts = take n parts @ [parts ! n]"
    using Suc.prems(1) by (simp add: take_Suc_conv_app_nth)
  obtain k s where p: "parts ! n = (k, s)" by force
  show ?case
    using Suc.prems(2) e unfolding t
    by (cases k) (auto simp: p flush_parts_def Let_def simp flip: IH append_assoc split: if_splits)
qed simp

text \<open>
  The parts of diffWords concatenate back to the two lines: the unchanged and
  removed texts spell the old line, the unchanged and added texts the new one,
  whatever the tokeniser, the alignment and the character refinement did.
\<close>

theorem diff_words_spell:
  "part_olds (diff_words mark a b) = a \<and> part_news (diff_words mark a b) = b"
  by (simp add: diff_words_def refine_parts_def refine_loop_sides part_sides_filter
      part_of_olds part_of_news diff_sequences_honest)

text \<open>
  CoalesceParts changes only where the emphasis falls: the coalesced parts spell
  the same old and the same new text as the parts it was given.
\<close>

theorem coalesce_parts_spell:
  "part_olds (coalesce_parts parts) = part_olds parts \<and>
   part_news (coalesce_parts parts) = part_news parts"
proof -
  obtain out removed added where
    e: "foldl (coalesce_step parts) ([], [], []) [0..<length parts] = (out, removed, added)"
    by (metis prod_cases3)
  show ?thesis
    using coalesce_steps_sides [OF le_refl e] by (auto simp: coalesce_parts_def e flush_parts_def)
qed

end
