(* ===== verification/Hunk_Diff.thy ===== *)
theory Hunk_Diff
  imports Word_Diff
begin

text \<open>
  The hunk half of theia/product-ext/src/browser/diff.js: hash, splitLines,
  diffHunks, applyHunks and countPending. A hunk is a record of the fields the
  code assigns to it. The lemmas show that the hunks of a diff fit both documents,
  are separated by unchanged lines, and that applying a selection of them replaces
  exactly the selected regions; accepting all or none gives the two documents back.
\<close>

section \<open>hash and splitLines\<close>

text \<open>\<open>h = ((h << 5) + h + c) | 0\<close> on a 32-bit value, read back unsigned in base 36.\<close>

definition hash_step :: "32 word \<Rightarrow> char \<Rightarrow> 32 word" where
  "hash_step h c = push_bit 5 h + h + of_nat (of_char c)"

definition hash :: "jstr \<Rightarrow> jstr" where
  "hash text = to_radix 36 (unat (foldl hash_step 5381 text))"

definition split_lines :: "jstr \<Rightarrow> jstr list" where
  "split_lines text = split_on LF (unify_crlf text)"

lemma split_lines_ne [simp]: "split_lines t \<noteq> []"
  by (simp add: split_lines_def)

lemma join_split_lines [simp]: "join [LF] (split_lines t) = unify_crlf t"
  by (simp add: split_lines_def)

section \<open>diffHunks\<close>

datatype hunk_kind = HInsert | HDelete | HReplace

record hunk =
  oldStart :: nat
  newStart :: nat
  oldLines :: "jstr list"
  newLines :: "jstr list"
  hid :: jstr
  oldCount :: nat
  hkind :: hunk_kind
  before :: "jstr list"
  after :: "jstr list"
  words :: "part list option list"

text \<open>The pending region: where it starts on both sides and what it gathered.\<close>

record pending =
  pOldStart :: nat
  pNewStart :: nat
  pOldLines :: "jstr list"
  pNewLines :: "jstr list"

record diff_state =
  dHunks :: "hunk list"
  dOldLine :: nat
  dNewLine :: nat
  dPending :: "pending option"

definition hunk_of :: "pending \<Rightarrow> hunk" where
  "hunk_of p =
     \<lparr>oldStart = pOldStart p, newStart = pNewStart p, oldLines = pOldLines p, newLines = pNewLines p,
      hid = ''h'' @ hash (to_dec (pOldStart p) @ [NUL] @ join [LF] (pOldLines p)
                          @ [CHR 0x01] @ join [LF] (pNewLines p)),
      oldCount = length (pOldLines p),
      hkind = (if pOldLines p = [] then HInsert else if pNewLines p = [] then HDelete else HReplace),
      before = [], after = [], words = []\<rparr>"

definition flush_hunk :: "diff_state \<Rightarrow> diff_state" where
  "flush_hunk s =
     (case dPending s of None \<Rightarrow> s
      | Some p \<Rightarrow> s\<lparr>dHunks := dHunks s @ [hunk_of p], dPending := None\<rparr>)"

definition open_pending :: "diff_state \<Rightarrow> pending" where
  "open_pending s =
     (case dPending s of Some p \<Rightarrow> p
      | None \<Rightarrow> \<lparr>pOldStart = dOldLine s, pNewStart = dNewLine s, pOldLines = [], pNewLines = []\<rparr>)"

fun hunk_step :: "diff_state \<Rightarrow> jstr edit \<Rightarrow> diff_state" where
  "hunk_step s (Same a b) =
     (let s' = flush_hunk s
      in s'\<lparr>dOldLine := dOldLine s' + length a, dNewLine := dNewLine s' + length b\<rparr>)"
| "hunk_step s (Del a) =
     (let p = open_pending s
      in s\<lparr>dPending := Some (p\<lparr>pOldLines := pOldLines p @ a\<rparr>), dOldLine := dOldLine s + length a\<rparr>)"
| "hunk_step s (Ins b) =
     (let p = open_pending s
      in s\<lparr>dPending := Some (p\<lparr>pNewLines := pNewLines p @ b\<rparr>), dNewLine := dNewLine s + length b\<rparr>)"

definition start_state :: diff_state where
  "start_state = \<lparr>dHunks = [], dOldLine = 0, dNewLine = 0, dPending = None\<rparr>"

definition raw_hunks :: "jstr edit list \<Rightarrow> hunk list" where
  "raw_hunks ops = dHunks (flush_hunk (foldl hunk_step start_state ops))"

definition dress_hunk :: "(char \<Rightarrow> bool) \<Rightarrow> nat \<Rightarrow> jstr list \<Rightarrow> hunk \<Rightarrow> hunk" where
  "dress_hunk mark context base h =
     h\<lparr>before := js_slice base (oldStart h - context) (oldStart h),
       after := js_slice base (oldStart h + oldCount h) (oldStart h + oldCount h + context),
       words := pair_lines mark (oldLines h) (newLines h)\<rparr>"

definition diff_hunks_with :: "(char \<Rightarrow> bool) \<Rightarrow> nat \<Rightarrow> jstr \<Rightarrow> jstr \<Rightarrow> hunk list" where
  "diff_hunks_with mark context baseText proposedText =
     (let base = split_lines baseText; proposed = split_lines proposedText
      in map (dress_hunk mark context base) (raw_hunks (diff_sequences base proposed)))"

text \<open>
  The call every store makes: two lines of context, and the combining marks of
  Latin-1, of which there are none.
\<close>

definition diff_hunks :: "jstr \<Rightarrow> jstr \<Rightarrow> hunk list" where
  "diff_hunks baseText proposedText = diff_hunks_with (\<lambda>_. False) 2 baseText proposedText"

section \<open>applyHunks and countPending\<close>

fun apply_loop :: "jstr list \<Rightarrow> (hunk \<Rightarrow> jstr list) \<Rightarrow> nat \<Rightarrow> hunk list \<Rightarrow> jstr list" where
  "apply_loop base pick cursor [] = drop cursor base"
| "apply_loop base pick cursor (h # hs) =
     js_slice base cursor (oldStart h) @ pick h @ apply_loop base pick (oldStart h + oldCount h) hs"

definition pick_accepted :: "jstr list \<Rightarrow> hunk \<Rightarrow> jstr list" where
  "pick_accepted accepted h = (if hid h \<in> set accepted then newLines h else oldLines h)"

definition apply_hunks :: "jstr \<Rightarrow> hunk list \<Rightarrow> jstr list \<Rightarrow> jstr" where
  "apply_hunks baseText hunks accepted =
     join [LF] (apply_loop (split_lines baseText) (pick_accepted accepted) 0
                  (js_sort (by_key (\<lambda>h. int (oldStart h))) hunks))"

type_synonym decisions = "(jstr \<times> jstr) list"

text \<open>\<open>decisions[id]\<close> is truthy: present and not the empty string.\<close>

definition decided :: "decisions \<Rightarrow> jstr \<Rightarrow> bool" where
  "decided ds i = (case map_of ds i of None \<Rightarrow> False | Some v \<Rightarrow> v \<noteq> [])"

definition count_pending :: "hunk list \<Rightarrow> decisions option \<Rightarrow> nat" where
  "count_pending hunks ds =
     length (filter (\<lambda>h. case ds of None \<Rightarrow> True | Some d \<Rightarrow> \<not> decided d (hid h)) hunks)"

section \<open>Hunks that fit a document\<close>

text \<open>Regions in order, disjoint, inside the document, holding what the document holds there.\<close>

fun fits :: "'l list \<Rightarrow> nat \<Rightarrow> (nat \<times> 'l list) list \<Rightarrow> bool" where
  "fits doc c [] = (c \<le> length doc)"
| "fits doc c ((s, ls) # rs) =
     (c \<le> s \<and> s + length ls \<le> length doc \<and> js_slice doc s (s + length ls) = ls \<and>
      fits doc (s + length ls) rs)"

definition old_regions :: "hunk list \<Rightarrow> (nat \<times> jstr list) list" where
  "old_regions hs = map (\<lambda>h. (oldStart h, oldLines h)) hs"

definition new_regions :: "hunk list \<Rightarrow> (nat \<times> jstr list) list" where
  "new_regions hs = map (\<lambda>h. (newStart h, newLines h)) hs"

text \<open>A hunk changes something, and its count and kind agree with its lines.\<close>

definition hunk_ok :: "hunk \<Rightarrow> bool" where
  "hunk_ok h =
     (oldCount h = length (oldLines h) \<and> (oldLines h \<noteq> [] \<or> newLines h \<noteq> []) \<and>
      (hkind h = HInsert \<longleftrightarrow> oldLines h = []) \<and>
      (hkind h = HDelete \<longleftrightarrow> oldLines h \<noteq> [] \<and> newLines h = []))"

text \<open>Consecutive hunks are separated by at least one unchanged line.\<close>

definition gapped :: "hunk list \<Rightarrow> bool" where
  "gapped hs = sorted_wrt (\<lambda>h k. oldStart h + oldCount h < oldStart k) hs"

lemma regions_simps [simp]:
  "old_regions [] = []" "new_regions [] = []"
  "old_regions (h # hs) = (oldStart h, oldLines h) # old_regions hs"
  "new_regions (h # hs) = (newStart h, newLines h) # new_regions hs"
  "old_regions (hs @ ks) = old_regions hs @ old_regions ks"
  "new_regions (hs @ ks) = new_regions hs @ new_regions ks"
  by (simp_all add: old_regions_def new_regions_def)

lemma fits_le: "fits doc c rs \<Longrightarrow> c \<le> length doc"
  by (induction doc c rs rule: fits.induct) auto

lemma fits_weaken: "fits doc e rs \<Longrightarrow> c \<le> e \<Longrightarrow> fits doc c rs"
  by (cases rs) auto

lemma fits_take: "fits (take m doc) c rs \<Longrightarrow> m \<le> n \<Longrightarrow> fits (take n doc) c rs"
  by (induction "take m doc" c rs rule: fits.induct) (auto simp: js_slice_take)

lemma fits_snoc:
  "fits (take s doc) c rs \<Longrightarrow> s + length ls \<le> length doc \<Longrightarrow> js_slice doc s (s + length ls) = ls \<Longrightarrow>
   fits (take (s + length ls) doc) c (rs @ [(s, ls)])"
  by (induction "take s doc" c rs rule: fits.induct) (auto simp: js_slice_take)

lemma fits_drop_start: "fits doc c rs \<Longrightarrow> (s, ls) \<in> set rs \<Longrightarrow>
  c \<le> s \<and> s + length ls \<le> length doc \<and> js_slice doc s (s + length ls) = ls"
  by (induction doc c rs rule: fits.induct) force+

section \<open>Applying\<close>

lemma apply_loop_old:
  "fits base c (old_regions hs) \<Longrightarrow> \<forall>h \<in> set hs. oldCount h = length (oldLines h) \<Longrightarrow>
   apply_loop base oldLines c hs = drop c base"
proof (induction hs arbitrary: c)
  case (Cons h hs)
  let ?e = "oldStart h + oldCount h"
  have "apply_loop base oldLines c (h # hs) =
      js_slice base c (oldStart h) @ js_slice base (oldStart h) ?e @ drop ?e base"
    using Cons by simp
  also have "\<dots> = js_slice base c (length base)"
    unfolding js_slice_full [symmetric]
    using Cons.prems js_slice_append [of "oldStart h" ?e "length base" base]
      js_slice_append [of c "oldStart h" "length base" base]
    by simp
  finally show ?case by simp
qed simp

lemma apply_loop_extend:
  "fits (take o' base) c (old_regions hs) \<Longrightarrow> o' \<le> n \<Longrightarrow> n \<le> length base \<Longrightarrow>
   \<forall>h \<in> set hs. oldCount h = length (oldLines h) \<Longrightarrow>
   apply_loop (take n base) pick c hs = apply_loop (take o' base) pick c hs @ js_slice base o' n"
proof (induction hs arbitrary: c)
  case Nil
  then have "js_slice base c o' @ js_slice base o' n = js_slice base c n"
    by (intro js_slice_append) auto
  then show ?case by (simp add: js_slice_def drop_take)
next
  case (Cons h hs)
  then show ?case by (simp add: js_slice_take)
qed

lemma apply_loop_snoc:
  "fits (take (oldStart k) base) c (old_regions hs) \<Longrightarrow> oldStart k + oldCount k \<le> length base \<Longrightarrow>
   \<forall>h \<in> set hs. oldCount h = length (oldLines h) \<Longrightarrow>
   apply_loop (take (oldStart k + oldCount k) base) pick c (hs @ [k]) =
   apply_loop (take (oldStart k) base) pick c hs @ pick k"
proof (induction hs arbitrary: c)
  case Nil
  then show ?case by (simp add: js_slice_def drop_take)
next
  case (Cons h hs)
  then show ?case by (simp add: js_slice_take)
qed

lemma apply_loop_cong:
  "(\<And>h. h \<in> set hs \<Longrightarrow> pick h = pick' h) \<Longrightarrow> apply_loop base pick c hs = apply_loop base pick' c hs"
  by (induction hs arbitrary: c) auto

section \<open>The fold over the ops\<close>

text \<open>What the state of diffHunks says after the ops \<open>done\<close>, of a diff of \<open>base\<close> and \<open>pr\<close>.\<close>

definition diff_inv :: "jstr list \<Rightarrow> jstr list \<Rightarrow> jstr edit list \<Rightarrow> diff_state \<Rightarrow> bool" where
  "diff_inv base pr dn s =
     (dOldLine s = length (olds dn) \<and> dNewLine s = length (news dn) \<and>
      list_all hunk_ok (dHunks s) \<and> gapped (dHunks s) \<and>
      (case dPending s of
         None \<Rightarrow>
           fits (take (dOldLine s) base) 0 (old_regions (dHunks s)) \<and>
           fits (take (dNewLine s) pr) 0 (new_regions (dHunks s)) \<and>
           apply_loop (take (dOldLine s) base) newLines 0 (dHunks s) = news dn \<and>
           (dn = [] \<and> dHunks s = [] \<or> dn \<noteq> [] \<and> is_same (last dn) \<and>
             (\<forall>h \<in> set (dHunks s). oldStart h + oldCount h < dOldLine s))
       | Some p \<Rightarrow>
           pOldStart p + length (pOldLines p) = dOldLine s \<and>
           pNewStart p + length (pNewLines p) = dNewLine s \<and>
           (pOldLines p \<noteq> [] \<or> pNewLines p \<noteq> []) \<and>
           js_slice base (pOldStart p) (dOldLine s) = pOldLines p \<and>
           js_slice pr (pNewStart p) (dNewLine s) = pNewLines p \<and>
           fits (take (pOldStart p) base) 0 (old_regions (dHunks s)) \<and>
           fits (take (pNewStart p) pr) 0 (new_regions (dHunks s)) \<and>
           apply_loop (take (pOldStart p) base) newLines 0 (dHunks s) @ pNewLines p = news dn \<and>
           dn \<noteq> [] \<and> \<not> is_same (last dn) \<and>
           (\<forall>h \<in> set (dHunks s). oldStart h + oldCount h < pOldStart p)))"

lemma hunk_ok_hunk_of: "pOldLines p \<noteq> [] \<or> pNewLines p \<noteq> [] \<Longrightarrow> hunk_ok (hunk_of p)"
  by (auto simp: hunk_ok_def hunk_of_def)

lemma hunk_of_simps [simp]:
  "oldStart (hunk_of p) = pOldStart p" "newStart (hunk_of p) = pNewStart p"
  "oldLines (hunk_of p) = pOldLines p" "newLines (hunk_of p) = pNewLines p"
  "oldCount (hunk_of p) = length (pOldLines p)"
  by (simp_all add: hunk_of_def)

lemma ok_counts: "list_all hunk_ok hs \<Longrightarrow> \<forall>h \<in> set hs. oldCount h = length (oldLines h)"
  by (auto simp: list_all_iff hunk_ok_def)

text \<open>What flushing leaves: hunks that fit up to the two cursors and rebuild the new side.\<close>

lemma flush_fits:
  assumes "diff_inv base pr dn s" and "dOldLine s \<le> length base" and "dNewLine s \<le> length pr"
  shows "fits (take (dOldLine s) base) 0 (old_regions (dHunks (flush_hunk s))) \<and>
    fits (take (dNewLine s) pr) 0 (new_regions (dHunks (flush_hunk s))) \<and>
    apply_loop (take (dOldLine s) base) newLines 0 (dHunks (flush_hunk s)) = news dn \<and>
    list_all hunk_ok (dHunks (flush_hunk s)) \<and> gapped (dHunks (flush_hunk s)) \<and>
    (\<forall>h \<in> set (dHunks (flush_hunk s)). oldStart h + oldCount h \<le> dOldLine s) \<and>
    dOldLine (flush_hunk s) = dOldLine s \<and> dNewLine (flush_hunk s) = dNewLine s \<and>
    dPending (flush_hunk s) = None"
proof (cases "dPending s")
  case None
  with assms show ?thesis
    by (auto simp: diff_inv_def flush_hunk_def)
next
  case (Some p)
  let ?h = "hunk_of p"
  have ok: "\<forall>h \<in> set (dHunks s). oldCount h = length (oldLines h)"
    using assms(1) by (intro ok_counts) (simp add: diff_inv_def)
  have o: "dOldLine s = oldStart ?h + length (oldLines ?h)" "dNewLine s = newStart ?h + length (newLines ?h)"
    using assms(1) Some by (simp_all add: diff_inv_def)
  have "fits (take (dOldLine s) base) 0 (old_regions (dHunks s @ [?h]))"
    unfolding o(1) regions_simps
    by (rule fits_snoc) (use assms Some o in \<open>auto simp: diff_inv_def\<close>)
  moreover have "fits (take (dNewLine s) pr) 0 (new_regions (dHunks s @ [?h]))"
    unfolding o(2) regions_simps
    by (rule fits_snoc) (use assms Some o in \<open>auto simp: diff_inv_def\<close>)
  moreover have "apply_loop (take (dOldLine s) base) newLines 0 (dHunks s @ [?h]) = news dn"
    using apply_loop_snoc [of ?h base 0 "dHunks s" newLines] assms Some o ok
    by (auto simp: diff_inv_def)
  ultimately show ?thesis
    using assms Some hunk_ok_hunk_of [of p]
    by (auto simp: flush_hunk_def diff_inv_def gapped_def sorted_wrt_append)
qed

fun same_nonempty :: "'a edit \<Rightarrow> bool" where
  "same_nonempty (Same a b) = (a \<noteq> [])"
| "same_nonempty (Del a) = (a \<noteq> [])"
| "same_nonempty (Ins b) = (b \<noteq> [])"

lemma slice_at [simp]: "js_slice (xs @ ys @ zs) (length xs) (length xs + length ys) = ys"
  by (simp add: js_slice_def)

lemma diff_step_inv:
  assumes inv: "diff_inv base pr dn s" and ok: "honest e" "same_nonempty e"
    and base: "base = olds dn @ old_side e @ brest" and prd: "pr = news dn @ new_side e @ prest"
  shows "diff_inv base pr (dn @ [e]) (hunk_step s e)"
proof (cases e)
  case (Same a b)
  then have ab: "b = a" "a \<noteq> []" using ok by auto
  have o: "dOldLine s = length (olds dn)" "dNewLine s = length (news dn)"
    using inv by (simp_all add: diff_inv_def)
  note f = flush_fits [OF inv]
  let ?hs = "dHunks (flush_hunk s)"
  have sl: "js_slice base (dOldLine s) (dOldLine s + length a) = a"
    using base Same o by simp
  have "apply_loop (take (dOldLine s + length a) base) newLines 0 ?hs = news dn @ a"
    using apply_loop_extend [of "dOldLine s" base 0 ?hs "dOldLine s + length a" newLines]
      f base prd Same o sl ok_counts [of ?hs] by simp
  moreover have "fits (take (dOldLine s + length a) base) 0 (old_regions ?hs)"
    by (rule fits_take [of "dOldLine s"]) (use f base prd o in auto)
  moreover have "fits (take (dNewLine s + length a) pr) 0 (new_regions ?hs)"
    by (rule fits_take [of "dNewLine s"]) (use f base prd o in auto)
  moreover have "\<forall>h \<in> set ?hs. oldStart h + oldCount h < dOldLine s + length a"
    using f base prd o ab(2) by (auto intro: le_less_trans)
  ultimately show ?thesis
    using f base prd o Same ab by (simp add: diff_inv_def Let_def)
next
  case (Del a)
  have o: "dOldLine s = length (olds dn)" "dNewLine s = length (news dn)"
    using inv by (simp_all add: diff_inv_def)
  have sl: "js_slice base (dOldLine s) (dOldLine s + length a) = a"
    using base Del o by simp
  have "js_slice base i (dOldLine s + length a) = js_slice base i (dOldLine s) @ a" if "i \<le> dOldLine s" for i
    using js_slice_append [OF that, of "dOldLine s + length a" base] sl by simp
  then show ?thesis
    using inv ok Del o sl by (auto simp: diff_inv_def open_pending_def Let_def js_slice_def split: option.splits)
next
  case (Ins b)
  have o: "dOldLine s = length (olds dn)" "dNewLine s = length (news dn)"
    using inv by (simp_all add: diff_inv_def)
  have sl: "js_slice pr (dNewLine s) (dNewLine s + length b) = b"
    using prd Ins o by simp
  have "js_slice pr i (dNewLine s + length b) = js_slice pr i (dNewLine s) @ b" if "i \<le> dNewLine s" for i
    using js_slice_append [OF that, of "dNewLine s + length b" pr] sl by simp
  then show ?thesis
    using inv ok Ins o sl by (auto simp: diff_inv_def open_pending_def Let_def js_slice_def split: option.splits)
qed

lemma diff_fold_inv:
  "diff_inv base pr dn s \<Longrightarrow> list_all honest ops \<Longrightarrow> list_all same_nonempty ops \<Longrightarrow>
   base = olds (dn @ ops) \<Longrightarrow> pr = news (dn @ ops) \<Longrightarrow>
   diff_inv base pr (dn @ ops) (foldl hunk_step s ops)"
proof (induction ops arbitrary: dn s)
  case (Cons e ops)
  have "diff_inv base pr (dn @ [e]) (hunk_step s e)"
    by (rule diff_step_inv [where brest = "olds ops" and prest = "news ops"]) (use Cons.prems in simp_all)
  then show ?case
    using Cons.IH [of "dn @ [e]" "hunk_step s e"] Cons.prems by simp
qed simp

lemma same_nonempty_glue:
  "same_kind e f \<Longrightarrow> same_nonempty e \<Longrightarrow> same_nonempty f \<Longrightarrow> same_nonempty (glue e f)"
  by (cases e; cases f) auto

lemma lcs_walk_nonempty: "list_all same_nonempty (lcs_walk a b t i j)"
proof (induction a b t i j rule: lcs_walk.induct)
  case (1 a b t i j)
  have "list_all same_nonempty (map (\<lambda>x. Del [x]) xs)" "list_all same_nonempty (map (\<lambda>x. Ins [x]) xs)"
    for xs :: "'a list"
    by (induction xs) auto
  with 1 show ?case by (auto simp: lcs_walk.simps [of a b t i j])
qed

lemma diff_sequences_nonempty: "list_all same_nonempty (diff_sequences a b)"
  unfolding diff_sequences_def Let_def
  by (rule merge_runs_pred [where P = same_nonempty])
    (use common_prefix_le [of a b] in
      \<open>auto simp: same_nonempty_glue middle_ops_def lcs_ops_def lcs_walk_nonempty\<close>)

section \<open>The hunks of a diff\<close>

lemma raw_hunks_spec:
  fixes a b :: "jstr list"
  defines "hs \<equiv> raw_hunks (diff_sequences a b)"
  shows "fits a 0 (old_regions hs)" and "fits b 0 (new_regions hs)"
    and "list_all hunk_ok hs" and "gapped hs" and "apply_loop a newLines 0 hs = b"
proof -
  let ?s = "foldl hunk_step start_state (diff_sequences a b)"
  have "diff_inv a b ([] @ diff_sequences a b) ?s"
    by (rule diff_fold_inv)
      (simp_all add: diff_sequences_honest diff_sequences_nonempty,
       simp add: diff_inv_def start_state_def gapped_def)
  then have inv: "diff_inv a b (diff_sequences a b) ?s"
    by simp
  moreover have "dOldLine ?s = length a" "dNewLine ?s = length b"
    using inv by (simp_all add: diff_inv_def)
  ultimately show "fits a 0 (old_regions hs)" "fits b 0 (new_regions hs)"
    "list_all hunk_ok hs" "gapped hs" "apply_loop a newLines 0 hs = b"
    using flush_fits [OF inv] by (simp_all add: hs_def raw_hunks_def)
qed

lemma dress_simps [simp]:
  "oldStart (dress_hunk m c b h) = oldStart h" "newStart (dress_hunk m c b h) = newStart h"
  "oldLines (dress_hunk m c b h) = oldLines h" "newLines (dress_hunk m c b h) = newLines h"
  "hid (dress_hunk m c b h) = hid h" "oldCount (dress_hunk m c b h) = oldCount h"
  "hkind (dress_hunk m c b h) = hkind h"
  by (simp_all add: dress_hunk_def)

lemma dress_map:
  "old_regions (map (dress_hunk m c b) hs) = old_regions hs"
  "new_regions (map (dress_hunk m c b) hs) = new_regions hs"
  "list_all hunk_ok (map (dress_hunk m c b) hs) = list_all hunk_ok hs"
  "gapped (map (dress_hunk m c b) hs) = gapped hs"
  "apply_loop base newLines k (map (dress_hunk m c b) hs) = apply_loop base newLines k hs"
  by (induction hs arbitrary: k) (simp_all add: hunk_ok_def gapped_def)

lemma diff_hunks_spec:
  "fits (split_lines b) 0 (old_regions (diff_hunks_with mark context b p))"
  "fits (split_lines p) 0 (new_regions (diff_hunks_with mark context b p))"
  "list_all hunk_ok (diff_hunks_with mark context b p)"
  "gapped (diff_hunks_with mark context b p)"
  "apply_loop (split_lines b) newLines 0 (diff_hunks_with mark context b p) = split_lines p"
  unfolding diff_hunks_with_def Let_def dress_map by (rule raw_hunks_spec)+

lemma gapped_sorted: "gapped hs \<Longrightarrow> sorted (map (\<lambda>h. int (oldStart h)) hs)"
  unfolding gapped_def sorted_map by (erule sorted_wrt_mono_rel [rotated]) simp

lemma sort_gapped [simp]: "gapped hs \<Longrightarrow> js_sort (by_key (\<lambda>h. int (oldStart h))) hs = hs"
  by (rule sort_by_key_id) (rule gapped_sorted)

lemma gapped_start_inj:
  "gapped hs \<Longrightarrow> h \<in> set hs \<Longrightarrow> k \<in> set hs \<Longrightarrow> oldStart h = oldStart k \<Longrightarrow> h = k"
  unfolding gapped_def by (induction hs) auto

lemma gapped_filter: "gapped hs \<Longrightarrow> gapped (filter P hs)"
  unfolding gapped_def by (rule sorted_wrt_filter)

lemma apply_loop_from:
  "fits base e (old_regions hs) \<Longrightarrow> c \<le> e \<Longrightarrow>
   apply_loop base pick c hs = js_slice base c e @ apply_loop base pick e hs"
proof (cases hs)
  case Nil
  assume "fits base e (old_regions hs)" "c \<le> e"
  with Nil show ?thesis
    using js_slice_append [of c e "length base" base] by simp
next
  case (Cons h hs')
  assume "fits base e (old_regions hs)" "c \<le> e"
  with Cons show ?thesis
    using js_slice_append [of c e "oldStart h" base] by simp
qed

lemma apply_loop_filter:
  "fits base c (old_regions hs) \<Longrightarrow> \<forall>h \<in> set hs. oldCount h = length (oldLines h) \<Longrightarrow>
   (\<And>h. h \<in> set hs \<Longrightarrow> \<not> P h \<Longrightarrow> pick h = oldLines h) \<Longrightarrow>
   apply_loop base pick c (filter P hs) = apply_loop base pick c hs"
proof (induction hs arbitrary: c)
  case (Cons h hs)
  let ?e = "oldStart h + oldCount h"
  have IH: "apply_loop base pick ?e (filter P hs) = apply_loop base pick ?e hs"
    by (rule Cons.IH) (use Cons.prems in auto)
  have f: "fits base ?e (old_regions hs)" "c \<le> ?e"
    using Cons.prems by auto
  show ?case
  proof (cases "P h")
    case False
    have "js_slice base c (oldStart h) @ oldLines h = js_slice base c ?e"
      using Cons.prems js_slice_append [of c "oldStart h" ?e base] by simp
    moreover have "apply_loop base pick c hs = js_slice base c ?e @ apply_loop base pick ?e hs"
      by (rule apply_loop_from [OF f])
    moreover have "apply_loop base pick c (filter P hs) = apply_loop base pick c hs"
      by (rule Cons.IH) (use Cons.prems f fits.simps in \<open>auto intro: fits_weaken\<close>)
    ultimately show ?thesis using False Cons.prems(3) [of h] by simp
  qed (use IH in simp)
qed simp

lemma common_prefix_self [simp]: "common_prefix a a = length a"
  by (induction a) auto

lemma diff_sequences_self: "diff_sequences a a = (if a = [] then [] else [Same a a])"
  by (auto simp: diff_sequences_def middle_ops_def merge_runs_def push_run_def js_slice_def)

lemma diff_hunks_with_Nil_iff:
  "diff_hunks_with mark context b p = [] \<longleftrightarrow> split_lines b = split_lines p"
proof
  assume "diff_hunks_with mark context b p = []"
  then show "split_lines b = split_lines p"
    using diff_hunks_spec(5) [of b mark "context" p] by simp
next
  assume "split_lines b = split_lines p"
  then show "diff_hunks_with mark context b p = []"
    by (simp add: diff_hunks_with_def diff_sequences_self raw_hunks_def flush_hunk_def start_state_def)
qed

lemma diff_hunks_Nil_iff: "diff_hunks b p = [] \<longleftrightarrow> split_lines b = split_lines p"
  by (simp add: diff_hunks_def diff_hunks_with_Nil_iff)

section \<open>Deciding hunks\<close>

lemma ok_pick: "list_all hunk_ok hs \<Longrightarrow> h \<in> set hs \<Longrightarrow> oldCount h = length (oldLines h)"
  by (auto simp: list_all_iff hunk_ok_def)

lemma apply_all_accepted:
  "set (map hid (diff_hunks b p)) \<subseteq> set acc \<Longrightarrow> apply_hunks b (diff_hunks b p) acc = unify_crlf p"
proof -
  assume all: "set (map hid (diff_hunks b p)) \<subseteq> set acc"
  have "apply_loop (split_lines b) (pick_accepted acc) 0 (diff_hunks b p) =
      apply_loop (split_lines b) newLines 0 (diff_hunks b p)"
    by (rule apply_loop_cong) (use all in \<open>auto simp: pick_accepted_def\<close>)
  then show ?thesis
    by (simp add: apply_hunks_def diff_hunks_def diff_hunks_spec)
qed

lemma apply_none_accepted:
  "set (map hid (diff_hunks b p)) \<inter> set acc = {} \<Longrightarrow> apply_hunks b (diff_hunks b p) acc = unify_crlf b"
proof -
  assume none: "set (map hid (diff_hunks b p)) \<inter> set acc = {}"
  have "apply_loop (split_lines b) (pick_accepted acc) 0 (diff_hunks b p) =
      apply_loop (split_lines b) oldLines 0 (diff_hunks b p)"
    by (rule apply_loop_cong) (use none in \<open>auto simp: pick_accepted_def\<close>)
  also have "\<dots> = split_lines b"
    using apply_loop_old [OF diff_hunks_spec(1) ok_counts [OF diff_hunks_spec(3)]]
    by (simp add: diff_hunks_def)
  finally show ?thesis
    by (simp add: apply_hunks_def diff_hunks_def diff_hunks_spec)
qed

text \<open>
  C3: the hunks of diffHunks fit both documents: each one holds exactly the lines the
  base has at oldStart and the proposed body has at newStart, they are in order and
  disjoint on both sides, separated by at least one unchanged line, each changes
  something, and its count and kind agree with its lines.
\<close>

theorem diff_hunks_fit:
  "fits (split_lines b) 0 (old_regions (diff_hunks_with mark context b p)) \<and>
   fits (split_lines p) 0 (new_regions (diff_hunks_with mark context b p)) \<and>
   list_all hunk_ok (diff_hunks_with mark context b p) \<and>
   gapped (diff_hunks_with mark context b p) \<and>
   (diff_hunks_with mark context b p = [] \<longleftrightarrow> split_lines b = split_lines p)"
  by (simp add: diff_hunks_spec diff_hunks_with_Nil_iff)

text \<open>
  C2: accepting every hunk of a proposal gives the proposed body, and accepting none
  gives the base, both with CRLF line ends read as LF: per-hunk accept-all and
  accepting the whole proposal cannot drift apart.
\<close>

theorem apply_hunks_all_or_none:
  "apply_hunks b (diff_hunks b p) (map hid (diff_hunks b p)) = unify_crlf p \<and>
   apply_hunks b (diff_hunks b p) [] = unify_crlf b"
  by (simp add: apply_all_accepted apply_none_accepted)

text \<open>
  C4: decisions do not interfere: in whatever order the hunks are handed over, the
  result is the one of the accepted hunks alone, so a rejected hunk may as well not
  have been proposed.
\<close>

theorem apply_hunks_decisions_independent:
  assumes "mset hs = mset (diff_hunks b p)"
  shows "apply_hunks b hs acc =
    apply_hunks b (filter (\<lambda>h. hid h \<in> set acc) (diff_hunks b p)) acc"
proof -
  let ?d = "diff_hunks b p"
  have g: "gapped ?d" and f: "fits (split_lines b) 0 (old_regions ?d)" and ok: "list_all hunk_ok ?d"
    by (simp_all add: diff_hunks_def diff_hunks_spec)
  have "set hs = set ?d" using assms by (metis set_mset_mset)
  then have "js_sort (by_key (\<lambda>h. int (oldStart h))) hs = js_sort (by_key (\<lambda>h. int (oldStart h))) ?d"
    by (intro key_cmp.sort_perm assms) (auto simp: by_key_def intro: gapped_start_inj [OF g])
  moreover have "apply_loop (split_lines b) (pick_accepted acc) 0 (filter (\<lambda>h. hid h \<in> set acc) ?d) =
      apply_loop (split_lines b) (pick_accepted acc) 0 ?d"
    by (rule apply_loop_filter [OF f ok_counts [OF ok]]) (simp add: pick_accepted_def)
  ultimately show ?thesis
    by (simp add: apply_hunks_def g gapped_filter)
qed

lemmas diff_eval = diff_hunks_def diff_hunks_with_def raw_hunks_def diff_sequences_def middle_ops_def
  lcs_ops_def lcs_walk.simps js_slice_def LCS_CELL_BUDGET_def merge_runs_def push_run_def
  split_lines_def start_state_def flush_hunk_def open_pending_def Let_def

theorem apply_hunks_decisions_independent_witness:
  "length (diff_hunks ''a'' [CHR ''b'', LF, CHR ''a'', LF, CHR ''c'']) = 2 \<and>
   apply_hunks ''a'' (rev (diff_hunks ''a'' [CHR ''b'', LF, CHR ''a'', LF, CHR ''c'']))
       [hid (hd (diff_hunks ''a'' [CHR ''b'', LF, CHR ''a'', LF, CHR ''c'']))] =
     apply_hunks ''a'' (filter
         (\<lambda>h. hid h \<in> set [hid (hd (diff_hunks ''a'' [CHR ''b'', LF, CHR ''a'', LF, CHR ''c'']))])
         (diff_hunks ''a'' [CHR ''b'', LF, CHR ''a'', LF, CHR ''c'']))
       [hid (hd (diff_hunks ''a'' [CHR ''b'', LF, CHR ''a'', LF, CHR ''c'']))]"
proof -
  let ?p = "[CHR ''b'', LF, CHR ''a'', LF, CHR ''c'']"
  have "length (diff_hunks ''a'' ?p) = 2"
    by (simp add: diff_eval)
  moreover have m: "mset (rev (diff_hunks ''a'' ?p)) = mset (diff_hunks ''a'' ?p)"
    by simp
  ultimately show ?thesis
    using apply_hunks_decisions_independent [OF m, of "[hid (hd (diff_hunks ''a'' ?p))]"] by blast
qed

end
