(* ===== verification/Table_Data.thy ===== *)
theory Table_Data
  imports Studio_Prelude
begin

text \<open>
  The delimited-text codec of theia/product-ext/src/browser/table-data.js: dialect
  detection, the tolerant RFC 4180 parser, the serialiser and the grid edits. The
  parser is a loop over the remaining characters with the code's seven variables as
  a record. The lemmas follow one cell, one row and one file through the parser; the
  theorems are the round trip of serialize and parse with its exact exception, the
  recovery of the line end and quote style, and the frame of the grid edits.
\<close>

section \<open>Extensions and delimiters\<close>

definition extension_of :: "jstr \<Rightarrow> jstr" where
  "extension_of name =
     (if CHR ''.'' \<in> set name
      then map js_lower (CHR ''.'' # rev (takeWhile (\<lambda>c. c \<noteq> CHR ''.'') (rev name))) else [])"

definition EXTENSION_DELIMITER :: "(jstr \<times> char) list" where
  "EXTENSION_DELIMITER = [(''.csv'', CHR '',''), (''.tsv'', TAB), (''.tab'', TAB), (''.psv'', CHR ''|'')]"

definition DELIMITERS :: "(char \<times> jstr) list" where
  "DELIMITERS = [(CHR '','', ''Comma''), (CHR '';'', ''Semicolon''), (TAB, ''Tab''), (CHR ''|'', ''Pipe'')]"

definition is_table_file :: "jstr \<Rightarrow> bool" where
  "is_table_file name = (extension_of name \<in> fst ` set EXTENSION_DELIMITER)"

definition label_for :: "char \<Rightarrow> jstr" where
  "label_for d = (case map_of DELIMITERS d of Some l \<Rightarrow> l | None \<Rightarrow> ''Custom'')"

section \<open>Detection\<close>

function detect_eol_loop :: "bool \<Rightarrow> jstr \<Rightarrow> jstr" where
  "detect_eol_loop inQuotes [] = [LF]"
| "detect_eol_loop inQuotes (ch # r) =
     (if inQuotes then
        (if ch \<noteq> DQUOTE then detect_eol_loop True r
         else if r \<noteq> [] \<and> hd r = DQUOTE then detect_eol_loop True (tl r)
         else detect_eol_loop False r)
      else if ch = DQUOTE then detect_eol_loop True r
      else if ch = CR then (if r \<noteq> [] \<and> hd r = LF then [CR, LF] else [CR])
      else if ch = LF then [LF]
      else detect_eol_loop False r)"
  by pat_completeness auto
termination
  by (relation "measure (\<lambda>(q, s). length s)") auto

definition detect_eol :: "jstr \<Rightarrow> jstr" where
  "detect_eol text = detect_eol_loop False text"

definition bump :: "(char \<times> nat) list \<Rightarrow> char \<Rightarrow> (char \<times> nat) list" where
  "bump counts ch = AList.update ch ((case map_of counts ch of Some n \<Rightarrow> n | None \<Rightarrow> 0) + 1) counts"

function count_loop :: "bool \<Rightarrow> (char \<times> nat) list \<Rightarrow> jstr \<Rightarrow> (char \<times> nat) list" where
  "count_loop inQuotes counts [] = counts"
| "count_loop inQuotes counts (ch # r) =
     (if inQuotes then
        (if ch \<noteq> DQUOTE then count_loop True counts r
         else if r \<noteq> [] \<and> hd r = DQUOTE then count_loop True counts (tl r)
         else count_loop False counts r)
      else if ch = DQUOTE then count_loop True counts r
      else if ch = LF \<or> ch = CR then counts
      else count_loop False (bump counts ch) r)"
  by pat_completeness auto
termination
  by (relation "measure (\<lambda>(q, c, s). length s)") auto

definition count_candidates :: "jstr \<Rightarrow> (char \<times> nat) list" where
  "count_candidates text = count_loop False [] text"

datatype quote_style = QAll | QMinimal

record dialect =
  delimiter :: "char option"
  eol :: "jstr option"
  trailingNewline :: "bool option"
  quoteStyle :: "quote_style option"

definition count_of :: "(char \<times> nat) list \<Rightarrow> char \<Rightarrow> nat" where
  "count_of counts c = (case map_of counts c of Some n \<Rightarrow> n | None \<Rightarrow> 0)"

definition sniff :: "(char \<times> nat) list \<Rightarrow> char \<times> nat \<Rightarrow> char \<times> jstr \<Rightarrow> char \<times> nat" where
  "sniff counts acc candidate =
     (if count_of counts (fst candidate) > snd acc
      then (fst candidate, count_of counts (fst candidate)) else acc)"

definition detect_dialect :: "jstr \<Rightarrow> jstr \<Rightarrow> dialect" where
  "detect_dialect name text =
     (let fallback = (case map_of EXTENSION_DELIMITER (extension_of name) of Some d \<Rightarrow> d | None \<Rightarrow> CHR '','');
          counts = count_candidates text;
          best = foldl (sniff counts) (fallback, count_of counts fallback) DELIMITERS
      in \<lparr>delimiter = Some (fst best), eol = Some (detect_eol text),
          trailingNewline = Some (text \<noteq> [] \<and> (last text = LF \<or> last text = CR)),
          quoteStyle = None\<rparr>)"

section \<open>parse\<close>

record pstate =
  pRows :: "jstr list list"
  pRow :: "jstr list"
  pField :: jstr
  pQuotedField :: bool
  pInQuotes :: bool
  pFields :: nat
  pQuotedFields :: nat

definition end_field :: "pstate \<Rightarrow> pstate" where
  "end_field s = s\<lparr>pRow := pRow s @ [pField s], pFields := pFields s + 1,
     pQuotedFields := pQuotedFields s + (if pQuotedField s then 1 else 0),
     pField := [], pQuotedField := False\<rparr>"

definition end_row :: "pstate \<Rightarrow> pstate" where
  "end_row s = (let s' = end_field s in s'\<lparr>pRows := pRows s' @ [pRow s'], pRow := []\<rparr>)"

function parse_loop :: "char \<Rightarrow> pstate \<Rightarrow> jstr \<Rightarrow> pstate" where
  "parse_loop d s [] = s"
| "parse_loop d s (ch # r) =
     (if pInQuotes s then
        (if ch \<noteq> DQUOTE then parse_loop d (s\<lparr>pField := pField s @ [ch]\<rparr>) r
         else if r \<noteq> [] \<and> hd r = DQUOTE then parse_loop d (s\<lparr>pField := pField s @ [DQUOTE]\<rparr>) (tl r)
         else parse_loop d (s\<lparr>pInQuotes := False\<rparr>) r)
      else if ch = DQUOTE \<and> pField s = [] then
        parse_loop d (s\<lparr>pInQuotes := True, pQuotedField := True\<rparr>) r
      else if ch = d then parse_loop d (end_field s) r
      else if ch = CR then parse_loop d (end_row s) (if r \<noteq> [] \<and> hd r = LF then tl r else r)
      else if ch = LF then parse_loop d (end_row s) r
      else parse_loop d (s\<lparr>pField := pField s @ [ch]\<rparr>) r)"
  by pat_completeness auto
termination
  by (relation "measure (\<lambda>(d, s, t). length t)") auto

record parsed =
  rows :: "jstr list list"
  malformed :: jstr
  style :: quote_style

definition parse_start :: pstate where
  "parse_start = \<lparr>pRows = [], pRow = [], pField = [], pQuotedField = False, pInQuotes = False,
     pFields = 0, pQuotedFields = 0\<rparr>"

definition parse_table :: "jstr \<Rightarrow> char \<Rightarrow> parsed" where
  "parse_table text d =
     (let s = parse_loop d parse_start text;
          s' = (if pField s \<noteq> [] \<or> pRow s \<noteq> [] then end_row s else s)
      in \<lparr>rows = pRows s',
          malformed = (if pInQuotes s then ''a quoted field is never closed'' else []),
          style = (if pFields s' > 0 \<and> pQuotedFields s' = pFields s' then QAll else QMinimal)\<rparr>)"

section \<open>serialize\<close>

definition needs_quotes :: "jstr \<Rightarrow> char \<Rightarrow> bool" where
  "needs_quotes v d = (d \<in> set v \<or> DQUOTE \<in> set v \<or> LF \<in> set v \<or> CR \<in> set v)"

definition double_quotes :: "jstr \<Rightarrow> jstr" where
  "double_quotes v = concat (map (\<lambda>c. if c = DQUOTE then [DQUOTE, DQUOTE] else [c]) v)"

definition quoted :: "jstr \<Rightarrow> jstr" where
  "quoted v = [DQUOTE] @ double_quotes v @ [DQUOTE]"

definition write_cell :: "bool \<Rightarrow> char \<Rightarrow> jstr \<Rightarrow> jstr" where
  "write_cell all d v = (if all \<or> needs_quotes v d then quoted v else v)"

definition the_or :: "'a option \<Rightarrow> 'a \<Rightarrow> 'a" where
  "the_or o' x = (case o' of Some y \<Rightarrow> y | None \<Rightarrow> x)"

definition serialize :: "jstr list list \<Rightarrow> dialect option \<Rightarrow> jstr" where
  "serialize rs dl =
     (if rs = [] then []
      else
        let d = the_or (Option.bind dl delimiter) (CHR '','');
            e = the_or (Option.bind dl eol) [LF];
            all = (Option.bind dl quoteStyle = Some QAll);
            text = join e (map (\<lambda>row. join [d] (map (write_cell all d) row)) rs)
        in if Option.bind dl trailingNewline = Some False then text else text @ e)"

section \<open>Grid edits\<close>

definition column_count :: "jstr list list \<Rightarrow> nat" where
  "column_count rs = foldl (\<lambda>widest row. max widest (length row)) 0 rs"

definition pad_to :: "nat \<Rightarrow> 'a \<Rightarrow> 'a list \<Rightarrow> 'a list" where
  "pad_to n x xs = xs @ replicate (n - length xs) x"

definition set_cell :: "jstr list list \<Rightarrow> nat \<Rightarrow> nat \<Rightarrow> jstr \<Rightarrow> jstr list list" where
  "set_cell rs i j v =
     (let grown = pad_to (i + 1) [] rs
      in grown[i := (pad_to (j + 1) [] (grown ! i))[j := v]])"

definition clamp :: "int \<Rightarrow> nat \<Rightarrow> nat" where
  "clamp at n = nat (max 0 (min at (int n)))"

definition insert_at :: "nat \<Rightarrow> 'a \<Rightarrow> 'a list \<Rightarrow> 'a list" where
  "insert_at i x xs = take i xs @ [x] @ drop i xs"

definition remove_at :: "nat \<Rightarrow> 'a list \<Rightarrow> 'a list" where
  "remove_at i xs = take i xs @ drop (i + 1) xs"

definition insert_row :: "jstr list list \<Rightarrow> int \<Rightarrow> jstr list list" where
  "insert_row rs at = insert_at (clamp at (length rs)) (replicate (max 1 (column_count rs)) []) rs"

definition insert_column :: "jstr list list \<Rightarrow> int \<Rightarrow> jstr list list" where
  "insert_column rs at =
     (let width = column_count rs; index = clamp at width
      in map (\<lambda>row. insert_at index [] (pad_to width [] row)) rs)"

definition delete_row :: "jstr list list \<Rightarrow> int \<Rightarrow> jstr list list" where
  "delete_row rs at = (if 0 \<le> at \<and> at < int (length rs) then remove_at (nat at) rs else rs)"

definition delete_column :: "jstr list list \<Rightarrow> int \<Rightarrow> jstr list list" where
  "delete_column rs at =
     map (\<lambda>row. if 0 \<le> at \<and> at < int (length row) then remove_at (nat at) row else row) rs"

fun unify_cr :: "jstr \<Rightarrow> jstr" where
  "unify_cr [] = []"
| "unify_cr [c] = [if c = CR then LF else c]"
| "unify_cr (c # x # r) =
     (if c = CR \<and> x = LF then LF # unify_cr r
      else (if c = CR then LF else c) # unify_cr (x # r))"

definition parse_clipboard_grid :: "jstr \<Rightarrow> jstr list list option" where
  "parse_clipboard_grid text =
     (let normalised = unify_cr text
      in if TAB \<notin> set normalised \<and> LF \<notin> set normalised then None
         else
           let rs = rows (parse_table
                 (if normalised \<noteq> [] \<and> last normalised = LF then butlast normalised else normalised) TAB)
           in if rs = [] then None
              else if length rs = 1 \<and> length (rs ! 0) \<le> 1 then None
              else Some rs)"

section \<open>One cell through the parser\<close>

text \<open>The delimiters under which the text is unambiguous.\<close>

definition good_delimiter :: "char \<Rightarrow> bool" where
  "good_delimiter d = (d \<notin> {DQUOTE, CR, LF})"

text \<open>What may follow a cell: a delimiter, a line end or the end of the text, never a quote.\<close>

definition no_quote_next :: "jstr \<Rightarrow> bool" where
  "no_quote_next r = (r = [] \<or> hd r \<noteq> DQUOTE)"

definition filled :: "pstate \<Rightarrow> jstr \<Rightarrow> bool \<Rightarrow> pstate" where
  "filled s v q = s\<lparr>pField := v, pQuotedField := q\<rparr>"

definition fresh :: "pstate \<Rightarrow> bool" where
  "fresh s = (pField s = [] \<and> \<not> pQuotedField s \<and> \<not> pInQuotes s)"

lemma parse_plain:
  "\<not> needs_quotes v d \<Longrightarrow> \<not> pInQuotes s \<Longrightarrow>
   parse_loop d s (v @ r) = parse_loop d (s\<lparr>pField := pField s @ v\<rparr>) r"
  by (induction v arbitrary: s) (auto simp: needs_quotes_def)

lemma parse_inside_quotes:
  "pInQuotes s \<Longrightarrow> no_quote_next r \<Longrightarrow>
   parse_loop d s (double_quotes v @ DQUOTE # r) =
   parse_loop d (s\<lparr>pField := pField s @ v, pInQuotes := False\<rparr>) r"
  by (induction v arbitrary: s) (auto simp: double_quotes_def no_quote_next_def)

lemma parse_cell:
  assumes "fresh s" and "no_quote_next r"
  shows "parse_loop d s (write_cell all d v @ r) =
    parse_loop d (filled s v (all \<or> needs_quotes v d)) r"
proof (cases "all \<or> needs_quotes v d")
  case True
  have "parse_loop d s (write_cell all d v @ r) =
      parse_loop d (s\<lparr>pInQuotes := True, pQuotedField := True\<rparr>) (double_quotes v @ DQUOTE # r)"
    using True assms(1) by (simp add: write_cell_def quoted_def fresh_def)
  also have "\<dots> = parse_loop d (s\<lparr>pQuotedField := True, pField := v, pInQuotes := False\<rparr>) r"
    using assms by (subst parse_inside_quotes) (simp_all add: fresh_def)
  also have "s\<lparr>pQuotedField := True, pField := v, pInQuotes := False\<rparr> = filled s v True"
    using assms(1) by (cases s) (simp add: filled_def fresh_def)
  finally show ?thesis using True by simp
next
  case False
  then have e: "filled s v False = s\<lparr>pField := pField s @ v\<rparr>"
    using assms(1) by (simp add: filled_def fresh_def)
  show ?thesis
    using False assms(1) parse_plain [of v d s r] by (simp add: write_cell_def e fresh_def)
qed

abbreviation row_text :: "bool \<Rightarrow> char \<Rightarrow> jstr list \<Rightarrow> jstr" where
  "row_text all d row \<equiv> join [d] (map (write_cell all d) row)"

text \<open>One row: every cell but the last is closed by the delimiter.\<close>

fun row_state :: "bool \<Rightarrow> char \<Rightarrow> pstate \<Rightarrow> jstr list \<Rightarrow> pstate" where
  "row_state all d s [] = s"
| "row_state all d s [v] = filled s v (all \<or> needs_quotes v d)"
| "row_state all d s (v # w # vs) =
     row_state all d (end_field (filled s v (all \<or> needs_quotes v d))) (w # vs)"

lemma fresh_end [simp]: "\<not> pInQuotes s \<Longrightarrow> fresh (end_field s)" "\<not> pInQuotes s \<Longrightarrow> fresh (end_row s)"
  by (simp_all add: fresh_def end_field_def end_row_def Let_def)

lemma filled_simps [simp]:
  "pInQuotes (filled s v q) = pInQuotes s" "pRow (filled s v q) = pRow s" "pField (filled s v q) = v"
  "pRows (filled s v q) = pRows s" "pFields (filled s v q) = pFields s"
  "pQuotedFields (filled s v q) = pQuotedFields s" "pQuotedField (filled s v q) = q"
  by (simp_all add: filled_def)

lemma fresh_not_in [simp]: "fresh s \<Longrightarrow> \<not> pInQuotes s"
  by (simp add: fresh_def)

lemma parse_delim:
  "d \<noteq> DQUOTE \<Longrightarrow> \<not> pInQuotes s \<Longrightarrow> parse_loop d s (d # r) = parse_loop d (end_field s) r"
  by simp

lemma parse_row:
  "row \<noteq> [] \<Longrightarrow> fresh s \<Longrightarrow> good_delimiter d \<Longrightarrow> no_quote_next r \<Longrightarrow>
   parse_loop d s (row_text all d row @ r) = parse_loop d (row_state all d s row) r"
proof (induction all d s row rule: row_state.induct)
  case (2 all d s v)
  then show ?case by (simp add: parse_cell del: parse_loop.simps)
next
  case (3 all d s v w vs)
  let ?rest = "row_text all d (w # vs) @ r"
  let ?s = "filled s v (all \<or> needs_quotes v d)"
  have d: "no_quote_next (d # ?rest)" and dq: "d \<noteq> DQUOTE" and i: "\<not> pInQuotes ?s"
    using "3.prems"(2,3) by (simp_all add: no_quote_next_def good_delimiter_def)
  have "row_text all d (v # w # vs) @ r = write_cell all d v @ d # ?rest"
    by simp
  then have "parse_loop d s (row_text all d (v # w # vs) @ r) = parse_loop d ?s (d # ?rest)"
    by (simp only: parse_cell [OF "3.prems"(2) d])
  also have "\<dots> = parse_loop d (end_field ?s) ?rest"
    by (rule parse_delim [OF dq i])
  also have "\<dots> = parse_loop d (row_state all d (end_field ?s) (w # vs)) r"
    by (rule "3.IH") (use "3.prems" i in \<open>simp_all del: parse_loop.simps\<close>)
  finally show ?case by (simp only: row_state.simps)
qed simp

lemma row_state_fields:
  "row \<noteq> [] \<Longrightarrow> fresh s \<Longrightarrow>
   pRows (row_state all d s row) = pRows s \<and> pRow (row_state all d s row) = pRow s @ butlast row \<and>
   pField (row_state all d s row) = last row \<and> \<not> pInQuotes (row_state all d s row) \<and>
   pFields (row_state all d s row) + 1 = pFields s + length row \<and>
   pQuotedFields (row_state all d s row) + (if pQuotedField (row_state all d s row) then 1 else 0) =
     pQuotedFields s + length (filter (\<lambda>v. all \<or> needs_quotes v d) row)"
proof (induction all d s row rule: row_state.induct)
  case (3 all d s v w vs)
  let ?s = "end_field (filled s v (all \<or> needs_quotes v d))"
  have f: "fresh ?s"
    using "3.prems"(2) by simp
  have e: "pRows ?s = pRows s" "pRow ?s = pRow s @ [v]" "pFields ?s = pFields s + 1"
    "pQuotedFields ?s = pQuotedFields s + length (filter (\<lambda>v. all \<or> needs_quotes v d) [v])"
    by (simp_all add: end_field_def)
  have "length (filter P (v # w # vs)) = length (filter P [v]) + length (filter P (w # vs))" for P
    by simp
  then show ?case
    using "3.IH" [OF _ f] unfolding row_state.simps e by simp
qed (simp_all add: fresh_def)

declare parse_loop.simps [simp del]

section \<open>One file through the parser\<close>

definition good_eol :: "jstr \<Rightarrow> bool" where
  "good_eol e = (e \<in> {[LF], [CR, LF], [CR]})"

definition no_lf_next :: "jstr \<Rightarrow> bool" where
  "no_lf_next r = (r = [] \<or> hd r \<noteq> LF)"

lemma parse_eol:
  "good_eol e \<Longrightarrow> good_delimiter d \<Longrightarrow> \<not> pInQuotes s \<Longrightarrow> (e = [CR] \<Longrightarrow> no_lf_next r) \<Longrightarrow>
   parse_loop d s (e @ r) = parse_loop d (end_row s) r"
  by (auto simp: good_eol_def good_delimiter_def no_lf_next_def parse_loop.simps)

lemma no_lf_row_text:
  "row \<noteq> [] \<Longrightarrow> good_delimiter d \<Longrightarrow> no_lf_next r \<Longrightarrow> no_lf_next (row_text all d row @ r)"
proof -
  have w: "no_lf_next (write_cell all d v @ r)" if "no_lf_next r" for v r
    using that by (cases v) (auto simp: write_cell_def quoted_def no_lf_next_def needs_quotes_def)
  assume a: "row \<noteq> []" "good_delimiter d" "no_lf_next r"
  show ?thesis
  proof (cases row)
    case (Cons v vs)
    have "no_lf_next ([d] @ row_text all d vs @ r)"
      using a(2) by (simp add: no_lf_next_def good_delimiter_def)
    then show ?thesis
      using Cons a w by (cases vs) simp_all
  qed (use a in simp)
qed

fun rows_state :: "bool \<Rightarrow> char \<Rightarrow> pstate \<Rightarrow> jstr list list \<Rightarrow> pstate" where
  "rows_state all d s [] = s"
| "rows_state all d s [row] = row_state all d s row"
| "rows_state all d s (row # row' # rs) = rows_state all d (end_row (row_state all d s row)) (row' # rs)"

lemma no_lf_CR [simp]: "no_lf_next (CR # r)"
  by (simp add: no_lf_next_def)

lemma eol_next: "good_eol e \<Longrightarrow> no_quote_next (e @ r)" "e = [CR] \<Longrightarrow> no_lf_next (e @ r)"
  by (auto simp: good_eol_def no_quote_next_def no_lf_next_def)

lemma no_lf_rows_text:
  "rs \<noteq> [] \<Longrightarrow> \<forall>row \<in> set rs. row \<noteq> [] \<Longrightarrow> good_delimiter d \<Longrightarrow> e = [CR] \<Longrightarrow> no_lf_next r \<Longrightarrow>
   no_lf_next (join e (map (row_text all d) rs) @ r)"
  by (cases rs; cases "tl rs") (auto simp: eol_next intro!: no_lf_row_text)

lemma parse_rows:
  "rs \<noteq> [] \<Longrightarrow> \<forall>row \<in> set rs. row \<noteq> [] \<Longrightarrow> fresh s \<Longrightarrow> good_delimiter d \<Longrightarrow> good_eol e \<Longrightarrow>
   no_quote_next r \<Longrightarrow> (e = [CR] \<Longrightarrow> no_lf_next r) \<Longrightarrow>
   parse_loop d s (join e (map (row_text all d) rs) @ r) = parse_loop d (rows_state all d s rs) r"
proof (induction all d s rs rule: rows_state.induct)
  case (2 all d s row)
  then show ?case by (simp add: parse_row)
next
  case (3 all d s row row' rs)
  let ?rest = "join e (map (row_text all d) (row' # rs)) @ r"
  let ?s = "row_state all d s row"
  have q: "\<not> pInQuotes ?s"
    using row_state_fields [of row s all d] 3 by simp
  have "parse_loop d s (row_text all d row @ e @ ?rest) = parse_loop d ?s (e @ ?rest)"
    by (rule parse_row) (use 3 in \<open>simp_all add: eol_next\<close>)
  also have "\<dots> = parse_loop d (end_row ?s) ?rest"
    by (rule parse_eol) (use 3 q no_lf_rows_text [of "row' # rs" d e r all] in simp_all)
  also have "\<dots> = parse_loop d (rows_state all d s (row # row' # rs)) r"
    using 3 q by simp
  finally show ?case by simp
qed simp

abbreviation cells :: "jstr list list \<Rightarrow> nat" where
  "cells rs \<equiv> length (concat rs)"

lemma end_row_row_state:
  "row \<noteq> [] \<Longrightarrow> fresh s \<Longrightarrow> pRow s = [] \<Longrightarrow>
   pRows (end_row (row_state all d s row)) = pRows s @ [row] \<and>
   pRow (end_row (row_state all d s row)) = [] \<and> pField (end_row (row_state all d s row)) = [] \<and>
   fresh (end_row (row_state all d s row)) \<and>
   pFields (end_row (row_state all d s row)) = pFields s + length row \<and>
   pQuotedFields (end_row (row_state all d s row)) =
     pQuotedFields s + length (filter (\<lambda>v. all \<or> needs_quotes v d) row)"
  using row_state_fields [of row s all d] by (simp add: end_row_def end_field_def Let_def fresh_def)

lemma rows_state_fields:
  "rs \<noteq> [] \<Longrightarrow> \<forall>row \<in> set rs. row \<noteq> [] \<Longrightarrow> fresh s \<Longrightarrow> pRow s = [] \<Longrightarrow>
   pRows (rows_state all d s rs) = pRows s @ butlast rs \<and>
   pRow (rows_state all d s rs) = butlast (last rs) \<and> pField (rows_state all d s rs) = last (last rs) \<and>
   \<not> pInQuotes (rows_state all d s rs) \<and>
   pRows (end_row (rows_state all d s rs)) = pRows s @ rs \<and>
   pRow (end_row (rows_state all d s rs)) = [] \<and> pField (end_row (rows_state all d s rs)) = [] \<and>
   pFields (end_row (rows_state all d s rs)) = pFields s + cells rs \<and>
   pQuotedFields (end_row (rows_state all d s rs)) =
     pQuotedFields s + length (filter (\<lambda>v. all \<or> needs_quotes v d) (concat rs))"
proof (induction all d s rs rule: rows_state.induct)
  case (2 all d s row)
  then show ?case
    using end_row_row_state [of row s all d] row_state_fields [of row s all d] by simp
next
  case (3 all d s row row' rs)
  then show ?case
    using end_row_row_state [of row s all d] by simp
qed simp

text \<open>The parser's state after a whole serialised file.\<close>

definition written :: "char \<Rightarrow> jstr \<Rightarrow> bool option \<Rightarrow> quote_style option \<Rightarrow> dialect option" where
  "written d e t q = Some \<lparr>delimiter = Some d, eol = Some e, trailingNewline = t, quoteStyle = q\<rparr>"

lemma fresh_start: "fresh parse_start" "pRow parse_start = []" "pRows parse_start = []"
  "pFields parse_start = 0" "pQuotedFields parse_start = 0"
  by (simp_all add: fresh_def parse_start_def)

lemma serialize_text:
  "rs \<noteq> [] \<Longrightarrow> serialize rs (written d e t q) =
     join e (map (row_text (q = Some QAll) d) rs) @ (if t = Some False then [] else e)"
  by (auto simp: serialize_def written_def the_or_def Let_def)

lemma parse_serialized:
  assumes "rs \<noteq> []" and "\<forall>row \<in> set rs. row \<noteq> []" and "good_delimiter d" and "good_eol e"
  shows "parse_loop d parse_start (serialize rs (written d e t q)) =
    (if t = Some False then rows_state (q = Some QAll) d parse_start rs
     else end_row (rows_state (q = Some QAll) d parse_start rs))"
proof -
  let ?s = "rows_state (q = Some QAll) d parse_start rs"
  have n: "no_quote_next []" "no_lf_next []"
    by (simp_all add: no_quote_next_def no_lf_next_def)
  show ?thesis
    unfolding serialize_text [OF assms(1)]
    using parse_rows [OF assms(1,2) fresh_start(1) assms(3,4) n(1) n(2), of "q = Some QAll"]
      parse_rows [OF assms(1,2) fresh_start(1) assms(3,4), of e "q = Some QAll"]
      parse_eol [OF assms(4,3), of ?s "[]"] rows_state_fields [OF assms(1,2) fresh_start(1,2)] n
      eol_next(1) [OF assms(4), of "[]"]
    by (auto simp: parse_loop.simps)
qed


text \<open>The one file the codec does not read back: a last record of one empty cell, unterminated.\<close>

definition drops_last :: "jstr list list \<Rightarrow> bool option \<Rightarrow> bool" where
  "drops_last rs t = (t = Some False \<and> last rs = [[]])"

lemma filter_full: "length (filter P xs) = length xs \<longleftrightarrow> (\<forall>x \<in> set xs. P x)"
  by (metis filter_True length_filter_less less_irrefl)

lemma cells_pos: "rs \<noteq> [] \<Longrightarrow> \<forall>row \<in> set rs. row \<noteq> [] \<Longrightarrow> 0 < cells rs"
  by (cases rs) auto

lemma parse_written:
  assumes "rs \<noteq> []" and "\<forall>row \<in> set rs. row \<noteq> []" and "good_delimiter d" and "good_eol e"
    and "\<not> drops_last rs t"
  shows "parse_table (serialize rs (written d e t q)) d =
    \<lparr>rows = rs, malformed = [],
     style = (if q = Some QAll \<or> (\<forall>v \<in> set (concat rs). needs_quotes v d) then QAll else QMinimal)\<rparr>"
proof -
  let ?s = "rows_state (q = Some QAll) d parse_start rs"
  let ?p = "parse_loop d parse_start (serialize rs (written d e t q))"
  note f = rows_state_fields [OF assms(1,2) fresh_start(1,2), of "q = Some QAll" d]
  have l: "last rs \<noteq> []"
    using assms(1,2) by simp
  have more: "pField ?s \<noteq> [] \<or> pRow ?s \<noteq> []" if "last rs \<noteq> [[]]"
  proof (cases "last rs")
    case (Cons v vs)
    then show ?thesis using that f by (cases vs) auto
  qed (use l in simp)
  have e: "(if pField ?p \<noteq> [] \<or> pRow ?p \<noteq> [] then end_row ?p else ?p) = end_row ?s"
  proof (cases "t = Some False")
    case True
    then show ?thesis
      using parse_serialized [OF assms(1-4)] more assms(5) by (simp add: drops_last_def)
  qed (use parse_serialized [OF assms(1-4)] f in simp)
  have i: "\<not> pInQuotes ?p"
    using parse_serialized [OF assms(1-4)] f by (simp add: end_row_def end_field_def Let_def)
  have "length (filter (\<lambda>v. q = Some QAll \<or> needs_quotes v d) (concat rs)) = cells rs \<longleftrightarrow>
      (q = Some QAll \<or> (\<forall>v \<in> set (concat rs). needs_quotes v d))"
    unfolding filter_full by auto
  then show ?thesis
    using f i cells_pos [OF assms(1,2)] e by (simp add: parse_table_def Let_def fresh_start)
qed

lemma parse_written_dropped:
  assumes "rs \<noteq> []" and "\<forall>row \<in> set rs. row \<noteq> []" and "good_delimiter d" and "good_eol e"
    and "drops_last rs t"
  shows "rows (parse_table (serialize rs (written d e t q)) d) = butlast rs"
proof -
  note f = rows_state_fields [OF assms(1,2) fresh_start(1,2), of "q = Some QAll" d]
  show ?thesis
    using f parse_serialized [OF assms(1-4), of t q] assms(5)
    by (simp add: parse_table_def Let_def fresh_start drops_last_def)
qed

section \<open>The line end of a written file\<close>

declare detect_eol_loop.simps [simp del]

lemma detect_plain:
  "\<not> needs_quotes v d \<Longrightarrow> detect_eol_loop False (v @ r) = detect_eol_loop False r"
  by (induction v) (auto simp: needs_quotes_def detect_eol_loop.simps)

lemma detect_inside:
  "no_quote_next r \<Longrightarrow>
   detect_eol_loop True (double_quotes v @ DQUOTE # r) = detect_eol_loop False r"
  by (induction v) (auto simp: double_quotes_def no_quote_next_def detect_eol_loop.simps)

lemma detect_cell:
  "no_quote_next r \<Longrightarrow> detect_eol_loop False (write_cell all d v @ r) = detect_eol_loop False r"
  by (auto simp: write_cell_def quoted_def detect_plain detect_inside detect_eol_loop.simps(2))

lemma detect_row:
  "good_delimiter d \<Longrightarrow> no_quote_next r \<Longrightarrow>
   detect_eol_loop False (row_text all d row @ r) = detect_eol_loop False r"
proof (induction row rule: induct_list012)
  case (3 v w row)
  let ?rest = "row_text all d (w # row) @ r"
  have "no_quote_next (d # ?rest)"
    using 3 by (simp add: good_delimiter_def no_quote_next_def)
  then have "detect_eol_loop False (row_text all d (v # w # row) @ r) =
      detect_eol_loop False (d # ?rest)"
    by (simp add: detect_cell)
  also have "\<dots> = detect_eol_loop False ?rest"
    using 3 by (simp add: good_delimiter_def detect_eol_loop.simps(2))
  also have "\<dots> = detect_eol_loop False r"
    by (rule "3.IH"(2)) (use 3 in simp_all)
  finally show ?case .
qed (simp_all add: detect_cell)

lemma detect_end:
  "good_eol e \<Longrightarrow> (e = [CR] \<Longrightarrow> no_lf_next r) \<Longrightarrow> detect_eol_loop False (e @ r) = e"
  by (cases r) (auto simp: good_eol_def no_lf_next_def detect_eol_loop.simps(2))

lemma detect_written:
  assumes "rs \<noteq> []" and "\<forall>row \<in> set rs. row \<noteq> []" and "good_delimiter d" and "good_eol e"
    and "t \<noteq> Some False \<or> 2 \<le> length rs"
  shows "detect_eol (serialize rs (written d e t q)) = e"
proof -
  let ?all = "q = Some QAll"
  let ?last = "if t = Some False then [] else e"
  obtain row rs' where rs: "rs = row # rs'"
    using assms(1) by (cases rs) auto
  obtain r where r: "serialize rs (written d e t q) = row_text ?all d row @ e @ r"
    and n: "e = [CR] \<longrightarrow> no_lf_next r"
  proof (cases rs')
    case Nil
    then show thesis
      using that [of "[]"] assms(5) rs by (simp add: serialize_text no_lf_next_def)
  next
    case (Cons row' rs'')
    have z: "no_lf_next ?last" if "e = [CR]"
      using that by (simp add: no_lf_next_def)
    have "no_lf_next (join e (map (row_text ?all d) (row' # rs'')) @ ?last)" if "e = [CR]"
      by (rule no_lf_rows_text) (use rs Cons assms(2,3) that z in auto)
    then show thesis
      using that [of "join e (map (row_text ?all d) (row' # rs'')) @ ?last"] rs Cons
      by (auto simp: serialize_text)
  qed
  show ?thesis
    unfolding detect_eol_def r
    using detect_row [OF assms(3), of "e @ r"] eol_next(1) [OF assms(4)] detect_end [OF assms(4)] n
    by simp
qed

section \<open>Grid edits\<close>

lemma length_pad_to [simp]: "length (pad_to n x xs) = max n (length xs)"
  by (simp add: pad_to_def max_def)

lemma nth_pad_to [simp]: "k < max n (length xs) \<Longrightarrow> pad_to n x xs ! k = (if k < length xs then xs ! k else x)"
  by (auto simp: pad_to_def nth_append)

lemma remove_insert: "i \<le> length xs \<Longrightarrow> remove_at i (insert_at i x xs) = xs"
  by (simp add: remove_at_def insert_at_def min_def)

lemma insert_remove: "i < length xs \<Longrightarrow> insert_at i (xs ! i) (remove_at i xs) = xs"
  by (simp add: remove_at_def insert_at_def min_def Cons_nth_drop_Suc)

lemma clamp_bound: "clamp at n \<le> n"
  by (simp add: clamp_def)

lemma length_insert_at [simp]: "length (insert_at i x xs) = length xs + 1"
  by (simp add: insert_at_def)

lemma column_count_bound: "row \<in> set rs \<Longrightarrow> length row \<le> column_count rs"
proof -
  have m: "w \<le> foldl (\<lambda>w row. max w (length row)) w rs" for w and rs :: "jstr list list"
    by (induction rs arbitrary: w) (auto intro: le_trans [OF max.cobounded1])
  have "row \<in> set rs \<Longrightarrow> length row \<le> foldl (\<lambda>w row. max w (length row)) w rs" for w
  proof (induction rs arbitrary: w)
    case (Cons r rs)
    then show ?case
      using m [of "max w (length row)" rs] by auto
  qed simp
  then show "row \<in> set rs \<Longrightarrow> length row \<le> column_count rs"
    by (simp add: column_count_def)
qed

section \<open>Properties\<close>



text \<open>
  The exception. A file whose last record is one empty cell and has no final
  line end loses that record when it is read: the closing test of parse sees an
  empty field and an empty row and takes it for the position after a line end.
\<close>

theorem parse_drops_unterminated_empty_row:
  assumes "rs \<noteq> []" and "\<forall>row \<in> set rs. row \<noteq> []" and "good_delimiter d" and "good_eol e"
    and "drops_last rs t"
  shows "rows (parse_table (serialize rs (written d e t q)) d) = butlast rs"
  by (rule parse_written_dropped [OF assms])

text \<open>
  DetectEol finds the line end a file was written with, whatever its quoted
  cells contain, as soon as the file ends one record.
\<close>

theorem detect_eol_of_serialized:
  assumes "rs \<noteq> []" and "\<forall>row \<in> set rs. row \<noteq> []" and "good_delimiter d" and "good_eol e"
    and "t \<noteq> Some False \<or> 2 \<le> length rs"
  shows "detect_eol (serialize rs (written d e t q)) = e"
  by (rule detect_written [OF assms])

text \<open>
  SetCell writes its cell, grows only the row it writes to and only as far as it
  must, and leaves every other row as it was.
\<close>

theorem set_cell_frame:
  "set_cell rs i j v ! i ! j = v \<and> length (set_cell rs i j v) = max (i + 1) (length rs) \<and>
   length (set_cell rs i j v ! i) = max (j + 1) (if i < length rs then length (rs ! i) else 0) \<and>
   (k < length rs \<longrightarrow> k \<noteq> i \<longrightarrow> set_cell rs i j v ! k = rs ! k) \<and>
   (i < length rs \<longrightarrow> l < length (rs ! i) \<longrightarrow> l \<noteq> j \<longrightarrow> set_cell rs i j v ! i ! l = rs ! i ! l)"
  by (simp add: set_cell_def Let_def less_max_iff_disj)

text \<open>
  A deletion undoes an insertion. Deleting the inserted row gives the grid back;
  deleting the inserted column gives the grid padded to its widest row.
\<close>

theorem delete_undoes_insert:
  "delete_row (insert_row rs at) (int (clamp at (length rs))) = rs \<and>
   delete_column (insert_column rs at) (int (clamp at (column_count rs))) =
     map (pad_to (column_count rs) []) rs"
proof
  show "delete_row (insert_row rs at) (int (clamp at (length rs))) = rs"
    using clamp_bound [of at "length rs"] by (simp add: delete_row_def insert_row_def remove_insert)
  have "clamp at (column_count rs) \<le> length (pad_to (column_count rs) [] row)" for row :: "jstr list"
    using clamp_bound [of at "column_count rs"] by (simp add: le_max_iff_disj)
  then show "delete_column (insert_column rs at) (int (clamp at (column_count rs))) =
      map (pad_to (column_count rs) []) rs"
    by (simp add: delete_column_def insert_column_def Let_def remove_insert le_imp_less_Suc)
qed

end
