(* ===== verification/Collab_Registry.thy ===== *)
theory Collab_Registry
  imports Studio_Prelude
begin

text \<open>
  The collaboration registry: node/collab-registry.js with the constants and the
  digest of common/collab-protocol.js. The two Maps of the class are association
  lists in a record; each operation takes the readings of the clock it makes. The
  events a frontend can send form a step relation, whose reachable states keep the
  invariant; the theorems are the roster's contents, the redemption of a write claim
  through any traffic in between, and the digest's arithmetic.
\<close>

definition PARTY_TTL_MS :: int where "PARTY_TTL_MS = 12000"
definition WRITE_CLAIM_TTL_MS :: int where "WRITE_CLAIM_TTL_MS = 20000"

section \<open>Input from a frontend\<close>

text \<open>A field of an untrusted object: a string, or anything else (absent included).\<close>

datatype field = Str jstr | Other

record author_input =
  in_id :: field
  in_name :: field
  in_kind :: field
  in_key :: field

record author =
  aid :: jstr
  aname :: jstr
  akind :: jstr
  akey :: jstr

fun str_upto :: "nat \<Rightarrow> field \<Rightarrow> jstr" where
  "str_upto n (Str s) = take n s"
| "str_upto n Other = []"

definition author_of :: "author_input option \<Rightarrow> author option" where
  "author_of value =
     (case value of None \<Rightarrow> None
      | Some v \<Rightarrow>
          let i = str_upto 200 (in_id v)
          in if i = [] then None
             else Some \<lparr>aid = i, aname = str_upto 120 (in_name v),
               akind = (if in_kind v = Str ''agent'' then ''agent''
                        else if in_kind v = Str ''product'' then ''product'' else ''person''),
               akey = str_upto 200 (in_key v)\<rparr>)"

definition document_key :: "field \<Rightarrow> jstr" where
  "document_key value = str_upto 2000 value"

section \<open>The registry\<close>

record party =
  pAuthor :: "author option"
  pTyping :: bool
  pAt :: int

record claim =
  cAuthor :: author
  cDigest :: jstr
  cAt :: int

record registry =
  parties :: "(jstr \<times> (jstr \<times> party) list) list"
  claims :: "(jstr \<times> claim) list"

definition empty_registry :: registry where
  "empty_registry = \<lparr>parties = [], claims = []\<rparr>"

definition live_party :: "int \<Rightarrow> jstr \<times> party \<Rightarrow> bool" where
  "live_party now e = (\<not> now - pAt (snd e) > PARTY_TTL_MS)"

definition live_claim :: "int \<Rightarrow> jstr \<times> claim \<Rightarrow> bool" where
  "live_claim now e = (\<not> now - cAt (snd e) > WRITE_CLAIM_TTL_MS)"

definition sweep :: "int \<Rightarrow> registry \<Rightarrow> registry" where
  "sweep now g =
     g\<lparr>parties := filter (\<lambda>d. snd d \<noteq> [])
          (map (\<lambda>d. (fst d, filter (live_party now) (snd d))) (parties g)),
       claims := filter (live_claim now) (claims g)\<rparr>"

definition inDoc :: "registry \<Rightarrow> jstr \<Rightarrow> (jstr \<times> party) list" where
  "inDoc g key = (case map_of (parties g) key of Some ps \<Rightarrow> ps | None \<Rightarrow> [])"

definition listed :: "jstr \<Rightarrow> author option \<Rightarrow> jstr \<times> party \<Rightarrow> bool" where
  "listed partyId me e =
     (fst e \<noteq> partyId \<and>
      \<not> (\<exists>m \<in> set_option me. \<exists>a \<in> set_option (pAuthor (snd e)). aid m \<noteq> [] \<and> aid a = aid m))"

definition roster :: "registry \<Rightarrow> field \<Rightarrow> jstr \<Rightarrow> author option \<Rightarrow> party list" where
  "roster g doc partyId me = map snd (filter (listed partyId me) (inDoc g (document_key doc)))"

definition announce ::
  "int \<Rightarrow> int \<Rightarrow> jstr \<Rightarrow> field \<Rightarrow> author_input option \<Rightarrow> bool \<Rightarrow> registry \<Rightarrow> registry \<times> party list" where
  "announce t t' partyId doc author typing g =
     (let key = document_key doc; who = author_of author
      in if key = [] \<or> partyId = [] then (g, [])
         else
           let g1 = sweep t g;
               ps = AList.update partyId \<lparr>pAuthor = who, pTyping = typing, pAt = t'\<rparr> (inDoc g1 key);
               g2 = g1\<lparr>parties := AList.update key ps (parties g1)\<rparr>
           in (g2, roster g2 (Str key) partyId who))"

definition leave :: "jstr \<Rightarrow> jstr \<times> (jstr \<times> party) list \<Rightarrow> jstr \<times> (jstr \<times> party) list" where
  "leave partyId d = (fst d, AList.delete partyId (snd d))"

definition depart :: "jstr \<Rightarrow> field \<Rightarrow> registry \<Rightarrow> registry" where
  "depart partyId doc g =
     (let key = document_key doc
      in if key \<noteq> [] then
           g\<lparr>parties := filter (\<lambda>d. \<not> (fst d = key \<and> snd d = []))
                (map (\<lambda>d. if fst d = key then leave partyId d else d) (parties g))\<rparr>
         else g\<lparr>parties := filter (\<lambda>d. snd d \<noteq> []) (map (leave partyId) (parties g))\<rparr>)"

definition everyone :: "int \<Rightarrow> jstr \<Rightarrow> registry \<Rightarrow> registry \<times> (jstr \<times> party) list" where
  "everyone t root g =
     (let g' = sweep t g
      in (g', concat (map (\<lambda>d. map (\<lambda>e. (fst d, snd e)) (snd d))
                (filter (\<lambda>d. root = [] \<or> starts_with (fst d) root) (parties g')))))"

definition claim_write :: "int \<Rightarrow> int \<Rightarrow> field \<Rightarrow> author_input option \<Rightarrow> jstr \<Rightarrow> registry \<Rightarrow> registry" where
  "claim_write t t' doc author digest g =
     (let key = document_key doc
      in case author_of author of
           None \<Rightarrow> g
         | Some who \<Rightarrow>
             if key = [] \<or> digest = [] then g
             else let g1 = sweep t g
                  in g1\<lparr>claims := AList.update key
                         \<lparr>cAuthor = who, cDigest = take 80 digest, cAt = t'\<rparr> (claims g1)\<rparr>)"

definition last_writer :: "int \<Rightarrow> field \<Rightarrow> jstr \<Rightarrow> registry \<Rightarrow> registry \<times> (author \<times> int) option" where
  "last_writer t doc digest g =
     (let g' = sweep t g
      in (g', case map_of (claims g') (document_key doc) of
                None \<Rightarrow> None
              | Some c \<Rightarrow> if digest = [] \<or> cDigest c \<noteq> digest then None
                         else Some (cAuthor c, cAt c)))"

unbundle bit_operations_syntax

section \<open>The digest of a body\<close>

text \<open>FNV-1a on 32 bits, the multiplication written as shifts, the length in front.\<close>

definition fnv_step :: "32 word \<Rightarrow> char \<Rightarrow> 32 word" where
  "fnv_step h c =
     (let x = h XOR of_char c
      in x + (push_bit 1 x + push_bit 4 x + push_bit 7 x + push_bit 8 x + push_bit 24 x))"

definition fnv :: "jstr \<Rightarrow> 32 word" where
  "fnv text = foldl fnv_step 0x811c9dc5 text"

definition body_digest :: "jstr \<Rightarrow> jstr" where
  "body_digest text = to_radix 36 (length text) @ ''-'' @ to_radix 36 (unat (fnv text))"

section \<open>Traffic\<close>

text \<open>What the frontends and the clock can do to the registry, and the states that can arise.\<close>

datatype event =
    Announce int int jstr field "author_input option" bool
  | Depart jstr field
  | Everyone int jstr
  | Claim int int field "author_input option" jstr
  | Query int field jstr

fun handle :: "event \<Rightarrow> registry \<Rightarrow> registry" where
  "handle (Announce t t' p doc a ty) g = fst (announce t t' p doc a ty g)"
| "handle (Depart p doc) g = depart p doc g"
| "handle (Everyone t root) g = fst (everyone t root g)"
| "handle (Claim t t' doc a digest) g = claim_write t t' doc a digest g"
| "handle (Query t doc digest) g = fst (last_writer t doc digest g)"

inductive reachable :: "registry \<Rightarrow> bool" where
  start: "reachable empty_registry"
| step: "reachable g \<Longrightarrow> reachable (handle ev g)"

section \<open>The invariant\<close>

definition author_ok :: "author \<Rightarrow> bool" where
  "author_ok a = (aid a \<noteq> [] \<and> length (aid a) \<le> 200 \<and> length (aname a) \<le> 120 \<and>
     akind a \<in> {''agent'', ''product'', ''person''} \<and> length (akey a) \<le> 200)"

definition parties_ok :: "(jstr \<times> party) list \<Rightarrow> bool" where
  "parties_ok ps = (distinct (map fst ps) \<and>
     (\<forall>e \<in> set ps. fst e \<noteq> [] \<and> (\<forall>a \<in> set_option (pAuthor (snd e)). author_ok a)))"

definition docs_ok :: "(jstr \<times> (jstr \<times> party) list) list \<Rightarrow> bool" where
  "docs_ok ds = (distinct (map fst ds) \<and> (\<forall>d \<in> set ds. fst d \<noteq> [] \<and> snd d \<noteq> [] \<and> parties_ok (snd d)))"

definition claims_ok :: "(jstr \<times> claim) list \<Rightarrow> bool" where
  "claims_ok cs = (distinct (map fst cs) \<and>
     (\<forall>e \<in> set cs. fst e \<noteq> [] \<and> author_ok (cAuthor (snd e)) \<and> cDigest (snd e) \<noteq> [] \<and>
        length (cDigest (snd e)) \<le> 80))"

definition registry_ok :: "registry \<Rightarrow> bool" where
  "registry_ok g = (docs_ok (parties g) \<and> claims_ok (claims g))"

lemma length_str_upto [simp]: "length (str_upto n f) \<le> n"
  by (cases f) auto

lemma author_of_ok: "author_of v = Some a \<Longrightarrow> author_ok a"
  by (auto simp: author_of_def author_ok_def Let_def split: option.splits if_splits)

lemma distinct_fst_filter: "distinct (map fst xs) \<Longrightarrow> distinct (map fst (filter P xs))"
  by (rule distinct_map_filter)

lemma parties_ok_filter: "parties_ok ps \<Longrightarrow> parties_ok (filter P ps)"
  by (auto simp: parties_ok_def distinct_fst_filter)

lemma delete_filter: "AList.delete k xs = filter (\<lambda>e. fst e \<noteq> k) xs"
  by (induction xs) auto

lemma set_update:
  "e \<in> set (AList.update k v xs) \<Longrightarrow> e = (k, v) \<or> e \<in> set xs"
  by (induction xs) (auto split: if_splits)

lemma update_ne [simp]: "AList.update k v xs \<noteq> []"
  by (cases xs) auto

lemma parties_ok_update:
  "parties_ok ps \<Longrightarrow> i \<noteq> [] \<Longrightarrow> (\<And>a. pAuthor p = Some a \<Longrightarrow> author_ok a) \<Longrightarrow>
   parties_ok (AList.update i p ps)"
  by (auto simp: parties_ok_def distinct_update dest!: set_update)

lemma parties_ok_delete: "parties_ok ps \<Longrightarrow> parties_ok (AList.delete i ps)"
  unfolding delete_filter by (rule parties_ok_filter)

text \<open>Rewriting every document's parties and dropping documents keeps the shape.\<close>

lemma docs_ok_map_filter:
  assumes "docs_ok ds" and "\<And>d. fst (f d) = fst d" and "\<And>d. d \<in> set ds \<Longrightarrow> parties_ok (snd (f d))"
    and "\<And>d. d \<in> set ds \<Longrightarrow> P (f d) \<Longrightarrow> snd (f d) \<noteq> []"
  shows "docs_ok (filter P (map f ds))"
proof -
  have m: "map fst (map f ds) = map fst ds"
    by (rule nth_equalityI) (simp_all add: assms(2))
  have "distinct (map fst (filter P (map f ds)))"
    by (rule distinct_fst_filter, unfold m) (use assms(1) in \<open>simp add: docs_ok_def\<close>)
  moreover have "fst e \<noteq> [] \<and> snd e \<noteq> [] \<and> parties_ok (snd e)" if "e \<in> set (filter P (map f ds))" for e
  proof -
    have "e \<in> f ` set ds" and "P e"
      using that by simp_all
    then obtain d where d: "d \<in> set ds" "e = f d" "P (f d)"
      by blast
    then show ?thesis
      using assms(1) assms(2) [of d] assms(3,4) [OF d(1)] by (simp add: docs_ok_def)
  qed
  ultimately show ?thesis
    by (simp only: docs_ok_def) blast
qed

lemma docs_ok_update:
  "docs_ok ds \<Longrightarrow> k \<noteq> [] \<Longrightarrow> ps \<noteq> [] \<Longrightarrow> parties_ok ps \<Longrightarrow> docs_ok (AList.update k ps ds)"
  by (auto simp: docs_ok_def distinct_update dest!: set_update)

lemma docs_ok_parties: "docs_ok ds \<Longrightarrow> (k, ps) \<in> set ds \<Longrightarrow> parties_ok ps"
  by (auto simp: docs_ok_def)

lemma inDoc_ok: "docs_ok (parties g) \<Longrightarrow> parties_ok (inDoc g k)"
  using docs_ok_parties [of "parties g" k]
  by (auto simp: inDoc_def parties_ok_def [of "[]"] split: option.splits dest: map_of_SomeD)

lemma sweep_ok: "registry_ok g \<Longrightarrow> registry_ok (sweep t g)"
  unfolding registry_ok_def sweep_def
  by (auto intro!: docs_ok_map_filter parties_ok_filter simp: claims_ok_def distinct_fst_filter)
    (auto simp: docs_ok_def)

lemma announce_ok: "registry_ok g \<Longrightarrow> registry_ok (fst (announce t t' p doc a ty g))"
  using sweep_ok [of g t]
  by (auto simp: announce_def Let_def registry_ok_def
      intro!: docs_ok_update parties_ok_update inDoc_ok author_of_ok)

lemma depart_ok:
  assumes "registry_ok g"
  shows "registry_ok (depart p doc g)"
proof -
  have d: "docs_ok (parties g)"
    using assms by (simp add: registry_ok_def)
  have p: "e \<in> set (parties g) \<Longrightarrow> parties_ok (snd e) \<and> snd e \<noteq> []" for e
    using d by (auto simp: docs_ok_def)
  have "docs_ok (filter (\<lambda>d. \<not> (fst d = k \<and> snd d = []))
      (map (\<lambda>d. if fst d = k then leave p d else d) (parties g)))" for k
    by (rule docs_ok_map_filter [OF d])
      (use p in \<open>auto simp: leave_def intro: parties_ok_delete split: if_splits\<close>)
  moreover have "docs_ok (filter (\<lambda>d. snd d \<noteq> []) (map (leave p) (parties g)))"
    by (rule docs_ok_map_filter [OF d]) (use p in \<open>auto simp: leave_def intro: parties_ok_delete\<close>)
  ultimately show ?thesis
    using assms by (simp add: depart_def registry_ok_def Let_def)
qed

lemma claim_write_ok: "registry_ok g \<Longrightarrow> registry_ok (claim_write t t' doc a digest g)"
  using sweep_ok [of g t]
  by (auto simp: claim_write_def Let_def registry_ok_def claims_ok_def distinct_update author_of_ok
      split: option.splits dest!: set_update)

lemma handle_ok: "registry_ok g \<Longrightarrow> registry_ok (handle ev g)"
  by (cases ev) (simp_all add: announce_ok depart_ok claim_write_ok sweep_ok everyone_def last_writer_def Let_def)

lemma empty_ok: "registry_ok empty_registry"
  by (simp add: empty_registry_def registry_ok_def docs_ok_def claims_ok_def)

lemma reachable_ok: "reachable g \<Longrightarrow> registry_ok g"
  by (induction rule: reachable.induct) (simp_all add: handle_ok empty_ok)

section \<open>What an operation answers\<close>

lemma map_of_map_filter:
  "distinct (map fst ds) \<Longrightarrow>
   map_of (filter (\<lambda>d. snd d \<noteq> []) (map (\<lambda>d. (fst d, f (snd d))) ds)) k =
   (case map_of ds k of None \<Rightarrow> None | Some ps \<Rightarrow> if f ps = [] then None else Some (f ps))"
proof (induction ds)
  case (Cons d ds)
  have "fst d \<notin> fst ` set ds \<Longrightarrow> map_of ds (fst d) = None"
    by (simp add: map_of_eq_None_iff)
  with Cons show ?case by (cases d) auto
qed simp

lemma inDoc_sweep:
  "docs_ok (parties g) \<Longrightarrow> inDoc (sweep t g) k = filter (live_party t) (inDoc g k)"
  by (auto simp: inDoc_def sweep_def docs_ok_def map_of_map_filter split: option.splits)

lemma filter_update:
  "\<not> P (k, v) \<Longrightarrow> (\<And>w. \<not> P (k, w)) \<Longrightarrow> filter P (AList.update k v xs) = filter P xs"
  by (induction xs) auto

lemma announce_roster:
  assumes "docs_ok (parties g)" and "document_key doc \<noteq> []" and "p \<noteq> []"
  shows "snd (announce t t' p doc a ty g) =
    map snd (filter (\<lambda>e. live_party t e \<and> listed p (author_of a) e) (inDoc g (document_key doc)))"
proof -
  have k: "document_key (Str (document_key doc)) = document_key doc"
    using length_str_upto [of 2000 doc] by (simp add: document_key_def)
  have "filter (listed p (author_of a)) (AList.update p q xs) = filter (listed p (author_of a)) xs" for q xs
    by (rule filter_update) (simp_all add: listed_def)
  then show ?thesis
    using assms k
    by (simp add: announce_def Let_def roster_def inDoc_def [of "_\<lparr>parties := _\<rparr>"] update_conv' inDoc_sweep
        conj_commute)
qed

lemma announce_present:
  "document_key doc \<noteq> [] \<Longrightarrow> p \<noteq> [] \<Longrightarrow>
   map_of (inDoc (fst (announce t t' p doc a ty g)) (document_key doc)) p =
     Some \<lparr>pAuthor = author_of a, pTyping = ty, pAt = t'\<rparr>"
  by (simp add: announce_def Let_def inDoc_def update_conv')

lemma depart_absent:
  assumes "docs_ok (parties g)" and "document_key doc = [] \<or> document_key doc = k"
  shows "map_of (inDoc (depart p doc g) k) p = None"
proof -
  have d: "map_of (AList.delete p ps) p = None" for ps :: "(jstr \<times> party) list"
    by (simp add: delete_conv')
  have g: "map_of (filter Q (map (\<lambda>d. if B (fst d) then leave p d else d) ds)) k = Some ps \<Longrightarrow>
      B k \<Longrightarrow> map_of ps p = None" for Q B ds ps
    by (auto simp: leave_def d dest!: map_of_SomeD split: if_splits)
  show ?thesis
  proof (cases "document_key doc = []")
    case True
    show ?thesis
      using g [of "\<lambda>d. snd d \<noteq> []" "\<lambda>_. True" "parties g"] True
      by (auto simp: depart_def inDoc_def split: option.splits)
  next
    case False
    then show ?thesis
      using g [of "\<lambda>d. \<not> (fst d = k \<and> snd d = [])" "\<lambda>i. i = k" "parties g"] assms(2)
      by (auto simp: depart_def inDoc_def Let_def split: option.splits)
  qed
qed

section \<open>A write claim through other traffic\<close>

text \<open>
  An event leaves the claim on a document alone when it reads the clock within the
  claim's time to live and claims no write on the same document.
\<close>

fun quiet :: "jstr \<Rightarrow> int \<Rightarrow> event \<Rightarrow> bool" where
  "quiet key deadline (Announce t t' p doc a ty) = (t \<le> deadline)"
| "quiet key deadline (Depart p doc) = True"
| "quiet key deadline (Everyone t root) = (t \<le> deadline)"
| "quiet key deadline (Claim t t' doc a digest) = (t \<le> deadline \<and> document_key doc \<noteq> key)"
| "quiet key deadline (Query t doc digest) = (t \<le> deadline)"

lemma map_of_filter_keeps: "map_of xs k = Some v \<Longrightarrow> P (k, v) \<Longrightarrow> map_of (filter P xs) k = Some v"
  by (induction xs) (auto split: if_splits)

lemma sweep_claim:
  "map_of (claims g) k = Some c \<Longrightarrow> t \<le> cAt c + WRITE_CLAIM_TTL_MS \<Longrightarrow>
   map_of (claims (sweep t g)) k = Some c"
  by (auto simp: sweep_def live_claim_def intro: map_of_filter_keeps)

lemma handle_claim:
  "map_of (claims g) k = Some c \<Longrightarrow> quiet k (cAt c + WRITE_CLAIM_TTL_MS) ev \<Longrightarrow>
   map_of (claims (handle ev g)) k = Some c"
  by (cases ev)
    (auto simp: announce_def depart_def everyone_def claim_write_def last_writer_def Let_def sweep_claim
      update_conv' split: option.splits)

lemma handle_claims:
  "map_of (claims g) k = Some c \<Longrightarrow> \<forall>ev \<in> set evs. quiet k (cAt c + WRITE_CLAIM_TTL_MS) ev \<Longrightarrow>
   map_of (claims (fold handle evs g)) k = Some c"
  by (induction evs arbitrary: g) (simp_all add: handle_claim)

lemma claimed:
  "author_of a = Some who \<Longrightarrow> document_key doc \<noteq> [] \<Longrightarrow> digest \<noteq> [] \<Longrightarrow>
   map_of (claims (claim_write t t' doc a digest g)) (document_key doc) =
     Some \<lparr>cAuthor = who, cDigest = take 80 digest, cAt = t'\<rparr>"
  by (simp add: claim_write_def Let_def update_conv')

lemma redeem:
  assumes "map_of (claims g) (document_key doc) = Some c" and "t \<le> cAt c + WRITE_CLAIM_TTL_MS"
  shows "snd (last_writer t doc digest g) =
    (if digest \<noteq> [] \<and> digest = cDigest c then Some (cAuthor c, cAt c) else None)"
  using sweep_claim [OF assms] by (auto simp: last_writer_def Let_def)

section \<open>The digest\<close>

lemma fnv_step_prime: "fnv_step h c = 16777619 * (h XOR of_char c)"
proof -
  have "push_bit n x = 2 ^ n * x" for n and x :: "32 word"
    by (simp add: push_bit_eq_mult ac_simps)
  then show ?thesis
    by (simp add: fnv_step_def Let_def algebra_simps)
qed

lemma dash_free: "2 \<le> b \<Longrightarrow> b \<le> 36 \<Longrightarrow> CHR ''-'' \<notin> set (to_radix b n)"
proof -
  assume b: "2 \<le> b" "b \<le> 36"
  have "radix_digit d \<noteq> CHR ''-''" if "d < 36" for d
  proof -
    have "radix_digit d \<in> set ''0123456789abcdefghijklmnopqrstuvwxyz''"
      unfolding radix_digit_def by (rule nth_mem) (use that in simp)
    then show ?thesis by auto
  qed
  then show ?thesis
    using radix_digits_bound [OF b(1), of _ n] b(2) by (auto simp: to_radix_def) (metis less_le_trans)
qed

lemma append_sep_inj:
  "c \<notin> set x \<Longrightarrow> c \<notin> set y \<Longrightarrow> x @ c # r = y @ c # s \<Longrightarrow> x = y \<and> r = s"
proof (induction x arbitrary: y)
  case Nil
  then show ?case by (cases y) auto
next
  case (Cons a x)
  then show ?case by (cases y) auto
qed

lemma digest_parts:
  "body_digest s = body_digest t \<longleftrightarrow> length s = length t \<and> fnv s = fnv t"
proof
  assume "body_digest s = body_digest t"
  then have e: "to_radix 36 (length s) @ CHR ''-'' # to_radix 36 (unat (fnv s)) =
      to_radix 36 (length t) @ CHR ''-'' # to_radix 36 (unat (fnv t))"
    by (simp add: body_digest_def)
  show "length s = length t \<and> fnv s = fnv t"
    using append_sep_inj [OF dash_free dash_free e] to_radix_inj [of 36]
    by (auto simp: word_unat_eq_iff)
qed (simp add: body_digest_def)

lemma mult_odd_inj: "16777619 * x = 16777619 * (y :: 32 word) \<Longrightarrow> x = y"
proof -
  have one: "899433627 * 16777619 = (1 :: 32 word)"
    by simp
  have i: "899433627 * (16777619 * z) = z" for z :: "32 word"
    by (simp only: mult.assoc [symmetric] one mult_1)
  assume "16777619 * x = 16777619 * y"
  then have "899433627 * (16777619 * x) = 899433627 * (16777619 * y)"
    by (rule arg_cong)
  then show "x = y"
    by (simp only: i)
qed

lemma fnv_step_inj: "fnv_step h c = fnv_step h' c \<Longrightarrow> h = h'"
proof -
  have i: "(z XOR of_char c) XOR of_char c = z" for z :: "32 word"
    by (simp add: xor.assoc)
  assume "fnv_step h c = fnv_step h' c"
  then have "h XOR of_char c = h' XOR of_char c"
    unfolding fnv_step_prime by (rule mult_odd_inj)
  then show "h = h'"
    using i by metis
qed

lemma fnv_fold_inj: "foldl fnv_step h t = foldl fnv_step h' t \<Longrightarrow> h = h'"
  by (induction t arbitrary: h h') (auto dest: fnv_step_inj)

lemma word_of_char_inj: "of_char c = (of_char d :: 32 word) \<longleftrightarrow> c = d"
proof
  assume "of_char c = (of_char d :: 32 word)"
  then have "unat (of_nat (of_char c) :: 32 word) = unat (of_nat (of_char d) :: 32 word)"
    by (simp only: of_nat_of_char)
  moreover have "(of_char x :: nat) < 256" for x
    by simp
  ultimately have "(of_char c :: nat) = of_char d"
    by (simp add: unat_of_nat take_bit_nat_eq_self less_trans [of _ 256])
  then show "c = d" by simp
qed simp

section \<open>Properties\<close>

text \<open>
  C6: in every state that any sequence of requests can produce, no document has an
  empty roster entry, keys are unique and non-empty, and every author record is cut
  to the registry's limits, whatever the frontends sent.
\<close>

theorem reachable_registry_ok: "reachable g \<Longrightarrow> registry_ok g"
  by (rule reachable_ok)

theorem reachable_registry_ok_witness:
  "registry_ok (handle (Announce 0 1 ''c1'' (Str ''doc'') (Some \<lparr>in_id = Str ''u'', in_name = Other,
     in_kind = Str ''root'', in_key = Other\<rparr>) True) empty_registry)"
  by (rule reachable_registry_ok) (intro reachable.intros)

text \<open>
  Announce answers with exactly the entries of the document that are still alive
  and are neither the caller's connection nor the caller's author, in the registry's
  order, and leaves the caller in the document with the author and time announced.
\<close>

theorem announce_answers:
  assumes "reachable g" and "document_key doc \<noteq> []" and "p \<noteq> []"
  shows "snd (announce t t' p doc a ty g) =
      map snd (filter (\<lambda>e. live_party t e \<and> listed p (author_of a) e) (inDoc g (document_key doc))) \<and>
    map_of (inDoc (fst (announce t t' p doc a ty g)) (document_key doc)) p =
      Some \<lparr>pAuthor = author_of a, pTyping = ty, pAt = t'\<rparr>"
  using announce_roster [OF _ assms(2,3)] announce_present [OF assms(2,3)] reachable_ok [OF assms(1)]
  by (simp add: registry_ok_def)

text \<open>
  After depart, the party is gone from the named document, or from every document
  when none is named.
\<close>

theorem depart_leaves:
  assumes "reachable g" and "document_key doc = [] \<or> document_key doc = k"
  shows "map_of (inDoc (depart p doc g) k) p = None"
  using depart_absent [OF _ assms(2)] reachable_ok [OF assms(1)] by (simp add: registry_ok_def)

text \<open>
  C7: a write claim is redeemed by exactly the digest claimed, through any traffic
  that stays within the claim's time to live and claims no other write on the same
  document; another digest answers nobody.
\<close>

theorem claim_redeemed:
  assumes "author_of a = Some who" and "document_key doc \<noteq> []" and "digest \<noteq> []" and "length digest \<le> 80"
    and "\<forall>ev \<in> set evs. quiet (document_key doc) (t' + WRITE_CLAIM_TTL_MS) ev"
    and "t'' \<le> t' + WRITE_CLAIM_TTL_MS"
  shows "snd (last_writer t'' doc asked (fold handle evs (claim_write t t' doc a digest g))) =
    (if asked = digest then Some (who, t') else None)"
proof -
  let ?c = "\<lparr>cAuthor = who, cDigest = digest, cAt = t'\<rparr>"
  have "map_of (claims (fold handle evs (claim_write t t' doc a digest g))) (document_key doc) = Some ?c"
    by (rule handle_claims) (use claimed [OF assms(1-3), of t t' g] assms(4,5) in simp_all)
  then show ?thesis
    using redeem [of _ doc ?c t'' asked] assms(3,6) by auto
qed

theorem claim_redeemed_witness:
  "snd (last_writer 9 (Str ''d'') ''2-x'' (fold handle [Depart ''c'' Other, Everyone 3 []]
     (claim_write 0 1 (Str ''d'') (Some \<lparr>in_id = Str ''u'', in_name = Other, in_kind = Other, in_key = Other\<rparr>)
       ''1-x'' empty_registry))) = None"
  by (subst claim_redeemed [where who = "\<lparr>aid = ''u'', aname = [], akind = ''person'', akey = []\<rparr>"])
    (simp_all add: author_of_def document_key_def WRITE_CLAIM_TTL_MS_def)

lemma fnv_one_unit:
  assumes "c \<noteq> d"
  shows "fnv (s @ c # t) \<noteq> fnv (s @ d # t)"
proof
  assume "fnv (s @ c # t) = fnv (s @ d # t)"
  then have "fnv_step (fnv s) c = fnv_step (fnv s) d"
    by (auto simp: fnv_def dest: fnv_fold_inj)
  then have "fnv s XOR of_char c = fnv s XOR of_char d"
    unfolding fnv_step_prime by (rule mult_odd_inj)
  then have "fnv s XOR (fnv s XOR of_char c) = fnv s XOR (fnv s XOR of_char d)"
    by (rule arg_cong)
  then have "of_char c = (of_char d :: 32 word)"
    by (simp add: xor.assoc [symmetric])
  then show False
    using assms by (simp add: word_of_char_inj)
qed

text \<open>
  The shifts of bodyDigest are the 32-bit multiplication by the FNV prime, so the
  digest never merges two bodies of different length, nor two of equal length that
  differ in one code unit.
\<close>

theorem body_digest_separates:
  "fnv_step h c = 16777619 * (h XOR of_char c) \<and>
   (body_digest s = body_digest t \<longleftrightarrow> length s = length t \<and> fnv s = fnv t) \<and>
   (c \<noteq> d \<longrightarrow> body_digest (s @ c # t) \<noteq> body_digest (s @ d # t))"
  using fnv_one_unit by (auto simp: fnv_step_prime digest_parts)

end
