(* ===== verification/Identity.thy ===== *)
theory Identity
  imports Studio_Prelude
begin

text \<open>
  Who is writing: browser/identity.js. The browser is a record of its local storage
  (absent in private mode), the provisional id held in memory, the provider in force
  and the number of change notifications sent. \<open>randomToken()\<close> is an argument of the
  operations that may draw one. The lemmas show which characters a key can hold, that
  a sealed id survives every later rename and sign-in, and that earlier ids stay mine.
\<close>

section \<open>Records and keys\<close>

record author_rec =
  rid :: jstr
  rname :: jstr
  rkind :: jstr
  rkey :: jstr
  runnamed :: bool
  remail :: "jstr option"

definition MINTED_ID_KEY :: jstr where "MINTED_ID_KEY = ''studio-identity-id''"
definition NAME_KEY :: jstr where "NAME_KEY = ''studio-identity-name''"
definition SUPERSEDED_KEY :: jstr where "SUPERSEDED_KEY = ''studio-identity-superseded''"
definition UNNAMED :: jstr where "UNNAMED = ''You''"

definition placeholder :: "jstr \<Rightarrow> bool" where
  "placeholder i = starts_with i ''anon-''"

definition agent :: "jstr \<Rightarrow> jstr \<Rightarrow> author_rec" where
  "agent token name = \<lparr>rid = ''agent:'' @ token, rname = name, rkind = ''agent'',
     rkey = ''agent-'' @ token, runnamed = False, remail = None\<rparr>"

definition AGENT_AUTHORS :: "(jstr \<times> author_rec) list" where
  "AGENT_AUTHORS =
     [(''claude'', agent ''claude'' ''Claude''), (''codex'', agent ''codex'' ''Codex''),
      (''assistant'', agent ''assistant'' ''Assistant'')]"

definition LEGACY_SELF :: "jstr list" where
  "LEGACY_SELF = [''you'', ''me'']"

definition slug_char :: "char \<Rightarrow> bool" where
  "slug_char c = (c \<in> set ''abcdefghijklmnopqrstuvwxyz0123456789'')"

fun dash_runs :: "bool \<Rightarrow> jstr \<Rightarrow> jstr" where
  "dash_runs inRun [] = []"
| "dash_runs inRun (c # r) =
     (if slug_char c then c # dash_runs False r
      else if inRun then dash_runs True r
      else CHR ''-'' # dash_runs True r)"

definition trim_dashes :: "jstr \<Rightarrow> jstr" where
  "trim_dashes s = rev (dropWhile (\<lambda>c. c = CHR ''-'') (rev (dropWhile (\<lambda>c. c = CHR ''-'') s)))"

definition slug :: "jstr \<Rightarrow> jstr" where
  "slug v = take 48 (trim_dashes (dash_runs False (map js_lower v)))"

definition colon_to_dash :: "char \<Rightarrow> char" where
  "colon_to_dash c = (if c = CHR '':'' then CHR ''-'' else c)"

definition or_else :: "jstr \<Rightarrow> jstr \<Rightarrow> jstr" where
  "or_else s d = (if s = [] then d else s)"

definition key_for_id :: "jstr \<Rightarrow> jstr" where
  "key_for_id i = or_else (slug (map colon_to_dash i)) ''anon''"

definition make_record :: "jstr \<Rightarrow> jstr \<Rightarrow> jstr \<Rightarrow> jstr \<Rightarrow> author_rec" where
  "make_record providerId localId name kind =
     (let i = providerId @ '':'' @ localId
      in \<lparr>rid = i, rname = or_else name UNNAMED, rkind = kind, rkey = key_for_id i,
          runnamed = False, remail = None\<rparr>)"

section \<open>The local provider\<close>

datatype provider = LocalProvider | PortalProvider jstr jstr jstr jstr

record browser =
  storage :: "(jstr \<rightharpoonup> jstr) option"
  provisionalAnon :: jstr
  inForce :: provider
  fired :: nat

definition read_store :: "jstr \<Rightarrow> browser \<Rightarrow> jstr" where
  "read_store k b = (case storage b of None \<Rightarrow> [] | Some m \<Rightarrow> (case m k of None \<Rightarrow> [] | Some v \<Rightarrow> v))"

definition write_store :: "jstr \<Rightarrow> jstr \<Rightarrow> browser \<Rightarrow> browser" where
  "write_store k v b = b\<lparr>storage := map_option (\<lambda>m. m(k \<mapsto> v)) (storage b)\<rparr>"

definition remove_store :: "jstr \<Rightarrow> browser \<Rightarrow> browser" where
  "remove_store k b = b\<lparr>storage := map_option (\<lambda>m. m(k := None)) (storage b)\<rparr>"

definition retired_ids :: "browser \<Rightarrow> jstr list" where
  "retired_ids b = filter (\<lambda>s. s \<noteq> []) (split_on LF (read_store SUPERSEDED_KEY b))"

definition retire :: "jstr \<Rightarrow> browser \<Rightarrow> browser" where
  "retire i b =
     (let ids = retired_ids b
      in if i \<in> set ids then b else write_store SUPERSEDED_KEY (join [LF] (ids @ [i])) b)"

definition unique_local_id :: "jstr \<Rightarrow> jstr \<Rightarrow> browser \<Rightarrow> jstr" where
  "unique_local_id tok base b = (if base \<notin> set (retired_ids b) then base else base @ ''-'' @ tok)"

definition local_id :: "jstr \<Rightarrow> browser \<Rightarrow> jstr \<times> browser" where
  "local_id tok b =
     (let sealed = read_store MINTED_ID_KEY b; named = slug (read_store NAME_KEY b)
      in if sealed \<noteq> [] then (sealed, b)
         else if named \<noteq> [] then (unique_local_id tok named b, b)
         else
           let b' = (if provisionalAnon b = [] then b\<lparr>provisionalAnon := ''anon-'' @ tok\<rparr> else b)
           in (provisionalAnon b', b'))"

definition local_current :: "jstr \<Rightarrow> browser \<Rightarrow> author_rec \<times> browser" where
  "local_current tok b =
     (let name = read_store NAME_KEY b; (i, b') = local_id tok b;
          r = make_record ''local'' i (or_else name UNNAMED) ''person''
      in (r\<lparr>runnamed := (name = [])\<rparr>, b'))"

definition local_set_name :: "jstr \<Rightarrow> jstr \<Rightarrow> browser \<Rightarrow> browser" where
  "local_set_name tok name b =
     (let trimmed = take 60 (js_trim name)
      in if trimmed = [] then remove_store NAME_KEY b
         else
           let before = read_store MINTED_ID_KEY b;
               b1 = write_store NAME_KEY trimmed b
           in if before \<noteq> [] \<and> placeholder before \<and> slug trimmed \<noteq> []
              then let b2 = retire before b1
                   in write_store MINTED_ID_KEY (unique_local_id tok (slug trimmed) b2) b2
              else b1)"

definition local_seal :: "jstr \<Rightarrow> browser \<Rightarrow> jstr \<times> browser" where
  "local_seal tok b =
     (let sealed = read_store MINTED_ID_KEY b
      in if sealed \<noteq> [] then (sealed, b)
         else let (minted, b') = local_id tok b in (minted, write_store MINTED_ID_KEY minted b'))"

section \<open>The portal provider and the seam\<close>

definition portal_current :: "jstr \<Rightarrow> jstr \<Rightarrow> jstr \<Rightarrow> jstr \<Rightarrow> author_rec" where
  "portal_current sub name kind email =
     (make_record ''oidc'' sub (or_else name UNNAMED) (or_else kind ''person''))
       \<lparr>runnamed := (name = []), remail := (if email = [] then None else Some email)\<rparr>"

definition current :: "jstr \<Rightarrow> browser \<Rightarrow> author_rec \<times> browser" where
  "current tok b =
     (case inForce b of LocalProvider \<Rightarrow> local_current tok b
      | PortalProvider sub name kind email \<Rightarrow> (portal_current sub name kind email, b))"

definition init :: "jstr \<Rightarrow> browser \<Rightarrow> author_rec \<times> browser" where
  "init tok b =
     (let b' = (case inForce b of LocalProvider \<Rightarrow> b\<lparr>inForce := LocalProvider\<rparr>
                | PortalProvider _ _ _ _ \<Rightarrow> b)
      in current tok b')"

definition adopt :: "jstr \<Rightarrow> jstr \<Rightarrow> jstr \<Rightarrow> jstr \<Rightarrow> jstr \<Rightarrow> browser \<Rightarrow> author_rec \<times> browser" where
  "adopt tok sub0 name0 kind0 email0 b =
     (let sub = js_trim sub0
      in if sub = [] then current tok b
         else
           let (before, b1) = current tok b;
               b2 = b1\<lparr>inForce := PortalProvider sub (js_trim name0) (or_else kind0 ''person'') (js_trim email0)\<rparr>;
               (after, b3) = current tok b2
           in (after, if rid before \<noteq> rid after \<or> rname before \<noteq> rname after \<or> remail before \<noteq> remail after
                      then b3\<lparr>fired := fired b3 + 1\<rparr> else b3))"

definition seal :: "jstr \<Rightarrow> browser \<Rightarrow> jstr \<times> browser" where
  "seal tok b =
     (case inForce b of LocalProvider \<Rightarrow> local_seal tok b | PortalProvider sub _ _ _ \<Rightarrow> (sub, b))"

definition set_display_name :: "jstr \<Rightarrow> jstr \<Rightarrow> browser \<Rightarrow> author_rec \<times> browser" where
  "set_display_name tok name b =
     (case inForce b of PortalProvider _ _ _ _ \<Rightarrow> current tok b
      | LocalProvider \<Rightarrow>
          let (before, b1) = current tok b;
              (after, b2) = current tok (local_set_name tok name b1)
          in (after, if rname before \<noteq> rname after \<or> runnamed before \<noteq> runnamed after
                     then b2\<lparr>fired := fired b2 + 1\<rparr> else b2))"

section \<open>Reading an author\<close>

text \<open>What is stored as an author: nothing, a bare string, or an object with any of the four fields.\<close>

datatype author_value = NoAuthor | Bare jstr | Obj jstr jstr jstr jstr

fun author_record :: "author_rec \<Rightarrow> author_value \<Rightarrow> author_rec" where
  "author_record me (Obj i name kind key) =
     (let i' = or_else i (or_else (''legacy:'' @ slug name) ''legacy:anon'')
      in \<lparr>rid = i', rname = or_else name UNNAMED, rkind = or_else kind ''person'',
          rkey = or_else key (key_for_id i'), runnamed = False, remail = None\<rparr>)"
| "author_record me NoAuthor = me"
| "author_record me (Bare s) =
     (let raw = js_trim s; token = map js_lower raw
      in if raw = [] \<or> token \<in> set LEGACY_SELF then me
         else case map_of AGENT_AUTHORS token of Some a \<Rightarrow> a
              | None \<Rightarrow> make_record ''legacy'' (or_else (slug raw) ''anon'') raw ''person'')"

definition local_minted_ids :: "browser \<Rightarrow> jstr list" where
  "local_minted_ids b =
     (let sealed = read_store MINTED_ID_KEY b
      in (if sealed = [] then [] else [''local:'' @ sealed]) @ map (\<lambda>i. ''local:'' @ i) (retired_ids b))"

definition my_ids :: "jstr \<Rightarrow> browser \<Rightarrow> jstr list" where
  "my_ids tok b =
     rid (fst (current tok b)) #
     (case inForce b of LocalProvider \<Rightarrow> map (\<lambda>i. ''local:'' @ i) (retired_ids b)
      | PortalProvider _ _ _ _ \<Rightarrow> [])"

definition same_name :: "author_rec \<Rightarrow> jstr \<Rightarrow> bool" where
  "same_name me name =
     (name \<noteq> [] \<and> \<not> runnamed me \<and> map js_lower (js_trim name) = map js_lower (rname me))"

fun is_self :: "jstr \<Rightarrow> browser \<Rightarrow> author_value \<Rightarrow> bool" where
  "is_self tok b NoAuthor = False"
| "is_self tok b (Obj i name kind key) =
     (let me = fst (current tok b)
      in if kind = ''agent'' then False
         else if i \<noteq> [] then
           i \<in> set (my_ids tok b) \<or>
           (starts_with i ''legacy:'' \<or> i \<in> set (local_minted_ids b)) \<and> same_name me name
         else same_name me name)"
| "is_self tok b (Bare s) =
     (let me = fst (current tok b); token = map js_lower (js_trim s)
      in if s = [] \<or> token = [] then False
         else if map_of AGENT_AUTHORS token \<noteq> None then False
         else if token \<in> set LEGACY_SELF then True
         else \<not> runnamed me \<and> token = map js_lower (rname me))"

fun is_agent :: "author_value \<Rightarrow> bool" where
  "is_agent NoAuthor = False"
| "is_agent (Obj i name kind key) = (kind = ''agent'')"
| "is_agent (Bare s) = (s \<noteq> [] \<and> map_of AGENT_AUTHORS (map js_lower (js_trim s)) \<noteq> None)"

section \<open>What a key can hold\<close>

abbreviation dash :: char where "dash \<equiv> CHR ''-''"

lemma dash_runs_chars: "c \<in> set (dash_runs b s) \<Longrightarrow> slug_char c \<or> c = dash"
  by (induction b s rule: dash_runs.induct) (auto split: if_splits)

lemma set_trim_dashes: "c \<in> set (trim_dashes s) \<Longrightarrow> c \<in> set s"
  by (auto simp: trim_dashes_def dest!: set_dropWhileD)

lemma slug_chars: "c \<in> set (slug v) \<Longrightarrow> slug_char c \<or> c = dash"
  unfolding slug_def by (blast dest: in_set_takeD set_trim_dashes dash_runs_chars)

lemma length_slug: "length (slug v) \<le> 48"
  by (simp add: slug_def)

lemma trim_dashes_ends:
  "trim_dashes s \<noteq> [] \<Longrightarrow> hd (trim_dashes s) \<noteq> dash \<and> last (trim_dashes s) \<noteq> dash"
proof -
  let ?P = "\<lambda>c. c = dash"
  let ?u = "dropWhile ?P s"
  assume "trim_dashes s \<noteq> []"
  then have d: "dropWhile ?P (rev ?u) \<noteq> []"
    by (simp add: trim_dashes_def)
  then have l: "last (trim_dashes s) \<noteq> dash"
    using hd_dropWhile [of ?P "rev ?u"] by (simp add: trim_dashes_def last_rev)
  have une: "?u \<noteq> []"
    using d by (metis dropWhile.simps(1) rev.simps(1))
  then obtain c u where cu: "?u = c # u"
    by (meson neq_Nil_conv)
  then have "c \<noteq> dash"
    using hd_dropWhile [OF une] by (metis list.sel(1))
  note u = cu this
  have "takeWhile ?P (rev ?u) @ dropWhile ?P (rev ?u) = rev ?u"
    by (rule takeWhile_dropWhile_id)
  then have e: "rev (dropWhile ?P (rev ?u)) @ rev (takeWhile ?P (rev ?u)) = c # u"
    using u(1) by (metis rev_append rev_rev_ident)
  have "rev (dropWhile ?P (rev ?u)) \<noteq> []"
    using d by (simp only: rev_is_Nil_conv not_False_eq_True)
  then have "hd (trim_dashes s) = c"
    unfolding trim_dashes_def using hd_append2 e by (metis list.sel(1))
  with l u(2) show ?thesis
    by (simp only: not_False_eq_True simp_thms)
qed

lemma slug_hd: "slug v \<noteq> [] \<Longrightarrow> hd (slug v) \<noteq> dash"
  using trim_dashes_ends [of "dash_runs False (map js_lower v)"]
  by (auto simp: slug_def take_eq_Nil hd_take)

lemma slug_no_LF: "LF \<notin> set (slug v)"
  using slug_chars [of LF v] by (auto simp: slug_char_def)

lemma key_chars: "c \<in> set (key_for_id i) \<Longrightarrow> slug_char c \<or> c = dash"
  using slug_chars [of c] by (auto simp: key_for_id_def or_else_def slug_char_def split: if_splits)

lemma key_not_Nil [simp]: "key_for_id i \<noteq> []"
  by (simp add: key_for_id_def or_else_def)

section \<open>The store\<close>

definition stored :: "browser \<Rightarrow> bool" where
  "stored b = (storage b \<noteq> None)"

lemma read_write [simp]:
  "read_store k (write_store k' v b) =
     (if \<not> stored b then [] else if k = k' then v else read_store k b)"
  by (auto simp: read_store_def write_store_def stored_def split: option.splits)

lemma read_off: "\<not> stored b \<Longrightarrow> read_store k b = []"
  by (simp add: read_store_def stored_def)

lemma read_remove [simp]:
  "read_store k (remove_store k' b) = (if k = k' then [] else read_store k b)"
  by (auto simp: read_store_def remove_store_def split: option.splits)

lemma stored_write [simp]:
  "stored (write_store k v b) = stored b" "stored (remove_store k b) = stored b"
  by (simp_all add: write_store_def remove_store_def stored_def)

lemma inForce_write [simp]:
  "inForce (write_store k v b) = inForce b" "inForce (remove_store k b) = inForce b"
  by (simp_all add: write_store_def remove_store_def)

lemma read_fields [simp]:
  "read_store k (b\<lparr>provisionalAnon := x\<rparr>) = read_store k b"
  "read_store k (b\<lparr>inForce := y\<rparr>) = read_store k b" "read_store k (b\<lparr>fired := z\<rparr>) = read_store k b"
  by (simp_all add: read_store_def)

lemma store_keys [simp]:
  "MINTED_ID_KEY \<noteq> NAME_KEY" "NAME_KEY \<noteq> MINTED_ID_KEY" "MINTED_ID_KEY \<noteq> SUPERSEDED_KEY"
  "SUPERSEDED_KEY \<noteq> MINTED_ID_KEY" "NAME_KEY \<noteq> SUPERSEDED_KEY" "SUPERSEDED_KEY \<noteq> NAME_KEY"
  by (simp_all add: MINTED_ID_KEY_def NAME_KEY_def SUPERSEDED_KEY_def)

lemma retired_cong: "read_store SUPERSEDED_KEY b = read_store SUPERSEDED_KEY b' \<Longrightarrow> retired_ids b = retired_ids b'"
  by (simp add: retired_ids_def)

lemma pieces_join:
  "\<forall>l \<in> set ls. LF \<notin> set l \<Longrightarrow> split_on LF (join [LF] (ls @ [j])) = ls @ split_on LF j"
  by (induction ls) (simp_all add: join_Cons split_on_sep)

lemma retired_LF: "i \<in> set (retired_ids b) \<Longrightarrow> LF \<notin> set i \<and> i \<noteq> []"
  using split_on_pieces [of i LF] by (auto simp: retired_ids_def)

lemma retired_retire:
  assumes "stored b"
  shows "set (retired_ids b) \<subseteq> set (retired_ids (retire i b))"
    and "i \<noteq> [] \<Longrightarrow> LF \<notin> set i \<Longrightarrow> set (retired_ids (retire i b)) = insert i (set (retired_ids b))"
proof -
  have ne: "filter (\<lambda>s. s \<noteq> []) (retired_ids b) = retired_ids b"
    by (simp add: retired_ids_def)
  have f: "\<forall>l \<in> set (retired_ids b). LF \<notin> set l"
    using retired_LF by blast
  have r: "retired_ids (retire i b) =
      (if i \<in> set (retired_ids b) then retired_ids b
       else retired_ids b @ filter (\<lambda>s. s \<noteq> []) (split_on LF i))"
    using assms ne
    by (simp add: retire_def Let_def retired_ids_def [of "write_store _ _ _"] pieces_join [OF f])
  show "set (retired_ids b) \<subseteq> set (retired_ids (retire i b))"
    by (auto simp: r)
  show "i \<noteq> [] \<Longrightarrow> LF \<notin> set i \<Longrightarrow> set (retired_ids (retire i b)) = insert i (set (retired_ids b))"
    by (auto simp: r split_on_free)
qed

lemma retire_other [simp]:
  "k \<noteq> SUPERSEDED_KEY \<Longrightarrow> stored b \<Longrightarrow> read_store k (retire i b) = read_store k b"
  "stored (retire i b) = stored b" "inForce (retire i b) = inForce b"
  by (simp_all add: retire_def Let_def)

section \<open>Sealed ids\<close>

datatype id_event = Init jstr | Adopt jstr jstr jstr jstr jstr | Seal jstr | SetName jstr jstr | Read jstr

fun id_handle :: "id_event \<Rightarrow> browser \<Rightarrow> browser" where
  "id_handle (Init tok) b = snd (init tok b)"
| "id_handle (Adopt tok sub name kind email) b = snd (adopt tok sub name kind email b)"
| "id_handle (Seal tok) b = snd (seal tok b)"
| "id_handle (SetName tok name) b = snd (set_display_name tok name b)"
| "id_handle (Read tok) b = snd (current tok b)"

text \<open>An id this browser sealed: the one in force or one it retired.\<close>

definition known :: "jstr \<Rightarrow> browser \<Rightarrow> bool" where
  "known i b = (i = read_store MINTED_ID_KEY b \<or> i \<in> set (retired_ids b))"

definition same_store :: "browser \<Rightarrow> browser \<Rightarrow> bool" where
  "same_store b b' = (storage b = storage b')"

lemma same_store_read: "same_store b b' \<Longrightarrow> read_store k b = read_store k b'"
  by (simp add: same_store_def read_store_def)

lemma local_id_store: "same_store (snd (local_id tok b)) b"
  by (simp add: local_id_def same_store_def Let_def)

lemma local_current_store: "same_store (snd (local_current tok b)) b"
  using local_id_store [of tok b] by (simp add: local_current_def Let_def split_beta)

lemma current_store: "same_store (snd (current tok b)) b"
  by (auto simp: current_def local_current_store same_store_def [of b b] split: provider.splits)

lemma current_read [simp]: "read_store k (snd (current tok b)) = read_store k b"
  by (rule same_store_read [OF current_store])

lemma current_retired [simp]: "retired_ids (snd (current tok b)) = retired_ids b"
  by (rule retired_cong) simp

lemma current_stored [simp]: "stored (snd (current tok b)) = stored b"
  using current_store by (simp add: same_store_def stored_def)

lemma set_name_minted:
  "\<not> placeholder (read_store MINTED_ID_KEY b) \<Longrightarrow>
   read_store MINTED_ID_KEY (local_set_name tok name b) = read_store MINTED_ID_KEY b"
  by (cases "stored b") (simp_all add: local_set_name_def Let_def read_off)

lemma retired_write: "k \<noteq> SUPERSEDED_KEY \<Longrightarrow> stored b \<Longrightarrow> retired_ids (write_store k v b) = retired_ids b"
  by (intro retired_cong) simp

lemma set_name_known:
  assumes "known i b" and "i \<noteq> []" and "LF \<notin> set i"
  shows "known i (local_set_name tok name b)"
proof (cases "stored b")
  case True
  let ?b = "write_store NAME_KEY (take 60 (js_trim name)) b"
  let ?m = "read_store MINTED_ID_KEY b"
  have s: "stored ?b"
    using True by simp
  have "i \<in> set (retired_ids (retire ?m ?b))"
    using assms retired_retire [OF s, of ?m] retired_write [of NAME_KEY b] True
    by (auto simp: known_def)
  then have "known i (write_store MINTED_ID_KEY v (retire ?m ?b))" for v
    using True by (simp add: known_def retired_write)
  moreover have "known i ?b" "known i (remove_store NAME_KEY b)"
    using assms(1) True retired_cong [of "remove_store NAME_KEY b" b]
    by (simp_all add: known_def retired_write)
  ultimately show ?thesis
    by (simp add: local_set_name_def Let_def)
next
  case False
  then show ?thesis
    using assms(1,2) by (simp add: known_def read_off retired_ids_def)
qed

lemma known_cong: "(\<And>k. read_store k b = read_store k b') \<Longrightarrow> known i b = known i b'"
  using retired_cong [of b b'] by (simp add: known_def)

lemma seal_keeps: "read_store MINTED_ID_KEY b \<noteq> [] \<Longrightarrow> snd (local_seal tok b) = b"
  by (simp add: local_seal_def Let_def)

lemma adopt_read [simp]: "read_store k (snd (adopt tok sub name kind email b)) = read_store k b"
  by (simp add: adopt_def Let_def split_beta)

lemma init_read [simp]: "read_store k (snd (init tok b)) = read_store k b"
  by (simp add: init_def Let_def split: provider.splits)

lemma set_display_read:
  "read_store k (snd (set_display_name tok name b)) =
     (if inForce b = LocalProvider then read_store k (local_set_name tok name (snd (current tok b)))
      else read_store k b)"
  by (simp add: set_display_name_def Let_def split_beta split: provider.splits)

lemma handle_known:
  assumes "known i b" and "i \<noteq> []" and "LF \<notin> set i" and "read_store MINTED_ID_KEY b \<noteq> []"
  shows "known i (id_handle ev b)"
proof (cases ev)
  case (SetName tok name)
  have "known i (local_set_name tok name (snd (current tok b)))"
    by (rule set_name_known) (use assms known_cong [of b "snd (current tok b)" i] in simp_all)
  then show ?thesis
    using SetName assms(1) known_cong [of "id_handle ev b" b i]
      known_cong [of "id_handle ev b" "local_set_name tok name (snd (current tok b))" i]
    by (cases "inForce b = LocalProvider") (simp_all add: set_display_read)
next
  case (Seal tok)
  then show ?thesis
    using assms by (simp add: seal_def seal_keeps split: provider.splits)
qed (use assms(1) known_cong [of "id_handle ev b" b] in simp_all)

lemma handle_minted:
  assumes "read_store MINTED_ID_KEY b \<noteq> []"
  shows "read_store MINTED_ID_KEY (id_handle ev b) \<noteq> []"
    and "\<not> placeholder (read_store MINTED_ID_KEY b) \<Longrightarrow>
      read_store MINTED_ID_KEY (id_handle ev b) = read_store MINTED_ID_KEY b"
proof -
  have s: "stored b"
    using assms read_off by blast
  have n: "read_store MINTED_ID_KEY (local_set_name tok name (snd (current tok b))) \<noteq> []" for tok name
    using assms s by (simp add: local_set_name_def Let_def unique_local_id_def)
  show "read_store MINTED_ID_KEY (id_handle ev b) \<noteq> []"
    using assms n by (cases ev) (simp_all add: set_display_read seal_def seal_keeps split: provider.splits)
  show "\<not> placeholder (read_store MINTED_ID_KEY b) \<Longrightarrow>
      read_store MINTED_ID_KEY (id_handle ev b) = read_store MINTED_ID_KEY b"
    using assms
    by (cases ev) (simp_all add: set_display_read set_name_minted seal_def seal_keeps split: provider.splits)
qed

lemma fold_known:
  "known i b \<Longrightarrow> i \<noteq> [] \<Longrightarrow> LF \<notin> set i \<Longrightarrow> read_store MINTED_ID_KEY b \<noteq> [] \<Longrightarrow>
   known i (fold id_handle evs b)"
  by (induction evs arbitrary: b) (simp_all add: handle_known handle_minted(1))

lemma fold_minted:
  "read_store MINTED_ID_KEY b \<noteq> [] \<Longrightarrow> \<not> placeholder (read_store MINTED_ID_KEY b) \<Longrightarrow>
   read_store MINTED_ID_KEY (fold id_handle evs b) = read_store MINTED_ID_KEY b"
  by (induction evs arbitrary: b) (simp_all add: handle_minted)

section \<open>Agents, readings and sign-ins\<close>

lemma agent_not_self: "is_agent v \<Longrightarrow> \<not> is_self tok b v"
  by (cases v) (simp_all add: Let_def)

definition as_value :: "author_rec \<Rightarrow> author_value" where
  "as_value r = Obj (rid r) (rname r) (rkind r) (rkey r)"

text \<open>Reading a record that is complete gives it back; so reading is idempotent.\<close>

lemma author_record_complete:
  "rid r \<noteq> [] \<Longrightarrow> rname r \<noteq> [] \<Longrightarrow> rkind r \<noteq> [] \<Longrightarrow> rkey r \<noteq> [] \<Longrightarrow>
   author_record me (as_value r) = r\<lparr>runnamed := False, remail := None\<rparr>"
  by (cases r) (simp add: as_value_def Let_def or_else_def)

lemma author_record_Obj_ok:
  "rid (author_record me (Obj i n k ky)) \<noteq> [] \<and> rname (author_record me (Obj i n k ky)) \<noteq> [] \<and>
   rkind (author_record me (Obj i n k ky)) \<noteq> [] \<and> rkey (author_record me (Obj i n k ky)) \<noteq> []"
  by (simp add: Let_def or_else_def UNNAMED_def)

text \<open>
  The fallback of an object with neither id nor name is dead: the prefix in front of
  the empty slug is already a non-empty string, so the id is the bare prefix.
\<close>

lemma author_record_blank:
  "rid (author_record me (Obj [] [] [] [])) = ''legacy:'' \<and>
   rid (author_record me (Bare ''!'')) = ''legacy:anon''"
  by (simp add: or_else_def slug_def trim_dashes_def js_trim_def is_space_def LEGACY_SELF_def
      AGENT_AUTHORS_def make_record_def slug_char_def js_lower_def Let_def)

text \<open>A second statement of the same viewer notifies nobody.\<close>

lemma adopt_again:
  "fired (snd (adopt tok' sub name kind email (snd (adopt tok sub name kind email b)))) =
   fired (snd (adopt tok sub name kind email b)) \<or> js_trim sub = []"
  by (simp add: adopt_def current_def Let_def split_beta)

text \<open>
  The slug is cut to 48 characters after its ends were trimmed, so it can end in a
  separator all the same.
\<close>

lemma slug_cut_ends_in_dash:
  "slug ''aaaaaaaaaaaaaaaaaaaaaaaaaaaaaaaaaaaaaaaaaaaaaaa b'' =
   ''aaaaaaaaaaaaaaaaaaaaaaaaaaaaaaaaaaaaaaaaaaaaaaa-''"
  by (simp add: slug_def trim_dashes_def slug_char_def js_lower_def Let_def)

text \<open>A name that starts with Anon mints an id the next rename takes for a placeholder.\<close>

definition anon_browser :: browser where
  "anon_browser = \<lparr>storage = Some [MINTED_ID_KEY \<mapsto> ''anon-1''], provisionalAnon = [],
     inForce = LocalProvider, fired = 0\<rparr>"

lemma set_name_remints:
  assumes "stored b" and "read_store MINTED_ID_KEY b = i" and "i \<noteq> []" and "LF \<notin> set i" and "placeholder i"
    and "take 60 (js_trim name) \<noteq> []" and "slug (take 60 (js_trim name)) = s" and "s \<noteq> []"
    and "s \<notin> insert i (set (retired_ids b))"
  shows "read_store MINTED_ID_KEY (local_set_name tok name b) = s \<and>
    set (retired_ids (local_set_name tok name b)) = insert i (set (retired_ids b))"
proof -
  let ?b = "write_store NAME_KEY (take 60 (js_trim name)) b"
  have r: "set (retired_ids (retire i ?b)) = insert i (set (retired_ids b))"
    using retired_retire(2) [of ?b i] assms(1,3,4) by (simp add: retired_write)
  then show ?thesis
    using assms by (simp add: local_set_name_def Let_def unique_local_id_def retired_write)
qed

lemma stored_set_name [simp]: "stored (local_set_name tok name b) = stored b"
  by (simp add: local_set_name_def Let_def)

lemma inForce_set_name [simp]: "inForce (local_set_name tok name b) = inForce b"
  by (simp add: local_set_name_def Let_def)

lemma inForce_current [simp]: "inForce (snd (current tok b)) = inForce b"
  by (simp add: current_def local_current_def local_id_def Let_def split_beta split: provider.splits)

lemma inForce_set_display [simp]: "inForce (snd (set_display_name tok name b)) = inForce b"
  by (simp add: set_display_name_def Let_def split_beta split: provider.splits)

lemma lowered:
  "js_lower (CHR ''A'') = CHR ''a''" "js_lower (CHR ''Z'') = CHR ''z''" "js_lower (CHR ''R'') = CHR ''r''"
  "js_lower (CHR ''n'') = CHR ''n''" "js_lower (CHR ''o'') = CHR ''o''" "js_lower (CHR ''m'') = CHR ''m''"
  "js_lower (CHR ''a'') = CHR ''a''" "js_lower (CHR '' '') = CHR '' ''"
  by (simp_all add: js_lower_def char_of_def bit_0)

lemma slugs:
  "take 60 (js_trim ''Anon Z'') = ''Anon Z''" "take 60 (js_trim ''Roma'') = ''Roma''"
  "slug ''Anon Z'' = ''anon-z''" "slug ''Roma'' = ''roma''"
  by (simp_all add: slug_def trim_dashes_def slug_char_def lowered js_trim_def is_space_def)

lemma anon_start:
  "stored anon_browser" "read_store MINTED_ID_KEY anon_browser = ''anon-1''" "retired_ids anon_browser = []"
  "inForce anon_browser = LocalProvider"
  by (simp_all add: anon_browser_def stored_def read_store_def retired_ids_def MINTED_ID_KEY_def SUPERSEDED_KEY_def)

lemma anon_name_reminted:
  "read_store MINTED_ID_KEY (local_set_name ''t'' ''Anon Z'' anon_browser) = ''anon-z'' \<and>
   read_store MINTED_ID_KEY (local_set_name ''t'' ''Roma'' (local_set_name ''t'' ''Anon Z'' anon_browser)) = ''roma''"
proof -
  let ?b = "local_set_name ''t'' ''Anon Z'' anon_browser"
  have 1: "read_store MINTED_ID_KEY ?b = ''anon-z'' \<and> set (retired_ids ?b) = insert ''anon-1'' (set (retired_ids anon_browser))"
    by (rule set_name_remints) (simp_all add: anon_start slugs placeholder_def starts_with_def)
  then have "read_store MINTED_ID_KEY (local_set_name ''t'' ''Roma'' ?b) = ''roma'' \<and>
      set (retired_ids (local_set_name ''t'' ''Roma'' ?b)) = insert ''anon-z'' (set (retired_ids ?b))"
    by (intro set_name_remints) (simp_all add: anon_start slugs placeholder_def starts_with_def)
  with 1 show ?thesis by blast
qed

section \<open>Properties\<close>

text \<open>
  An author's key is a file name. It is never empty, at most 48 characters of
  a to z, 0 to 9 and the dash, and does not start with a dash, whatever the id holds.
\<close>

theorem key_is_file_name:
  "key_for_id i \<noteq> [] \<and> length (key_for_id i) \<le> 48 \<and> hd (key_for_id i) \<noteq> dash \<and>
   set (key_for_id i) \<subseteq> set ''abcdefghijklmnopqrstuvwxyz0123456789-''"
proof (intro conjI subsetI)
  show "length (key_for_id i) \<le> 48"
    using length_slug by (simp add: key_for_id_def or_else_def)
  show "hd (key_for_id i) \<noteq> dash"
    using slug_hd by (simp add: key_for_id_def or_else_def)
  show "c \<in> set (key_for_id i) \<Longrightarrow> c \<in> set ''abcdefghijklmnopqrstuvwxyz0123456789-''" for c
    using key_chars [of c i] by (auto simp: slug_char_def)
qed simp

text \<open>
  Sealing fixes the log file. After seal under the local provider the sealed id is
  stored, every later reading of the identity carries it, whatever token is drawn, and
  sealing again changes nothing.
\<close>

theorem seal_fixes_id:
  assumes "stored b" and "inForce b = LocalProvider" and "seal tok b = (i, b')"
  shows "i \<noteq> [] \<and> read_store MINTED_ID_KEY b' = i \<and>
    rid (fst (current tok' b')) = ''local:'' @ i \<and> seal tok' b' = (i, b')"
proof -
  let ?l = "local_id tok b"
  have n: "fst ?l \<noteq> []"
    by (auto simp: local_id_def unique_local_id_def Let_def)
  have s: "stored (snd ?l)" "inForce (snd ?l) = LocalProvider"
    using local_id_store [of tok b] assms(1,2)
    by (simp_all add: same_store_def stored_def local_id_def Let_def)
  have i: "i = (if read_store MINTED_ID_KEY b = [] then fst ?l else read_store MINTED_ID_KEY b)"
    and b': "b' = (if read_store MINTED_ID_KEY b = [] then write_store MINTED_ID_KEY (fst ?l) (snd ?l) else b)"
    using assms(2,3) by (auto simp: seal_def local_seal_def Let_def split_beta split: if_splits)
  have "i \<noteq> [] \<and> read_store MINTED_ID_KEY b' = i \<and> inForce b' = LocalProvider"
    using i b' n s assms(2) by simp
  then show ?thesis
    by (simp add: current_def local_current_def local_id_def make_record_def seal_def local_seal_def Let_def)
qed



end
