(* ===== verification/Op_Log.thy ===== *)
theory Op_Log
  imports Studio_Prelude
begin

text \<open>
  What comment-log.js and flow-log.js share: an entry of an op log, the total order
  compareOps sorts entries by, and the contract of a fold over the sorted entries. The
  locale states that contract; each log interprets it, and inherits from it that the
  order in which files are listed does not matter.
\<close>

section \<open>Entries and their order\<close>

record 'op entry =
  eOp :: 'op
  eFile :: jstr
  eParty :: jstr
  eLine :: nat
  eAt :: jstr

definition compare_ops :: "'op entry \<Rightarrow> 'op entry \<Rightarrow> int" where
  "compare_ops a b =
     (if eAt a \<noteq> eAt b then (if eAt a < eAt b then -1 else 1)
      else if eParty a \<noteq> eParty b then (if eParty a < eParty b then -1 else 1)
      else if eFile a \<noteq> eFile b then (if eFile a < eFile b then -1 else 1)
      else int (eLine a) - int (eLine b))"

definition op_key :: "'op entry \<Rightarrow> jstr \<times> jstr \<times> jstr \<times> nat" where
  "op_key e = (eAt e, eParty e, eFile e, eLine e)"

text \<open>The comparator is the lexicographic order of the four fields.\<close>

fun key_le :: "jstr \<times> jstr \<times> jstr \<times> nat \<Rightarrow> jstr \<times> jstr \<times> jstr \<times> nat \<Rightarrow> bool" where
  "key_le (a, b, c, n) (a', b', c', n') =
     (a < a' \<or> a = a' \<and> (b < b' \<or> b = b' \<and> (c < c' \<or> c = c' \<and> n \<le> n')))"

lemma compare_key: "compare_ops x y \<le> 0 \<longleftrightarrow> key_le (op_key x) (op_key y)"
  by (auto simp: compare_ops_def op_key_def)

lemma key_le_total: "key_le x y \<or> key_le y x"
  by (cases x; cases y) (auto simp: not_less_iff_gr_or_eq)

lemma key_le_trans: "key_le x y \<Longrightarrow> key_le y z \<Longrightarrow> key_le x z"
  by (cases x; cases y; cases z) auto

lemma key_le_antisym: "key_le x y \<Longrightarrow> key_le y x \<Longrightarrow> x = y"
  by (cases x; cases y) auto

interpretation op_order: comparator compare_ops
  by unfold_locales (use key_le_total key_le_trans in \<open>auto simp: compare_key\<close>)

text \<open>A listing: the ops of every file, in whatever order the file service gave them.\<close>

definition same_ops :: "'op entry list \<Rightarrow> 'op entry list \<Rightarrow> bool" where
  "same_ops es es' = (mset es = mset es' \<and> distinct (map op_key es))"

lemma sort_same_ops:
  assumes "same_ops es es'"
  shows "js_sort compare_ops es = js_sort compare_ops es'"
proof (rule op_order.sort_perm)
  show "mset es = mset es'"
    using assms by (simp add: same_ops_def)
  fix x y
  assume "x \<in> set es" "y \<in> set es" "compare_ops x y \<le> 0" "compare_ops y x \<le> 0"
  then show "x = y"
    using assms key_le_antisym by (auto simp: same_ops_def compare_key distinct_map inj_on_def)
qed

section \<open>The contract of a fold\<close>

locale sorted_fold =
  fixes fold_all :: "'op entry list \<Rightarrow> 's"
    and run :: "'op entry list \<Rightarrow> 's"
  assumes fold_sorted: "fold_all es = run (js_sort compare_ops es)"
begin

lemma listing_irrelevant: "same_ops es es' \<Longrightarrow> fold_all es = fold_all es'"
  by (simp add: fold_sorted sort_same_ops)

lemma fold_sorted_input: "fold_all (js_sort compare_ops es) = fold_all es"
  by (simp add: fold_sorted op_order.sort_idem)

end

end
