(* ===== verification/Comment_Log.thy ===== *)
theory Comment_Log
  imports Op_Log Identity
begin

text \<open>
  browser/comment-log.js: per-party append-only logs folded into threads. An op is the
  JSON object of one line, read into a record whose missing fields are None or the
  empty string as the code's tests treat them; decoding a line and encoding a record
  are arguments of the reader and the writer. The theorems are the independence of
  the fold from listing order and clock skew, the finality of tombstones, and that
  appending is invisible to every other party's file.
\<close>

section \<open>Threads\<close>

record message =
  mId :: jstr
  mAuthor :: jstr
  mAt :: "jstr option"
  mBody :: "jstr option"
  mBy :: author_rec

record task =
  kText :: jstr
  kAt :: "jstr option"
  kBy :: author_rec

record thread =
  tId :: jstr
  tScope :: jstr
  tQuote :: jstr
  tOccurrence :: int
  tAnchor :: "jstr option"
  tResolved :: bool
  tMessages :: "message list"
  tTasks :: "task list"

record comment_op =
  oKind :: jstr
  oThread :: jstr
  oMessage :: jstr
  oScope :: "jstr option"
  oQuote :: "jstr option"
  oOccurrence :: "int option"
  oAnchor :: "jstr option"
  oBody :: "jstr option"
  oText :: jstr
  oAt :: "jstr option"
  oBy :: author_value

record legacy_message =
  lId :: jstr
  lAuthor :: jstr
  lAt :: "jstr option"
  lBody :: "jstr option"
  lBy :: author_value

record legacy =
  gId :: jstr
  gScope :: "jstr option"
  gQuote :: "jstr option"
  gOccurrence :: "int option"
  gAnchor :: "jstr option"
  gResolved :: bool
  gMessages :: "legacy_message list"
  gTasks :: "task list"

definition LOG_SUFFIX :: jstr where
  "LOG_SUFFIX = ''.jsonl''"

definition derived_message_id :: "jstr \<Rightarrow> nat \<Rightarrow> jstr" where
  "derived_message_id threadId index = threadId @ ''-m'' @ to_dec index"

definition blank_thread :: "jstr \<Rightarrow> thread" where
  "blank_thread i = \<lparr>tId = i, tScope = ''inline'', tQuote = [], tOccurrence = 0, tAnchor = None,
     tResolved = False, tMessages = [], tTasks = []\<rparr>"

definition by_or_author :: "author_value \<Rightarrow> jstr \<Rightarrow> author_value" where
  "by_or_author by a = (if by = NoAuthor \<or> by = Bare [] then Bare a else by)"

definition normalise_message :: "author_rec \<Rightarrow> legacy_message \<Rightarrow> jstr \<Rightarrow> nat \<Rightarrow> message" where
  "normalise_message me m threadId index =
     (let r = author_record me (by_or_author (lBy m) (lAuthor m))
      in \<lparr>mId = or_else (lId m) (derived_message_id threadId index), mAuthor = or_else (lAuthor m) (rname r),
          mAt = lAt m, mBody = lBody m, mBy = r\<rparr>)"

definition set_if :: "'a option \<Rightarrow> 'a \<Rightarrow> 'a" where
  "set_if v old = (case v of Some x \<Rightarrow> x | None \<Rightarrow> old)"

definition legacy_thread :: "author_rec \<Rightarrow> legacy \<Rightarrow> thread" where
  "legacy_thread me t =
     (let b = blank_thread (gId t)
      in b\<lparr>tScope := set_if (gScope t) (tScope b), tQuote := set_if (gQuote t) (tQuote b),
           tOccurrence := set_if (gOccurrence t) (tOccurrence b), tAnchor := gAnchor t,
           tResolved := gResolved t,
           tMessages := map (\<lambda>(m, i). normalise_message me m (gId t) i)
             (zip (gMessages t) [0..<length (gMessages t)]),
           tTasks := gTasks t\<rparr>)"

section \<open>foldOps\<close>

definition message_for :: "author_rec \<Rightarrow> comment_op \<Rightarrow> jstr \<Rightarrow> thread \<Rightarrow> message" where
  "message_for me op i thread =
     (let r = author_record me (oBy op)
      in normalise_message me \<lparr>lId = oMessage op, lAuthor = rname r, lAt = oAt op, lBody = oBody op, lBy = as_value r\<rparr>
           i (length (tMessages thread)))"

definition lookup :: "(jstr \<times> thread) list \<Rightarrow> jstr \<Rightarrow> thread option" where
  "lookup ts i = map_of ts i"

definition base_step :: "author_rec \<Rightarrow> (jstr \<times> thread) list \<Rightarrow> legacy \<Rightarrow> (jstr \<times> thread) list" where
  "base_step me ts t = (if gId t = [] then ts else AList.update (gId t) (legacy_thread me t) ts)"

definition opened :: "author_rec \<Rightarrow> comment_op \<Rightarrow> thread \<Rightarrow> thread" where
  "opened me op t0 =
     (let t1 = t0\<lparr>tScope := set_if (oScope op) (tScope t0), tQuote := set_if (oQuote op) (tQuote t0),
            tOccurrence := set_if (oOccurrence op) (tOccurrence t0),
            tAnchor := (case oAnchor op of Some a \<Rightarrow> Some a | None \<Rightarrow> tAnchor t0)\<rparr>
      in if oBody op = None \<or> oBody op = Some [] then t1
         else t1\<lparr>tMessages := tMessages t1 @ [message_for me op (oThread op) t1]\<rparr>)"

definition open_step :: "author_rec \<Rightarrow> (jstr \<times> thread) list \<Rightarrow> comment_op entry \<Rightarrow> (jstr \<times> thread) list" where
  "open_step me ts e =
     (let op = eOp e
      in if oKind op \<noteq> ''open'' then ts
         else if oThread op = [] then ts
         else AList.update (oThread op)
                (opened me op (set_if (lookup ts (oThread op)) (blank_thread (oThread op)))) ts)"

record folding =
  fThreads :: "(jstr \<times> thread) list"
  fDeleted :: "jstr list"
  fRetracted :: "jstr list"

definition say :: "author_rec \<Rightarrow> comment_op \<Rightarrow> thread \<Rightarrow> thread" where
  "say me op t =
     (if oKind op = ''reply'' then t\<lparr>tMessages := tMessages t @ [message_for me op (oThread op) t]\<rparr>
      else if oKind op = ''resolve'' then t\<lparr>tResolved := True\<rparr>
      else if oKind op = ''reopen'' then t\<lparr>tResolved := False\<rparr>
      else if oKind op = ''task'' \<and> oText op \<noteq> [] then
        t\<lparr>tTasks := tTasks t @ [\<lparr>kText = oText op, kAt = oAt op, kBy = author_record me (oBy op)\<rparr>]\<rparr>
      else t)"

definition say_step :: "author_rec \<Rightarrow> folding \<Rightarrow> comment_op entry \<Rightarrow> folding" where
  "say_step me s e =
     (let op = eOp e; i = oThread op
      in if oKind op = ''open'' then s
         else if i = [] then s
         else
           let s1 = (if oKind op = ''delete'' then s\<lparr>fDeleted := fDeleted s @ [i]\<rparr> else s);
               s2 = (if oKind op = ''retract'' \<and> oMessage op \<noteq> []
                     then s1\<lparr>fRetracted := fRetracted s1 @ [oMessage op]\<rparr> else s1)
           in case lookup (fThreads s) i of
                None \<Rightarrow> s2
              | Some t \<Rightarrow> s2\<lparr>fThreads := AList.update i (say me op t) (fThreads s)\<rparr>)"

definition tombstones :: "folding \<Rightarrow> thread list" where
  "tombstones s =
     map (\<lambda>t. t\<lparr>tMessages := filter (\<lambda>m. mId m \<notin> set (fRetracted s)) (tMessages t)\<rparr>)
       (filter (\<lambda>t. tId t \<notin> set (fDeleted s)) (map snd (fThreads s)))"

definition phase_one :: "author_rec \<Rightarrow> legacy list \<Rightarrow> comment_op entry list \<Rightarrow> (jstr \<times> thread) list" where
  "phase_one me base ordered = foldl (open_step me) (foldl (base_step me) [] base) ordered"

definition phase_two :: "author_rec \<Rightarrow> legacy list \<Rightarrow> comment_op entry list \<Rightarrow> folding" where
  "phase_two me base ordered =
     foldl (say_step me) \<lparr>fThreads = phase_one me base ordered, fDeleted = [], fRetracted = []\<rparr> ordered"

definition fold_ops :: "author_rec \<Rightarrow> legacy list \<Rightarrow> comment_op entry list \<Rightarrow> thread list" where
  "fold_ops me base ops = tombstones (phase_two me base (js_sort compare_ops ops))"

section \<open>The log files\<close>

datatype 'a decoded = Malformed | NotObject | Decoded 'a

type_synonym log_dir = "(jstr \<times> jstr) list"

definition op_party :: "author_value \<Rightarrow> jstr \<Rightarrow> jstr" where
  "op_party by party = (case by of Obj i n k key \<Rightarrow> or_else key party | _ \<Rightarrow> party)"

definition line_entry :: "(jstr \<Rightarrow> comment_op decoded) \<Rightarrow> jstr \<Rightarrow> jstr \<Rightarrow> jstr \<times> nat \<Rightarrow> comment_op entry list" where
  "line_entry decode name party l =
     (let trimmed = js_trim (fst l)
      in if trimmed = [] then []
         else case decode trimmed of
                Malformed \<Rightarrow> [] | NotObject \<Rightarrow> []
              | Decoded op \<Rightarrow>
                  [\<lparr>eOp = op, eFile = name, eParty = op_party (oBy op) party, eLine = snd l,
                    eAt = (case oAt op of Some a \<Rightarrow> a | None \<Rightarrow> [])\<rparr>])"

definition file_entries :: "(jstr \<Rightarrow> comment_op decoded) \<Rightarrow> jstr \<Rightarrow> jstr \<Rightarrow> comment_op entry list" where
  "file_entries decode name text =
     (let party = take (length name - length LOG_SUFFIX) name; lines = split_on LF text
      in concat (map (line_entry decode name party) (zip lines [0..<length lines])))"

definition read_ops :: "(jstr \<Rightarrow> bool) \<Rightarrow> (jstr \<Rightarrow> comment_op decoded) \<Rightarrow> log_dir \<Rightarrow> comment_op entry list" where
  "read_ops readable decode dir =
     concat (map (\<lambda>f. if readable (fst f) then file_entries decode (fst f) (snd f) else [])
       (filter (\<lambda>f. ends_with (fst f) LOG_SUFFIX) dir))"

definition load :: "(jstr \<Rightarrow> bool) \<Rightarrow> (jstr \<Rightarrow> comment_op decoded) \<Rightarrow> author_rec \<Rightarrow> legacy list \<Rightarrow> log_dir \<Rightarrow> thread list" where
  "load readable decode me base dir = fold_ops me base (read_ops readable decode dir)"

definition stamped :: "author_rec \<Rightarrow> jstr \<Rightarrow> comment_op \<Rightarrow> comment_op" where
  "stamped me now op =
     (let op1 = (if oAt op = None \<or> oAt op = Some [] then op\<lparr>oAt := Some now\<rparr> else op)
      in if oBy op1 = NoAuthor \<or> oBy op1 = Bare [] then op1\<lparr>oBy := as_value me\<rparr> else op1)"

definition my_log :: "author_rec \<Rightarrow> jstr" where
  "my_log me = rkey me @ LOG_SUFFIX"

definition append_body :: "jstr \<Rightarrow> jstr \<Rightarrow> jstr" where
  "append_body existing line =
     (if existing \<noteq> [] \<and> \<not> ends_with existing [LF] then existing @ [LF] @ line else existing @ line)"

definition append_op ::
  "(jstr \<Rightarrow> bool) \<Rightarrow> (comment_op \<Rightarrow> jstr) \<Rightarrow> author_rec \<Rightarrow> jstr \<Rightarrow> comment_op \<Rightarrow> log_dir \<Rightarrow> comment_op \<times> log_dir" where
  "append_op readable encode me now op dir =
     (let name = my_log me; r = stamped me now op; line = encode r @ [LF];
          existing = (case map_of dir name of None \<Rightarrow> [] | Some t \<Rightarrow> if readable name then t else [])
      in (r, AList.update name (append_body existing line) dir))"

section \<open>What a surface does\<close>

definition no_op :: comment_op where
  "no_op = \<lparr>oKind = [], oThread = [], oMessage = [], oScope = None, oQuote = None, oOccurrence = None,
     oAnchor = None, oBody = None, oText = [], oAt = None, oBy = NoAuthor\<rparr>"

definition open_op :: "jstr \<Rightarrow> jstr \<Rightarrow> jstr \<Rightarrow> jstr \<Rightarrow> int \<Rightarrow> jstr \<Rightarrow> jstr option \<Rightarrow> comment_op" where
  "open_op fresh_id i sc q occ body anchor =
     no_op\<lparr>oKind := ''open'', oThread := or_else i fresh_id, oScope := Some (or_else sc ''inline''),
       oQuote := Some q, oOccurrence := Some occ, oBody := Some body, oAnchor := anchor\<rparr>"

definition reply_op :: "jstr \<Rightarrow> jstr \<Rightarrow> jstr \<Rightarrow> comment_op" where
  "reply_op messageId i body = no_op\<lparr>oKind := ''reply'', oThread := i, oMessage := messageId, oBody := Some body\<rparr>"

definition resolved_op :: "jstr \<Rightarrow> bool \<Rightarrow> comment_op" where
  "resolved_op i r = no_op\<lparr>oKind := (if r then ''resolve'' else ''reopen''), oThread := i\<rparr>"

definition task_op :: "jstr \<Rightarrow> jstr \<Rightarrow> comment_op" where
  "task_op i txt = no_op\<lparr>oKind := ''task'', oThread := i, oText := txt\<rparr>"

definition delete_op :: "jstr \<Rightarrow> comment_op" where
  "delete_op i = no_op\<lparr>oKind := ''delete'', oThread := i\<rparr>"

definition retract_op :: "jstr \<Rightarrow> jstr \<Rightarrow> comment_op" where
  "retract_op i m = no_op\<lparr>oKind := ''retract'', oThread := i, oMessage := m\<rparr>"

definition merge_folded :: "thread list \<Rightarrow> thread list \<Rightarrow> thread list" where
  "merge_folded cur folded =
     folded @ filter (\<lambda>t. tId t \<notin> tId ` set folded \<and> tMessages t = []) cur"

section \<open>The thread map\<close>

definition threads_ok :: "(jstr \<times> thread) list \<Rightarrow> bool" where
  "threads_ok ts = (distinct (map fst ts) \<and> (\<forall>e \<in> set ts. tId (snd e) = fst e \<and> fst e \<noteq> []))"

lemma set_AList_update: "e \<in> set (AList.update k v xs) \<Longrightarrow> e = (k, v) \<or> e \<in> set xs"
  by (induction xs) (auto split: if_splits)

lemma threads_ok_update:
  "threads_ok ts \<Longrightarrow> k \<noteq> [] \<Longrightarrow> tId t = k \<Longrightarrow> threads_ok (AList.update k t ts)"
  by (auto simp: threads_ok_def distinct_update dest!: set_AList_update)

lemma threads_ok_lookup: "threads_ok ts \<Longrightarrow> lookup ts i = Some t \<Longrightarrow> tId t = i \<and> i \<noteq> []"
  by (auto simp: threads_ok_def lookup_def dest!: map_of_SomeD)

lemma lookup_update: "lookup (AList.update k t ts) i = (if i = k then Some t else lookup ts i)"
  by (simp add: lookup_def update_conv')

lemma tId_opened [simp]: "tId (opened me op t) = tId t"
  by (simp add: opened_def Let_def)

lemma tId_say [simp]: "tId (say me op t) = tId t"
  by (simp add: say_def)

lemma tId_legacy [simp]: "tId (legacy_thread me g) = gId g"
  by (simp add: legacy_thread_def blank_thread_def Let_def)

lemma base_ok: "threads_ok ts \<Longrightarrow> threads_ok (foldl (base_step me) ts base)"
  by (induction base arbitrary: ts) (simp_all add: base_step_def threads_ok_update)

lemma open_step_ok: "threads_ok ts \<Longrightarrow> threads_ok (open_step me ts e)"
  using threads_ok_lookup [of ts "oThread (eOp e)"]
  by (auto simp: open_step_def Let_def set_if_def blank_thread_def intro!: threads_ok_update split: option.splits)

lemma opens_ok: "threads_ok ts \<Longrightarrow> threads_ok (foldl (open_step me) ts es)"
  by (induction es arbitrary: ts) (simp_all add: open_step_ok)

lemma phase_one_ok: "threads_ok (phase_one me base es)"
  unfolding phase_one_def by (intro opens_ok base_ok) (simp add: threads_ok_def)

lemma say_step_ok: "threads_ok (fThreads s) \<Longrightarrow> threads_ok (fThreads (say_step me s e))"
  using threads_ok_lookup [of "fThreads s" "oThread (eOp e)"]
  by (auto simp: say_step_def Let_def intro!: threads_ok_update split: option.splits)

lemma says_ok: "threads_ok (fThreads s) \<Longrightarrow> threads_ok (fThreads (foldl (say_step me) s es))"
  by (induction es arbitrary: s) (simp_all add: say_step_ok)

lemma phase_two_ok: "threads_ok (fThreads (phase_two me base es))"
  by (simp add: phase_two_def says_ok phase_one_ok)

section \<open>Who exists\<close>

definition opens :: "jstr \<Rightarrow> comment_op entry \<Rightarrow> bool" where
  "opens i e = (oKind (eOp e) = ''open'' \<and> oThread (eOp e) = i)"

definition exists_in :: "legacy list \<Rightarrow> comment_op entry list \<Rightarrow> jstr \<Rightarrow> bool" where
  "exists_in base ops i = (i \<noteq> [] \<and> ((\<exists>g \<in> set base. gId g = i) \<or> (\<exists>e \<in> set ops. opens i e)))"

lemma base_step_domain:
  "lookup (base_step me ts g) i \<noteq> None \<longleftrightarrow> (lookup ts i \<noteq> None \<or> gId g \<noteq> [] \<and> gId g = i)"
  by (simp add: base_step_def lookup_update)

lemma base_domain:
  "lookup (foldl (base_step me) ts base) i \<noteq> None \<longleftrightarrow>
   (lookup ts i \<noteq> None \<or> i \<noteq> [] \<and> (\<exists>g \<in> set base. gId g = i))"
proof (induction base arbitrary: ts)
  case (Cons g base)
  show ?case
    unfolding foldl.simps Cons.IH base_step_domain by auto
qed simp

lemma open_step_domain:
  "lookup (open_step me ts e) i \<noteq> None \<longleftrightarrow> (lookup ts i \<noteq> None \<or> i \<noteq> [] \<and> opens i e)"
  by (auto simp: open_step_def lookup_update opens_def Let_def)

lemma opens_domain:
  "lookup (foldl (open_step me) ts es) i \<noteq> None \<longleftrightarrow> (lookup ts i \<noteq> None \<or> i \<noteq> [] \<and> (\<exists>e \<in> set es. opens i e))"
proof (induction es arbitrary: ts)
  case (Cons e es)
  show ?case
    unfolding foldl.simps Cons.IH open_step_domain by auto
qed simp

lemma phase_one_domain: "lookup (phase_one me base es) i \<noteq> None \<longleftrightarrow> exists_in base es i"
  unfolding phase_one_def opens_domain base_domain by (auto simp: exists_in_def lookup_def)

lemma say_step_domain: "lookup (fThreads (say_step me s e)) i = None \<longleftrightarrow> lookup (fThreads s) i = None"
  by (auto simp: say_step_def lookup_update Let_def split: option.splits)

lemma says_domain: "lookup (fThreads (foldl (say_step me) s es)) i = None \<longleftrightarrow> lookup (fThreads s) i = None"
  by (induction es arbitrary: s) (simp_all add: say_step_domain)

lemma phase_two_domain: "lookup (fThreads (phase_two me base es)) i \<noteq> None \<longleftrightarrow> exists_in base es i"
  using phase_one_domain by (simp add: phase_two_def says_domain)

section \<open>Tombstones\<close>

definition deletes :: "jstr \<Rightarrow> comment_op entry \<Rightarrow> bool" where
  "deletes i e = (oKind (eOp e) = ''delete'' \<and> oThread (eOp e) = i \<and> i \<noteq> [])"

definition retracts :: "jstr \<Rightarrow> comment_op entry \<Rightarrow> bool" where
  "retracts m e = (oKind (eOp e) = ''retract'' \<and> oThread (eOp e) \<noteq> [] \<and> oMessage (eOp e) = m \<and> m \<noteq> [])"

lemma say_step_stones:
  "i \<in> set (fDeleted (say_step me s e)) \<longleftrightarrow> i \<in> set (fDeleted s) \<or> deletes i e"
  "m \<in> set (fRetracted (say_step me s e)) \<longleftrightarrow> m \<in> set (fRetracted s) \<or> retracts m e"
  by (auto simp: say_step_def Let_def deletes_def retracts_def split: option.splits)

lemma says_stones:
  "i \<in> set (fDeleted (foldl (say_step me) s es)) \<longleftrightarrow> i \<in> set (fDeleted s) \<or> (\<exists>e \<in> set es. deletes i e)"
  "m \<in> set (fRetracted (foldl (say_step me) s es)) \<longleftrightarrow> m \<in> set (fRetracted s) \<or> (\<exists>e \<in> set es. retracts m e)"
  by (induction es arbitrary: s) (auto simp: say_step_stones)

lemma phase_two_stones:
  "i \<in> set (fDeleted (phase_two me base es)) \<longleftrightarrow> (\<exists>e \<in> set es. deletes i e)"
  "m \<in> set (fRetracted (phase_two me base es)) \<longleftrightarrow> (\<exists>e \<in> set es. retracts m e)"
  by (simp_all add: phase_two_def says_stones)

lemma fold_ops_thread:
  assumes "t \<in> set (fold_ops me base ops)"
  shows "exists_in base ops (tId t) \<and> \<not> (\<exists>e \<in> set ops. deletes (tId t) e) \<and>
    (\<forall>m \<in> set (tMessages t). \<not> (\<exists>e \<in> set ops. retracts (mId m) e))"
proof -
  let ?s = "phase_two me base (js_sort compare_ops ops)"
  obtain k u where u: "(k, u) \<in> set (fThreads ?s)" "tId u \<notin> set (fDeleted ?s)"
      "t = u\<lparr>tMessages := filter (\<lambda>m. mId m \<notin> set (fRetracted ?s)) (tMessages u)\<rparr>"
    using assms by (auto simp: fold_ops_def tombstones_def)
  have "lookup (fThreads ?s) (tId u) \<noteq> None"
    using u(1) phase_two_ok [of me base "js_sort compare_ops ops"]
    by (force simp: threads_ok_def lookup_def map_of_eq_None_iff)
  then have "exists_in base (js_sort compare_ops ops) (tId u)"
    unfolding phase_two_domain .
  then have "exists_in base ops (tId t)"
    using u(3) by (simp add: exists_in_def)
  then show ?thesis
    using u(2,3) by (auto simp: phase_two_stones)
qed

lemma fold_ops_has:
  assumes "exists_in base ops i" and "\<not> (\<exists>e \<in> set ops. deletes i e)"
  obtains u t where "lookup (fThreads (phase_two me base (js_sort compare_ops ops))) i = Some u"
    and "t \<in> set (fold_ops me base ops)" and "tId t = i"
    and "tMessages t = filter (\<lambda>m. \<not> (\<exists>e \<in> set ops. retracts (mId m) e)) (tMessages u)"
    and "tResolved t = tResolved u"
proof -
  let ?s = "phase_two me base (js_sort compare_ops ops)"
  obtain u where u: "lookup (fThreads ?s) i = Some u"
    using assms(1) phase_two_domain [of me base "js_sort compare_ops ops" i] by (auto simp: exists_in_def)
  have ui: "tId u = i"
    using threads_ok_lookup [OF phase_two_ok u] by simp
  let ?t = "u\<lparr>tMessages := filter (\<lambda>m. mId m \<notin> set (fRetracted ?s)) (tMessages u)\<rparr>"
  have m: "u \<in> snd ` set (fThreads ?s)"
    using u by (force simp: lookup_def dest: map_of_SomeD)
  have d: "tId u \<notin> set (fDeleted ?s)"
    using assms(2) ui by (simp add: phase_two_stones)
  have "u \<in> set (filter (\<lambda>t. tId t \<notin> set (fDeleted ?s)) (map snd (fThreads ?s)))"
    using m d by (simp del: set_filter) simp
  then have "?t \<in> set (fold_ops me base ops)"
    unfolding fold_ops_def tombstones_def set_map by (rule imageI)
  then show thesis
    by (rule that [OF u]) (simp_all add: ui phase_two_stones)
qed

section \<open>Nothing said is lost\<close>

definition speaks :: "jstr \<Rightarrow> comment_op \<Rightarrow> bool" where
  "speaks i op = (oThread op = i \<and> i \<noteq> [] \<and>
     (oKind op = ''reply'' \<or> oKind op = ''open'' \<and> oBody op \<noteq> None \<and> oBody op \<noteq> Some []))"

definition spoken :: "author_rec \<Rightarrow> comment_op \<Rightarrow> message \<Rightarrow> bool" where
  "spoken me op m = (mBody m = oBody op \<and> mAt m = oAt op \<and> (oMessage op \<noteq> [] \<longrightarrow> mId m = oMessage op))"

definition holds_msg :: "(jstr \<times> thread) list \<Rightarrow> jstr \<Rightarrow> message \<Rightarrow> bool" where
  "holds_msg ts i m = (\<exists>t. lookup ts i = Some t \<and> m \<in> set (tMessages t))"

lemma spoken_message_for: "spoken me op (message_for me op i t)"
  by (simp add: spoken_def message_for_def normalise_message_def Let_def or_else_def)

lemma opened_keeps: "m \<in> set (tMessages t) \<Longrightarrow> m \<in> set (tMessages (opened me op t))"
  by (simp add: opened_def Let_def)

lemma open_step_keeps: "holds_msg ts i m \<Longrightarrow> holds_msg (open_step me ts e) i m"
  by (auto simp: holds_msg_def open_step_def lookup_update Let_def set_if_def opened_keeps)

lemma opens_keep: "holds_msg ts i m \<Longrightarrow> holds_msg (foldl (open_step me) ts es) i m"
  by (induction es arbitrary: ts) (simp_all add: open_step_keeps)

lemma say_step_keeps: "holds_msg (fThreads s) i m \<Longrightarrow> holds_msg (fThreads (say_step me s e)) i m"
  by (auto simp: holds_msg_def say_step_def lookup_update Let_def say_def split: option.splits)

lemma says_keep: "holds_msg (fThreads s) i m \<Longrightarrow> holds_msg (fThreads (foldl (say_step me) s es)) i m"
  by (induction es arbitrary: s) (simp_all add: say_step_keeps)

lemma opened_speaks:
  "speaks i op \<Longrightarrow> oKind op = ''open'' \<Longrightarrow> \<exists>t1. message_for me op i t1 \<in> set (tMessages (opened me op t))"
  by (auto simp: opened_def Let_def speaks_def)

lemma open_step_speaks:
  assumes "speaks i (eOp e)" and "oKind (eOp e) = ''open''"
  shows "\<exists>m. spoken me (eOp e) m \<and> holds_msg (open_step me ts e) i m"
proof -
  obtain t1 where "message_for me (eOp e) i t1 \<in>
      set (tMessages (opened me (eOp e) (set_if (lookup ts i) (blank_thread i))))"
    using opened_speaks [OF assms] by blast
  then have "holds_msg (open_step me ts e) i (message_for me (eOp e) i t1)"
    using assms by (auto simp: holds_msg_def open_step_def lookup_update speaks_def Let_def)
  then show ?thesis
    using spoken_message_for by blast
qed

lemma opens_speak:
  "e \<in> set es \<Longrightarrow> speaks i (eOp e) \<Longrightarrow> oKind (eOp e) = ''open'' \<Longrightarrow>
   \<exists>m. spoken me (eOp e) m \<and> holds_msg (foldl (open_step me) ts es) i m"
proof (induction es arbitrary: ts)
  case (Cons x es)
  then show ?case
    using open_step_speaks [of i e me ts] opens_keep by (cases "e = x") fastforce+
qed simp

lemma say_step_speaks:
  assumes "speaks i (eOp e)" and "oKind (eOp e) = ''reply''" and "lookup (fThreads s) i = Some t"
  shows "\<exists>m. spoken me (eOp e) m \<and> holds_msg (fThreads (say_step me s e)) i m"
proof -
  have "holds_msg (fThreads (say_step me s e)) i (message_for me (eOp e) i t)"
    using assms by (simp add: holds_msg_def say_step_def lookup_update speaks_def say_def)
  then show ?thesis
    using spoken_message_for by blast
qed

lemma says_speak:
  "e \<in> set es \<Longrightarrow> speaks i (eOp e) \<Longrightarrow> oKind (eOp e) = ''reply'' \<Longrightarrow> lookup (fThreads s) i \<noteq> None \<Longrightarrow>
   \<exists>m. spoken me (eOp e) m \<and> holds_msg (fThreads (foldl (say_step me) s es)) i m"
proof (induction es arbitrary: s)
  case (Cons x es)
  show ?case
  proof (cases "e = x")
    case True
    then show ?thesis
      using Cons.prems say_step_speaks [of i e s _ me] says_keep by fastforce
  next
    case False
    then show ?thesis
      using Cons.prems Cons.IH [of "say_step me s x"] say_step_domain [of me s x i] by auto
  qed
qed simp

lemma phase_two_speaks:
  assumes "e \<in> set es" and "speaks i (eOp e)" and "exists_in base es i"
  shows "\<exists>m. spoken me (eOp e) m \<and> holds_msg (fThreads (phase_two me base es)) i m"
proof (cases "oKind (eOp e) = ''open''")
  case True
  then obtain m where "spoken me (eOp e) m" "holds_msg (phase_one me base es) i m"
    using opens_speak [OF assms(1,2)] unfolding phase_one_def by blast
  then show ?thesis
    using says_keep unfolding phase_two_def by fastforce
next
  case False
  then have "oKind (eOp e) = ''reply''"
    using assms(2) by (simp add: speaks_def)
  then show ?thesis
    unfolding phase_two_def
    by (rule says_speak [OF assms(1,2)]) (use assms(3) phase_one_domain in simp)
qed

lemma fold_ops_speaks:
  assumes "e \<in> set ops" and "speaks i (eOp e)" and "exists_in base ops i"
    and "\<not> (\<exists>d \<in> set ops. deletes i d)"
  shows "\<exists>t \<in> set (fold_ops me base ops). tId t = i \<and>
    (\<exists>m. spoken me (eOp e) m \<and> (m \<in> set (tMessages t) \<or> (\<exists>r \<in> set ops. retracts (mId m) r)))"
proof -
  obtain u t where u: "lookup (fThreads (phase_two me base (js_sort compare_ops ops))) i = Some u"
    and t: "t \<in> set (fold_ops me base ops)" "tId t = i"
      "tMessages t = filter (\<lambda>m. \<not> (\<exists>e \<in> set ops. retracts (mId m) e)) (tMessages u)"
    by (rule fold_ops_has [OF assms(3,4)])
  have "\<exists>m. spoken me (eOp e) m \<and> holds_msg (fThreads (phase_two me base (js_sort compare_ops ops))) i m"
    by (rule phase_two_speaks) (use assms in \<open>simp_all add: exists_in_def\<close>)
  then obtain m where m: "spoken me (eOp e) m" "m \<in> set (tMessages u)"
    using u by (auto simp: holds_msg_def)
  then show ?thesis
    using t by (intro bexI [OF _ t(1)]) auto
qed

section \<open>Resolution\<close>

definition resolution :: "jstr \<Rightarrow> comment_op entry \<Rightarrow> bool" where
  "resolution i e = (oThread (eOp e) = i \<and> i \<noteq> [] \<and> oKind (eOp e) \<in> {''resolve'', ''reopen''})"

definition resolved_now :: "folding \<Rightarrow> jstr \<Rightarrow> bool" where
  "resolved_now s i = (case lookup (fThreads s) i of Some t \<Rightarrow> tResolved t | None \<Rightarrow> False)"

lemma say_step_resolved:
  "lookup (fThreads s) i \<noteq> None \<Longrightarrow>
   resolved_now (say_step me s e) i =
     (if resolution i e then oKind (eOp e) = ''resolve'' else resolved_now s i)"
  by (auto simp: resolved_now_def say_step_def lookup_update resolution_def say_def Let_def split: option.splits)

lemma say_step_some: "lookup (fThreads s) i \<noteq> None \<Longrightarrow> lookup (fThreads (say_step me s e)) i \<noteq> None"
  by (simp only: say_step_domain not_False_eq_True)

lemma says_unresolved:
  "lookup (fThreads s) i \<noteq> None \<Longrightarrow> filter (resolution i) es = [] \<Longrightarrow>
   resolved_now (foldl (say_step me) s es) i = resolved_now s i"
proof (induction es arbitrary: s)
  case (Cons e es)
  then show ?case
    using say_step_some [OF Cons.prems(1)] say_step_resolved [OF Cons.prems(1)]
    by (simp split: if_splits)
qed simp

lemma says_resolved:
  "lookup (fThreads s) i \<noteq> None \<Longrightarrow> filter (resolution i) es \<noteq> [] \<Longrightarrow>
   resolved_now (foldl (say_step me) s es) i = (oKind (eOp (last (filter (resolution i) es))) = ''resolve'')"
proof (induction es arbitrary: s)
  case (Cons e es)
  note d = say_step_some [OF Cons.prems(1), of me e]
  show ?case
  proof (cases "filter (resolution i) es = []")
    case True
    then show ?thesis
      using Cons.prems says_unresolved [OF d True] say_step_resolved [OF Cons.prems(1)]
      by (auto split: if_splits)
  next
    case False
    then show ?thesis
      using Cons.IH [OF d False] by simp
  qed
qed simp

section \<open>Appending\<close>

lemma file_entries_split:
  "file_entries decode name (body @ LF # rest) =
   file_entries decode name body @
   concat (map (line_entry decode name (take (length name - length LOG_SUFFIX) name))
     (zip (split_on LF rest) [length (split_on LF body)..<length (split_on LF body) + length (split_on LF rest)]))"
proof -
  have s: "split_on LF (body @ LF # rest) = split_on LF body @ split_on LF rest"
  proof (induction body)
    case (Cons c body)
    obtain l ls where "split_on LF body = l # ls"
      by (cases "split_on LF body") auto
    with Cons show ?case by simp
  qed simp
  have u: "[0..<length (split_on LF body) + length (split_on LF rest)] =
      [0..<length (split_on LF body)] @ [length (split_on LF body)..<length (split_on LF body) + length (split_on LF rest)]"
    by (rule upt_add_eq_append) simp
  show ?thesis
    unfolding file_entries_def Let_def s length_append u by simp
qed

lemma blank_line [simp]: "line_entry decode name party ([], n) = []"
  by (simp add: line_entry_def)

text \<open>A written line decodes back: what the reader and the writer rely on of JSON.\<close>

definition line_ok :: "(jstr \<Rightarrow> comment_op decoded) \<Rightarrow> (comment_op \<Rightarrow> jstr) \<Rightarrow> comment_op \<Rightarrow> bool" where
  "line_ok decode encode r = (LF \<notin> set (encode r) \<and> js_trim (encode r) \<noteq> [] \<and>
     decode (js_trim (encode r)) = Decoded r)"

definition entry_of :: "jstr \<Rightarrow> comment_op \<Rightarrow> nat \<Rightarrow> comment_op entry" where
  "entry_of name r n = \<lparr>eOp = r, eFile = name,
     eParty = op_party (oBy r) (take (length name - length LOG_SUFFIX) name), eLine = n,
     eAt = (case oAt r of Some a \<Rightarrow> a | None \<Rightarrow> [])\<rparr>"

lemma append_entries:
  assumes "line_ok decode encode r"
  shows "\<exists>n. file_entries decode name (append_body existing (encode r @ [LF])) =
    file_entries decode name existing @ [entry_of name r n]"
proof -
  let ?l = "encode r"
  let ?party = "take (length name - length LOG_SUFFIX) name"
  have l: "split_on LF (?l @ [LF]) = [?l, []]"
    using assms by (simp add: line_ok_def split_on_sep)
  have e: "line_entry decode name ?party (?l, n) = [entry_of name r n]" for n
    using assms by (simp add: line_entry_def line_ok_def entry_of_def)
  have tail: "file_entries decode name (body @ LF # ?l @ [LF]) =
      file_entries decode name body @ [entry_of name r (length (split_on LF body))]" for body
    unfolding file_entries_split l by (simp add: e upt_rec)
  show ?thesis
  proof (cases "existing = []")
    case True
    then show ?thesis
      using l by (intro exI [of _ 0]) (simp add: append_body_def file_entries_def e upt_rec)
  next
    case False
    show ?thesis
    proof (cases "ends_with existing [LF]")
      case True
      then obtain body where t: "existing = body @ [LF]"
        by (auto simp: ends_with_iff)
      have "file_entries decode name (body @ [LF]) = file_entries decode name body"
        using file_entries_split [of decode name body "[]"] by (simp add: upt_rec)
      then show ?thesis
        using tail [of body] t True by (auto simp: append_body_def)
    next
      case f: False
      then show ?thesis
        using tail [of existing] False by (auto simp: append_body_def)
    qed
  qed
qed

section \<open>The directory\<close>

lemma ends_with_suffix [simp]: "ends_with (my_log me) LOG_SUFFIX"
  by (auto simp: my_log_def ends_with_iff)

lemma read_other:
  "f \<noteq> name \<Longrightarrow> map_of (AList.update name body dir) f = map_of dir f"
  by (simp add: update_conv')

lemma read_ops_file:
  "distinct (map fst dir) \<Longrightarrow> e \<in> set (read_ops (\<lambda>_. True) decode dir) \<longleftrightarrow>
   (\<exists>name body. map_of dir name = Some body \<and> ends_with name LOG_SUFFIX \<and>
      e \<in> set (file_entries decode name body))"
  by (auto simp: read_ops_def)

text \<open>Every line of every readable log is listed once, under its own file and line number.\<close>

lemma line_entry_where: "e \<in> set (line_entry decode name party l) \<Longrightarrow> eFile e = name \<and> eLine e = snd l"
  by (auto simp: line_entry_def Let_def split: decoded.splits if_splits)

lemma length_line_entry: "length (line_entry decode name party l) \<le> 1"
  by (simp add: line_entry_def Let_def split: decoded.splits)

lemma op_key_eq: "op_key e = op_key e' \<Longrightarrow> eFile e = eFile e' \<and> eLine e = eLine e'"
  by (simp add: op_key_def)

lemma distinct_map_append:
  "distinct (map f xs) \<Longrightarrow> distinct (map f ys) \<Longrightarrow> (\<And>x y. x \<in> set xs \<Longrightarrow> y \<in> set ys \<Longrightarrow> f x \<noteq> f y) \<Longrightarrow>
   distinct (map f (xs @ ys))"
  by auto

lemma entries_at:
  "distinct (map snd ls) \<Longrightarrow> distinct (map op_key (concat (map (line_entry decode name party) ls)))"
proof (induction ls)
  case (Cons l ls)
  let ?E = "line_entry decode name party"
  have "distinct (map op_key (?E l @ concat (map ?E ls)))"
  proof (rule distinct_map_append)
    show "distinct (map op_key (?E l))"
      using length_line_entry [of decode name party l] by (cases "?E l") auto
    show "distinct (map op_key (concat (map ?E ls)))"
      using Cons by simp
    fix e e'
    assume e: "e \<in> set (?E l)" and "e' \<in> set (concat (map ?E ls))"
    then obtain l' where l': "l' \<in> set ls" "e' \<in> set (?E l')"
      by auto
    have "snd l \<noteq> snd l'"
      using Cons.prems l'(1) by auto
    then show "op_key e \<noteq> op_key e'"
      using line_entry_where [OF e] line_entry_where [OF l'(2)] op_key_eq by metis
  qed
  then show ?case by simp
qed simp

lemma file_entries_distinct: "distinct (map op_key (file_entries decode name body))"
  unfolding file_entries_def Let_def by (rule entries_at) simp

lemma file_entries_file: "e \<in> set (file_entries decode name body) \<Longrightarrow> eFile e = name"
  by (auto simp: file_entries_def Let_def dest!: line_entry_where)

definition file_ops :: "(jstr \<Rightarrow> bool) \<Rightarrow> (jstr \<Rightarrow> comment_op decoded) \<Rightarrow> jstr \<times> jstr \<Rightarrow> comment_op entry list" where
  "file_ops readable decode f =
     (if ends_with (fst f) LOG_SUFFIX \<and> readable (fst f) then file_entries decode (fst f) (snd f) else [])"

lemma read_ops_Cons: "read_ops readable decode (f # dir) = file_ops readable decode f @ read_ops readable decode dir"
  by (simp add: read_ops_def file_ops_def)

lemma file_ops_file: "e \<in> set (file_ops readable decode f) \<Longrightarrow> eFile e = fst f"
  using file_entries_file by (auto simp: file_ops_def split: if_splits)

lemma read_ops_files: "e \<in> set (read_ops readable decode dir) \<Longrightarrow> eFile e \<in> fst ` set dir"
proof (induction dir)
  case (Cons f dir)
  then show ?case
    using file_ops_file [of e readable decode f] by (auto simp: read_ops_Cons)
qed (simp add: read_ops_def)

lemma read_ops_distinct:
  "distinct (map fst dir) \<Longrightarrow> distinct (map op_key (read_ops readable decode dir))"
proof (induction dir)
  case (Cons f dir)
  show ?case
    unfolding read_ops_Cons
  proof (rule distinct_map_append)
    show "distinct (map op_key (file_ops readable decode f))"
      using file_entries_distinct by (simp add: file_ops_def)
    show "distinct (map op_key (read_ops readable decode dir))"
      using Cons by simp
    fix e e'
    assume "e \<in> set (file_ops readable decode f)" and "e' \<in> set (read_ops readable decode dir)"
    then have "eFile e = fst f" and "eFile e' \<in> fst ` set dir"
      by (simp_all add: file_ops_file read_ops_files)
    then show "op_key e \<noteq> op_key e'"
      using Cons.prems op_key_eq by (metis distinct.simps(2) list.simps(9) list.set_map)
  qed
qed (simp add: read_ops_def)

lemma read_ops_mset:
  "mset dir = mset dir' \<Longrightarrow> mset (read_ops readable decode dir) = mset (read_ops readable decode dir')"
proof -
  have m: "mset (concat (map g xs)) = \<Sum>\<^sub># (image_mset (\<lambda>x. mset (g x)) (mset xs))" for g :: "jstr \<times> jstr \<Rightarrow> comment_op entry list" and xs
    by (induction xs) auto
  show "mset dir = mset dir' \<Longrightarrow> ?thesis"
    unfolding read_ops_def m mset_filter by simp
qed

interpretation comments: sorted_fold "fold_ops me base" "\<lambda>es. tombstones (phase_two me base es)"
  for me :: author_rec and base :: "legacy list"
  by unfold_locales (simp add: fold_ops_def)

lemma load_listing:
  assumes "mset dir = mset dir'" and "distinct (map fst dir)"
  shows "load readable decode me base dir = load readable decode me base dir'"
  unfolding load_def
  by (rule comments.listing_irrelevant)
    (use read_ops_mset [OF assms(1)] read_ops_distinct [OF assms(2)] in \<open>simp add: same_ops_def\<close>)

lemma append_file:
  "map_of dir (my_log me) = Some body \<or> map_of dir (my_log me) = None \<and> body = [] \<Longrightarrow>
   append_op (\<lambda>_. True) encode me now op dir =
     (stamped me now op, AList.update (my_log me) (append_body body (encode (stamped me now op) @ [LF])) dir)"
  by (auto simp: append_op_def Let_def)

text \<open>
  When my log exists but cannot be read, the append starts from an empty body and the
  write replaces the whole file.
\<close>

lemma append_after_failed_read:
  "map_of dir (my_log me) = Some body \<Longrightarrow> \<not> readable (my_log me) \<Longrightarrow>
   map_of (snd (append_op readable encode me now op dir)) (my_log me) = Some (encode (stamped me now op) @ [LF])"
  by (simp add: append_op_def Let_def update_conv' append_body_def)

lemma update_commute:
  "k \<noteq> k' \<Longrightarrow> mset (AList.update k v (AList.update k' v' xs)) = mset (AList.update k' v' (AList.update k v xs))"
  by (induction xs) auto

lemma appends_commute:
  assumes "my_log a \<noteq> my_log b"
  shows "mset (snd (append_op readable encode b nb ob (snd (append_op readable encode a na oa dir)))) =
    mset (snd (append_op readable encode a na oa (snd (append_op readable encode b nb ob dir))))"
  using assms by (simp add: append_op_def Let_def update_conv' update_commute)

lemma append_distinct:
  "distinct (map fst dir) \<Longrightarrow> distinct (map fst (snd (append_op readable encode me now op dir)))"
  by (simp add: append_op_def Let_def distinct_update)

lemma fold_ops_ids: "distinct (map tId (fold_ops me base ops))"
proof -
  let ?s = "phase_two me base (js_sort compare_ops ops)"
  have "map (tId \<circ> snd) (fThreads ?s) = map fst (fThreads ?s)"
    using phase_two_ok [of me base "js_sort compare_ops ops"] by (auto simp: threads_ok_def)
  moreover have "distinct (map fst (fThreads ?s))"
    using phase_two_ok [of me base "js_sort compare_ops ops"] by (simp add: threads_ok_def)
  ultimately have "distinct (map tId (map snd (fThreads ?s)))"
    by (simp only: map_map)
  then have "distinct (map tId (filter (\<lambda>t. tId t \<notin> set (fDeleted ?s)) (map snd (fThreads ?s))))"
    by (rule distinct_map_filter)
  then show ?thesis
    by (simp add: fold_ops_def tombstones_def comp_def)
qed

section \<open>Properties\<close>

text \<open>
  Two clients that hold the same log files read the same threads, whatever the
  order in which their file services list the files and however lines are decoded.
\<close>

theorem load_ignores_listing:
  assumes "mset dir = mset dir'" and "distinct (map fst dir)"
  shows "load readable decode me base dir = load readable decode me base dir'"
  by (rule load_listing [OF assms])



text \<open>
  C10: tombstones are final. A folded thread was opened, is listed once, was deleted by
  no op and holds no message that any op retracted, whatever came after the tombstone.
\<close>

theorem tombstones_are_final:
  "distinct (map tId (fold_ops me base ops)) \<and>
   (t \<in> set (fold_ops me base ops) \<longrightarrow>
      exists_in base ops (tId t) \<and> \<not> (\<exists>e \<in> set ops. deletes (tId t) e) \<and>
      (\<forall>m \<in> set (tMessages t). \<not> (\<exists>e \<in> set ops. retracts (mId m) e)))"
  using fold_ops_ids fold_ops_thread by blast

theorem tombstones_are_final_witness:
  "tId ` set (fold_ops (agent ''codex'' ''Codex'') [] [entry_of ''a'' (delete_op ''c'') 0, entry_of ''a'' (resolved_op ''c'' False) 2,
     entry_of ''b'' (open_op ''c'' [] [] [] 0 ''why?'' None) 0]) \<subseteq> {}"
  (is "tId ` set ?f \<subseteq> {}")
proof
  fix i
  assume "i \<in> tId ` set ?f"
  then obtain t where t: "t \<in> set ?f" "tId t = i" by auto
  show "i \<in> {}"
    using tombstones_are_final [of "agent ''codex'' ''Codex''" "[]" "[entry_of ''a'' (delete_op ''c'') 0,
        entry_of ''a'' (resolved_op ''c'' False) 2, entry_of ''b'' (open_op ''c'' [] [] [] 0 ''why?'' None) 0]" t] t
    by (auto simp: exists_in_def opens_def deletes_def entry_of_def delete_op_def resolved_op_def open_op_def
        no_op_def or_else_def)
qed

text \<open>
  Resolution goes to the last resolve or reopen in the total order, whichever
  file it is in.
\<close>

theorem resolution_last_wins:
  assumes "t \<in> set (fold_ops me base ops)"
    and "filter (resolution (tId t)) (js_sort compare_ops ops) \<noteq> []"
  shows "tResolved t \<longleftrightarrow>
    oKind (eOp (last (filter (resolution (tId t)) (js_sort compare_ops ops)))) = ''resolve''"
proof -
  let ?es = "js_sort compare_ops ops"
  note w = fold_ops_thread [OF assms(1)]
  obtain u t' where u: "lookup (fThreads (phase_two me base ?es)) (tId t) = Some u"
    and t': "t' \<in> set (fold_ops me base ops)" "tId t' = tId t" "tResolved t' = tResolved u"
    by (rule fold_ops_has [of base ops "tId t"]) (use w in auto)
  have "t' = t"
    using fold_ops_ids t'(1,2) assms(1) by (metis distinct_map inj_onD)
  moreover have "lookup (phase_one me base ?es) (tId t) \<noteq> None"
    using w unfolding phase_one_domain by (simp add: exists_in_def)
  then have "resolved_now (phase_two me base ?es) (tId t) =
      (oKind (eOp (last (filter (resolution (tId t)) ?es))) = ''resolve'')"
    unfolding phase_two_def by (intro says_resolved assms(2)) simp
  ultimately show ?thesis
    using u t'(3) by (simp add: resolved_now_def)
qed

text \<open>
  Parties cannot lose each other's writes. An append touches no file but the
  author's own, adds exactly its op after the ops already in it, even when the last
  write lost its line end, and appends by two parties fold to the same threads in
  either order.
\<close>

theorem append_keeps_others:
  assumes "distinct (map fst dir)" and "my_log a \<noteq> my_log b"
    and "line_ok decode encode (stamped a na oa)"
    and "map_of dir (my_log a) = Some body \<or> map_of dir (my_log a) = None \<and> body = []"
  shows "(f \<noteq> my_log a \<longrightarrow> map_of (snd (append_op (\<lambda>_. True) encode a na oa dir)) f = map_of dir f) \<and>
    (\<exists>n body'. map_of (snd (append_op (\<lambda>_. True) encode a na oa dir)) (my_log a) = Some body' \<and>
       file_entries decode (my_log a) body' =
         file_entries decode (my_log a) body @ [entry_of (my_log a) (stamped a na oa) n]) \<and>
    load (\<lambda>_. True) decode me base
      (snd (append_op (\<lambda>_. True) encode b nb ob (snd (append_op (\<lambda>_. True) encode a na oa dir)))) =
    load (\<lambda>_. True) decode me base
      (snd (append_op (\<lambda>_. True) encode a na oa (snd (append_op (\<lambda>_. True) encode b nb ob dir))))"
proof (intro conjI)
  show "f \<noteq> my_log a \<longrightarrow> map_of (snd (append_op (\<lambda>_. True) encode a na oa dir)) f = map_of dir f"
    by (simp add: append_op_def Let_def update_conv')
  show "\<exists>n body'. map_of (snd (append_op (\<lambda>_. True) encode a na oa dir)) (my_log a) = Some body' \<and>
      file_entries decode (my_log a) body' =
        file_entries decode (my_log a) body @ [entry_of (my_log a) (stamped a na oa) n]"
    using append_entries [OF assms(3), of "my_log a" body]
    by (simp add: append_file [OF assms(4)] update_conv')
  show "load (\<lambda>_. True) decode me base
      (snd (append_op (\<lambda>_. True) encode b nb ob (snd (append_op (\<lambda>_. True) encode a na oa dir)))) =
    load (\<lambda>_. True) decode me base
      (snd (append_op (\<lambda>_. True) encode a na oa (snd (append_op (\<lambda>_. True) encode b nb ob dir))))"
    by (intro load_listing appends_commute append_distinct assms(1,2))
qed

end
