(* ===== verification/Json_Values.thy ===== *)
theory Json_Values
  imports Studio_Prelude
begin

text \<open>
  A decoded JSON value and the readings JavaScript makes of one: a property that may be
  undefined, truthiness, \<open>typeof v === 'string'\<close>, \<open>String(v)\<close>. Numbers are the integers
  these modules store. Equality is \<open>===\<close> on strings, numbers and booleans; no module
  compares two objects.
\<close>

datatype json = JNull | JBool bool | JNum int | JStr jstr | JArr "json list" | JObj "(jstr \<times> json) list"

text \<open>A JavaScript value that may be undefined.\<close>

type_synonym val = "json option"

fun get :: "json \<Rightarrow> jstr \<Rightarrow> val" where
  "get (JObj fs) k = map_of fs k"
| "get v k = None"

fun is_object :: "json \<Rightarrow> bool" where
  "is_object (JObj fs) = True"
| "is_object (JArr xs) = True"
| "is_object v = False"

fun truthy :: "val \<Rightarrow> bool" where
  "truthy None = False"
| "truthy (Some JNull) = False"
| "truthy (Some (JBool b)) = b"
| "truthy (Some (JNum n)) = (n \<noteq> 0)"
| "truthy (Some (JStr s)) = (s \<noteq> [])"
| "truthy (Some v) = True"

text \<open>\<open>a || b\<close>.\<close>

definition or_val :: "val \<Rightarrow> val \<Rightarrow> val" where
  "or_val a b = (if truthy a then a else b)"

abbreviation str :: "jstr \<Rightarrow> val" where
  "str s \<equiv> Some (JStr s)"

definition is_str :: "val \<Rightarrow> jstr list \<Rightarrow> bool" where
  "is_str v ss = (\<exists>s \<in> set ss. v = str s)"

fun elements :: "val \<Rightarrow> json list" where
  "elements (Some (JArr xs)) = xs"
| "elements v = []"

fun is_array :: "val \<Rightarrow> bool" where
  "is_array (Some (JArr xs)) = True"
| "is_array v = False"

definition int_string :: "int \<Rightarrow> jstr" where
  "int_string n = (if n < 0 then CHR ''-'' # to_dec (nat (- n)) else to_dec (nat n))"

text \<open>\<open>String(v)\<close>, also the conversion of a property key.\<close>

fun js_string :: "json \<Rightarrow> jstr" where
  "js_string JNull = ''null''"
| "js_string (JBool b) = (if b then ''true'' else ''false'')"
| "js_string (JNum n) = int_string n"
| "js_string (JStr s) = s"
| "js_string (JArr xs) = join '','' (map (\<lambda>x. if x = JNull then [] else js_string x) xs)"
| "js_string (JObj fs) = ''[object Object]''"

definition key_string :: "val \<Rightarrow> jstr" where
  "key_string v = (case v of None \<Rightarrow> ''undefined'' | Some j \<Rightarrow> js_string j)"

lemma is_str_simps [simp]:
  "is_str None ss = False" "is_str (str s) ss = (s \<in> set ss)" "is_str (Some JNull) ss = False"
  "is_str v [] = False" "is_str v (s # ss) = (v = str s \<or> is_str v ss)"
  by (auto simp: is_str_def)

end
