(* ===== verification/Flow_Log.thy ===== *)
theory Flow_Log
  imports Op_Log Json_Values
begin

text \<open>
  browser/flow-log.js: the vocabulary, the validator and the fold of the project flow's
  op log. An op is a decoded JSON value; a field of the folded state is a value that may
  be undefined, as the code leaves it. Decoding a line is an argument of the parser. The
  theorems are the validator's refusals, the independence from file order, the survival
  of answers that sort before their question, and last-write-wins per field.
\<close>

section \<open>Vocabulary\<close>

definition OP_KINDS :: "jstr list" where
  "OP_KINDS = [''destination'', ''kit'', ''document'', ''ask'', ''answer'', ''unknown'', ''skip'', ''cover'',
     ''assume'', ''resolve-assumption'', ''open-question'', ''close-question'', ''attach'', ''fetch'', ''read'',
     ''classify'', ''requirement'', ''requirement-state'', ''capability'', ''owner'', ''gap'', ''exit'', ''verdict'',
     ''option'', ''gate'', ''unvalidated'', ''handover'', ''retract'']"

definition CREATION_OPS :: "jstr list" where
  "CREATION_OPS = [''ask'', ''assume'', ''open-question'', ''attach'', ''fetch'', ''requirement'', ''capability'',
     ''gap'', ''option'']"

definition TOPIC_STATES :: "jstr list" where
  "TOPIC_STATES = [''answered'', ''assumed'', ''marked-unknown'', ''not-applicable'']"
definition BUCKETS :: "jstr list" where
  "BUCKETS = [''take-as-is'', ''modify'', ''write-ourselves'', ''paper'']"
definition BLOCK_STATES :: "jstr list" where
  "BLOCK_STATES = [''shipped'', ''planned'', ''deprecated'', ''paper'']"
definition EXIT_KINDS :: "jstr list" where
  "EXIT_KINDS = [''workaround'', ''pull-request'', ''propose-to-platform'', ''change-invariant'']"
definition BASES :: "jstr list" where
  "BASES = [''measured'', ''analogous'', ''assumed'']"
definition GATE_STATES :: "jstr list" where
  "GATE_STATES = [''passed'', ''waived'', ''failed'']"
definition ASSUMPTION_STATES :: "jstr list" where
  "ASSUMPTION_STATES = [''confirmed'', ''rejected'', ''carried'']"
definition QUESTION_MAX_LINES :: nat where "QUESTION_MAX_LINES = 2"
definition QUESTION_MAX_CHARS :: nat where "QUESTION_MAX_CHARS = 160"

section \<open>validateOp\<close>

datatype reason =
    NotAnObject | UnknownKind | NoQuestionText | TooManyLines | TooLong | BadOptions | NoQuestionId
  | AnswerNamesNothing | AnswerEmpty | CoverNamesNothing | BadTopicState | AssumptionIncomplete
  | NoConsequence | BadAssumptionState | OwnerNamesNothing | BadBucket | BadBlockState | PaperComposed
  | NoEvidence | ExitNamesNothing | BadExit | NoVerdictText | Percentage | OptionIncomplete | NoBasis
  | GateNamesNothing | BadGateState | AgentWaives | AgentStamps | WaiverNoReason | RequirementIncomplete
  | ReadNamesNothing | ReadNoSummary

datatype check = Pass | Fail reason

fun js_text :: "val \<Rightarrow> jstr" where
  "js_text (Some (JStr s)) = js_trim s"
| "js_text v = []"

definition is_digit :: "char \<Rightarrow> bool" where
  "is_digit c = (c \<in> set ''0123456789'')"

fun digit_percent :: "jstr \<Rightarrow> bool" where
  "digit_percent [] = False"
| "digit_percent (c # r) =
     (is_digit c \<and> starts_with (dropWhile is_space r) ''%'' \<or> digit_percent r)"

fun says_percent :: "jstr \<Rightarrow> bool" where
  "says_percent [] = False"
| "says_percent (c # r) = (starts_with (map js_lower (c # r)) ''percent'' \<or> says_percent r)"

definition check_ask :: "json \<Rightarrow> check" where
  "check_ask op =
     (let body = js_text (get op ''text''); n = length (elements (get op ''options''))
      in if body = [] then Fail NoQuestionText
         else if length (split_on LF body) > QUESTION_MAX_LINES then Fail TooManyLines
         else if length body > QUESTION_MAX_CHARS then Fail TooLong
         else if \<not> is_array (get op ''options'') \<or> n < 2 \<or> n > 4 then Fail BadOptions
         else if \<not> truthy (get op ''q'') then Fail NoQuestionId
         else Pass)"

definition check_owner :: "json \<Rightarrow> check" where
  "check_owner op =
     (let bucket = get op ''bucket''; st = get op ''state'';
          kinds = map (\<lambda>e. if truthy (Some e) then get e ''kind'' else Some e) (elements (get op ''evidence''))
      in if \<not> truthy (get op ''cap'') then Fail OwnerNamesNothing
         else if \<not> is_str bucket BUCKETS then Fail BadBucket
         else if truthy st \<and> \<not> is_str st BLOCK_STATES then Fail BadBlockState
         else if st = str ''paper'' \<and> bucket \<noteq> str ''paper'' then Fail PaperComposed
         else if bucket \<noteq> str ''paper'' \<and> bucket \<noteq> str ''write-ourselves'' \<and>
                 (str ''design'' \<notin> set kinds \<or> str ''registry'' \<notin> set kinds) then Fail NoEvidence
         else Pass)"

definition check_gate :: "json \<Rightarrow> jstr \<Rightarrow> check" where
  "check_gate op actor =
     (let st = get op ''state''; i = get op ''id''
      in if \<not> truthy i then Fail GateNamesNothing
         else if \<not> is_str st GATE_STATES then Fail BadGateState
         else if actor = ''agent'' \<and> st = str ''waived'' then Fail AgentWaives
         else if actor = ''agent'' \<and> (i = str ''G1'' \<or> i = str ''G8'') then Fail AgentStamps
         else if st = str ''waived'' \<and> js_text (get op ''reason'') = [] then Fail WaiverNoReason
         else Pass)"

definition check_verdict :: "json \<Rightarrow> check" where
  "check_verdict op =
     (let body = js_text (get op ''text'')
      in if body = [] then Fail NoVerdictText
         else if digit_percent body \<or> says_percent body then Fail Percentage else Pass)"

definition validate_kind :: "json \<Rightarrow> jstr \<Rightarrow> jstr \<Rightarrow> check" where
  "validate_kind op kind actor =
     (if kind = ''ask'' then check_ask op
      else if kind = ''answer'' then
        (if \<not> truthy (get op ''q'') then Fail AnswerNamesNothing
         else if js_text (get op ''value'') = [] then Fail AnswerEmpty else Pass)
      else if kind = ''cover'' then
        (if \<not> truthy (get op ''topic'') then Fail CoverNamesNothing
         else if \<not> is_str (get op ''state'') TOPIC_STATES then Fail BadTopicState else Pass)
      else if kind = ''assume'' then
        (if \<not> truthy (get op ''id'') \<or> js_text (get op ''text'') = [] then Fail AssumptionIncomplete
         else if js_text (get op ''consequence'') = [] then Fail NoConsequence else Pass)
      else if kind = ''resolve-assumption'' then
        (if \<not> is_str (get op ''state'') ASSUMPTION_STATES then Fail BadAssumptionState else Pass)
      else if kind = ''owner'' then check_owner op
      else if kind = ''exit'' then
        (if \<not> truthy (get op ''gap'') then Fail ExitNamesNothing
         else if \<not> is_str (get op ''kind'') EXIT_KINDS then Fail BadExit else Pass)
      else if kind = ''verdict'' then check_verdict op
      else if kind = ''option'' then
        (if \<not> truthy (get op ''id'') \<or> js_text (get op ''name'') = [] then Fail OptionIncomplete
         else if \<not> is_str (get op ''timeBasis'') BASES \<or> \<not> is_str (get op ''tokensBasis'') BASES then Fail NoBasis
         else Pass)
      else if kind = ''gate'' then check_gate op actor
      else if kind = ''requirement'' then
        (if \<not> truthy (get op ''id'') \<or> js_text (get op ''text'') = [] then Fail RequirementIncomplete else Pass)
      else if kind = ''read'' then
        (if \<not> truthy (get op ''id'') then Fail ReadNamesNothing
         else if js_text (get op ''summary'') = [] then Fail ReadNoSummary else Pass)
      else Pass)"

definition validate_op :: "val \<Rightarrow> jstr \<Rightarrow> check" where
  "validate_op op actor0 =
     (let actor = (if actor0 = [] then ''person'' else actor0)
      in case op of None \<Rightarrow> Fail NotAnObject
         | Some o' \<Rightarrow>
             if \<not> is_object o' then Fail NotAnObject
             else case get o' ''op'' of
                 Some (JStr kind) \<Rightarrow>
                   if kind \<notin> set OP_KINDS then Fail UnknownKind else validate_kind o' kind actor
               | _ \<Rightarrow> Fail UnknownKind)"

section \<open>The folded state\<close>

record question =
  qId :: val
  qTopic :: val
  qPrerequisite :: val
  qText :: val
  qOptions :: val
  qBlocks :: val
  qWhy :: val
  qState :: jstr
  qAskedBy :: val
  qAskedAt :: val
  qValue :: val
  qVia :: val
  qWrote :: val
  qNote :: val
  qAnsweredBy :: val
  qAnsweredAt :: val

record assumption =
  aId :: val
  aText :: val
  aConsequence :: val
  aState :: val
  aResolvedBy :: val
  aAt :: val
  aBy :: val

record open_question =
  nId :: val
  nText :: val
  nBlocks :: val
  nOwner :: val
  nClosed :: bool
  nAnswer :: val
  nAt :: val
  nBy :: val

record source =
  sId :: val
  sPath :: val
  sUrl :: val
  sBelieved :: val
  sRead :: bool
  sSummary :: val
  sFetched :: bool
  sReadBy :: val
  sAt :: val
  sBy :: val

record requirement =
  rId :: val
  rText :: val
  rCriteria :: val
  rCovers :: val
  rComplete :: val
  rAgreed :: val
  rFailing :: val
  rAt :: val
  rBy :: val

record capability =
  pId :: val
  pText :: val
  pAsked :: bool
  pAt :: val
  pBy :: val

record gap =
  gapId :: val
  gapCap :: val
  gapWhy :: val
  gapAt :: val
  gapBy :: val

record option_op =
  tId :: val
  tName :: val
  tTime :: val
  tTimeBasis :: val
  tTokens :: val
  tTokensBasis :: val
  tRisks :: val
  tExcludes :: val
  tAt :: val
  tBy :: val

record owner =
  wCap :: val
  wBucket :: val
  wBlock :: val
  wState :: val
  wEvidence :: val
  wNotOwned :: val
  wRisk :: val
  wAt :: val
  wBy :: val

record exit_record =
  xGap :: val
  xKind :: val
  xOwner :: val
  xNote :: val
  xAt :: val
  xBy :: val

record verdict =
  vLayer :: val
  vText :: val
  vWontDo :: val
  vAt :: val
  vBy :: val

record stamped_value =
  zValue :: val
  zAt :: val
  zBy :: val

record topic =
  kState :: val
  kWhere :: val
  kBlocking :: val
  kAt :: val
  kBy :: val

record gate =
  eState :: val
  eWho :: val
  eReason :: val
  eWhen :: val

record unvalidated =
  uInsert :: val
  uNote :: val
  uAt :: val
  uBy :: val

record handover =
  hExits :: val
  hBlockedBy :: val
  hAt :: val
  hBy :: val

record flow =
  fDestination :: val
  fDestinationBy :: val
  fDestinationAt :: val
  fKit :: "(val \<times> val \<times> val) option"
  fDocuments :: "(jstr \<times> val) list"
  fTopics :: "(jstr \<times> topic) list"
  fPrerequisites :: "(jstr \<times> stamped_value) list"
  fQuestions :: "question list"
  fAssumptions :: "assumption list"
  fOpenQuestions :: "open_question list"
  fSources :: "source list"
  fRequirements :: "requirement list"
  fCapabilities :: "capability list"
  fOwners :: "owner list"
  fGaps :: "gap list"
  fExits :: "exit_record list"
  fVerdicts :: "verdict list"
  fOptions :: "option_op list"
  fGates :: "(jstr \<times> gate) list"
  fUnvalidated :: "unvalidated list"
  fHandover :: handover
  fOps :: nat

definition empty_array :: val where
  "empty_array = Some (JArr [])"

definition empty_state :: flow where
  "empty_state = \<lparr>fDestination = None, fDestinationBy = None, fDestinationAt = None, fKit = None,
     fDocuments = [], fTopics = [], fPrerequisites = [], fQuestions = [], fAssumptions = [],
     fOpenQuestions = [], fSources = [], fRequirements = [], fCapabilities = [], fOwners = [],
     fGaps = [], fExits = [], fVerdicts = [], fOptions = [], fGates = [], fUnvalidated = [],
     fHandover = \<lparr>hExits = empty_array, hBlockedBy = empty_array, hAt = None, hBy = None\<rparr>, fOps = 0\<rparr>"

section \<open>foldOps: creation\<close>

definition push_new :: "('a \<Rightarrow> val) \<Rightarrow> val \<Rightarrow> 'a \<Rightarrow> 'a list \<Rightarrow> 'a list" where
  "push_new key i x xs = (if i \<in> key ` set xs then xs else xs @ [x])"

fun update_first :: "('a \<Rightarrow> val) \<Rightarrow> val \<Rightarrow> ('a \<Rightarrow> 'a) \<Rightarrow> 'a list \<Rightarrow> 'a list" where
  "update_first key i f [] = []"
| "update_first key i f (x # xs) = (if key x = i then f x # xs else x # update_first key i f xs)"

definition by_id :: "('a \<Rightarrow> val) \<Rightarrow> val \<Rightarrow> 'a list \<Rightarrow> 'a option" where
  "by_id key i xs = List.find (\<lambda>x. key x = i) xs"

definition asked_question :: "json \<Rightarrow> question" where
  "asked_question op = \<lparr>qId = get op ''q'', qTopic = get op ''topic'', qPrerequisite = get op ''prerequisite'',
     qText = get op ''text'', qOptions = or_val (get op ''options'') empty_array, qBlocks = get op ''blocks'',
     qWhy = get op ''why'', qState = ''open'', qAskedBy = get op ''by'', qAskedAt = get op ''at'',
     qValue = None, qVia = None, qWrote = None, qNote = None, qAnsweredBy = None, qAnsweredAt = None\<rparr>"

definition made_assumption :: "json \<Rightarrow> assumption" where
  "made_assumption op = \<lparr>aId = get op ''id'', aText = get op ''text'', aConsequence = get op ''consequence'',
     aState = None, aResolvedBy = None, aAt = get op ''at'', aBy = get op ''by''\<rparr>"

definition made_open_question :: "json \<Rightarrow> open_question" where
  "made_open_question op = \<lparr>nId = get op ''id'', nText = get op ''text'', nBlocks = get op ''blocks'',
     nOwner = get op ''owner'', nClosed = False, nAnswer = None, nAt = get op ''at'', nBy = get op ''by''\<rparr>"

definition made_source :: "json \<Rightarrow> bool \<Rightarrow> source" where
  "made_source op fetched = \<lparr>sId = get op ''id'', sPath = get op ''path'', sUrl = get op ''url'',
     sBelieved = get op ''believed'', sRead = False, sSummary = None, sFetched = fetched, sReadBy = None,
     sAt = get op ''at'', sBy = get op ''by''\<rparr>"

definition made_requirement :: "json \<Rightarrow> requirement" where
  "made_requirement op = \<lparr>rId = get op ''id'', rText = get op ''text'',
     rCriteria = or_val (get op ''criteria'') (Some (JObj [])), rCovers = or_val (get op ''covers'') empty_array,
     rComplete = Some (JBool False), rAgreed = Some (JBool False), rFailing = None,
     rAt = get op ''at'', rBy = get op ''by''\<rparr>"

definition made_capability :: "json \<Rightarrow> capability" where
  "made_capability op = \<lparr>pId = get op ''id'', pText = get op ''text'', pAsked = truthy (get op ''asked''),
     pAt = get op ''at'', pBy = get op ''by''\<rparr>"

definition made_gap :: "json \<Rightarrow> gap" where
  "made_gap op = \<lparr>gapId = get op ''id'', gapCap = get op ''cap'', gapWhy = get op ''why'',
     gapAt = get op ''at'', gapBy = get op ''by''\<rparr>"

definition made_option :: "json \<Rightarrow> option_op" where
  "made_option op = \<lparr>tId = get op ''id'', tName = get op ''name'', tTime = get op ''time'',
     tTimeBasis = get op ''timeBasis'', tTokens = get op ''tokens'', tTokensBasis = get op ''tokensBasis'',
     tRisks = or_val (get op ''risks'') empty_array, tExcludes = or_val (get op ''excludes'') empty_array,
     tAt = get op ''at'', tBy = get op ''by''\<rparr>"

definition op_kind :: "json \<Rightarrow> jstr" where
  "op_kind op = (case get op ''op'' of Some (JStr k) \<Rightarrow> k | _ \<Rightarrow> [])"

definition create_step :: "flow \<Rightarrow> json entry \<Rightarrow> flow" where
  "create_step s e =
     (let op = eOp e; kind = op_kind op; i = get op ''id''
      in if kind = ''ask'' then
           s\<lparr>fQuestions := push_new qId (get op ''q'') (asked_question op) (fQuestions s)\<rparr>
         else if kind = ''assume'' then
           s\<lparr>fAssumptions := push_new aId i (made_assumption op) (fAssumptions s)\<rparr>
         else if kind = ''open-question'' then
           s\<lparr>fOpenQuestions := push_new nId i (made_open_question op) (fOpenQuestions s)\<rparr>
         else if kind = ''attach'' \<or> kind = ''fetch'' then
           s\<lparr>fSources := push_new sId i (made_source op (kind = ''fetch'')) (fSources s)\<rparr>
         else if kind = ''requirement'' then
           s\<lparr>fRequirements := push_new rId i (made_requirement op) (fRequirements s)\<rparr>
         else if kind = ''capability'' then
           s\<lparr>fCapabilities := push_new pId i (made_capability op) (fCapabilities s)\<rparr>
         else if kind = ''gap'' then s\<lparr>fGaps := push_new gapId i (made_gap op) (fGaps s)\<rparr>
         else if kind = ''option'' then s\<lparr>fOptions := push_new tId i (made_option op) (fOptions s)\<rparr>
         else s)"

section \<open>foldOps: what is said\<close>

definition defined_or :: "val \<Rightarrow> val \<Rightarrow> val" where
  "defined_or v old = (if v = None then old else v)"

definition own_fields :: "val \<Rightarrow> (jstr \<times> json) list" where
  "own_fields v =
     (case v of Some (JObj fs) \<Rightarrow> fs
      | Some (JArr xs) \<Rightarrow> zip (map to_dec [0..<length xs]) xs
      | Some (JStr s) \<Rightarrow> zip (map to_dec [0..<length s]) (map (\<lambda>c. JStr [c]) s)
      | _ \<Rightarrow> [])"

definition spread :: "val \<Rightarrow> val \<Rightarrow> val" where
  "spread a b = Some (JObj (foldl (\<lambda>fs f. AList.update (fst f) (snd f) fs) (own_fields a) (own_fields b)))"

definition on_answer :: "json \<Rightarrow> flow \<Rightarrow> flow" where
  "on_answer op s =
     (let i = get op ''q''; q = by_id qId i (fQuestions s);
          s1 = s\<lparr>fQuestions := update_first qId i
             (\<lambda>q. q\<lparr>qState := ''answered'', qValue := get op ''value'', qVia := or_val (get op ''via'') (str ''dock''),
                qWrote := get op ''wrote'', qAnsweredBy := get op ''by'', qAnsweredAt := get op ''at''\<rparr>) (fQuestions s)\<rparr>;
          p = or_val (get op ''prerequisite'') (case q of Some r \<Rightarrow> qPrerequisite r | None \<Rightarrow> None)
      in if truthy p
         then s1\<lparr>fPrerequisites := AList.update (key_string p)
                \<lparr>zValue = get op ''value'', zAt = get op ''at'', zBy = get op ''by''\<rparr> (fPrerequisites s1)\<rparr>
         else s1)"

definition on_unknown :: "json \<Rightarrow> flow \<Rightarrow> flow" where
  "on_unknown op s =
     s\<lparr>fQuestions := update_first qId (get op ''q'')
        (\<lambda>q. q\<lparr>qState := ''unknown'', qNote := get op ''note'', qAnsweredBy := get op ''by'',
           qAnsweredAt := get op ''at''\<rparr>) (fQuestions s)\<rparr>"

definition on_skip :: "json \<Rightarrow> flow \<Rightarrow> flow" where
  "on_skip op s =
     s\<lparr>fQuestions := update_first qId (get op ''q'') (\<lambda>q. q\<lparr>qState := ''skipped''\<rparr>) (fQuestions s)\<rparr>"

definition on_requirement_state :: "json \<Rightarrow> requirement \<Rightarrow> requirement" where
  "on_requirement_state op r =
     (let r1 = r\<lparr>rComplete := defined_or (get op ''complete'') (rComplete r),
            rAgreed := defined_or (get op ''agreed'') (rAgreed r),
            rFailing := defined_or (get op ''failing'') (rFailing r)\<rparr>
      in if truthy (get op ''criteria'')
         then r1\<lparr>rCriteria := spread (rCriteria r1) (get op ''criteria'')\<rparr> else r1)"

definition new_owner :: "val \<Rightarrow> owner" where
  "new_owner cap = \<lparr>wCap = cap, wBucket = None, wBlock = None, wState = None, wEvidence = empty_array,
     wNotOwned = empty_array, wRisk = empty_array, wAt = None, wBy = None\<rparr>"

definition assign_owner :: "json \<Rightarrow> owner \<Rightarrow> owner" where
  "assign_owner op r =
     r\<lparr>wBucket := defined_or (get op ''bucket'') (wBucket r), wBlock := defined_or (get op ''block'') (wBlock r),
       wState := defined_or (get op ''state'') (wState r),
       wEvidence := defined_or (get op ''evidence'') (wEvidence r),
       wNotOwned := defined_or (get op ''notOwned'') (wNotOwned r), wRisk := defined_or (get op ''risk'') (wRisk r),
       wAt := defined_or (get op ''at'') (wAt r), wBy := defined_or (get op ''by'') (wBy r)\<rparr>"

definition on_owner :: "json \<Rightarrow> flow \<Rightarrow> flow" where
  "on_owner op s =
     (let cap = get op ''cap''
      in s\<lparr>fOwners := (if cap \<in> wCap ` set (fOwners s)
              then update_first wCap cap (assign_owner op) (fOwners s)
              else fOwners s @ [assign_owner op (new_owner cap)]),
           fCapabilities := update_first pId cap (\<lambda>c. c\<lparr>pAsked := True\<rparr>) (fCapabilities s)\<rparr>)"

definition assign_exit :: "json \<Rightarrow> exit_record \<Rightarrow> exit_record" where
  "assign_exit op r =
     r\<lparr>xKind := defined_or (get op ''kind'') (xKind r), xOwner := defined_or (get op ''owner'') (xOwner r),
       xNote := defined_or (get op ''note'') (xNote r), xAt := defined_or (get op ''at'') (xAt r),
       xBy := defined_or (get op ''by'') (xBy r)\<rparr>"

definition on_exit :: "json \<Rightarrow> flow \<Rightarrow> flow" where
  "on_exit op s =
     (let g = get op ''gap''
      in s\<lparr>fExits := (if g \<in> xGap ` set (fExits s) then update_first xGap g (assign_exit op) (fExits s)
            else fExits s @ [assign_exit op
              \<lparr>xGap = g, xKind = None, xOwner = None, xNote = None, xAt = None, xBy = None\<rparr>])\<rparr>)"

definition assign_verdict :: "json \<Rightarrow> verdict \<Rightarrow> verdict" where
  "assign_verdict op r =
     r\<lparr>vText := defined_or (get op ''text'') (vText r), vWontDo := defined_or (get op ''wontDo'') (vWontDo r),
       vAt := defined_or (get op ''at'') (vAt r), vBy := defined_or (get op ''by'') (vBy r)\<rparr>"

definition on_verdict :: "json \<Rightarrow> flow \<Rightarrow> flow" where
  "on_verdict op s =
     (let l = get op ''layer''
      in s\<lparr>fVerdicts := (if l \<in> vLayer ` set (fVerdicts s)
            then update_first vLayer l (assign_verdict op) (fVerdicts s)
            else fVerdicts s @ [assign_verdict op
              \<lparr>vLayer = l, vText = None, vWontDo = empty_array, vAt = None, vBy = None\<rparr>])\<rparr>)"

definition on_gate :: "json \<Rightarrow> flow \<Rightarrow> flow" where
  "on_gate op s =
     (let by = get op ''by'';
          name = (case by of Some b \<Rightarrow> (if truthy by then get b ''name'' else by) | None \<Rightarrow> None)
      in s\<lparr>fGates := AList.update (key_string (get op ''id''))
            \<lparr>eState = get op ''state'', eWho = or_val name (get op ''who''), eReason = get op ''reason'',
              eWhen = get op ''at''\<rparr> (fGates s)\<rparr>)"

definition on_cover :: "json \<Rightarrow> flow \<Rightarrow> flow" where
  "on_cover op s =
     s\<lparr>fTopics := AList.update (key_string (get op ''topic''))
        \<lparr>kState = get op ''state'', kWhere = get op ''where'', kBlocking = get op ''blocking'',
          kAt = get op ''at'', kBy = get op ''by''\<rparr> (fTopics s)\<rparr>"

definition on_read :: "json \<Rightarrow> source \<Rightarrow> source" where
  "on_read op r = r\<lparr>sRead := True, sSummary := get op ''summary'', sReadBy := get op ''by''\<rparr>"

definition say_kind :: "json \<Rightarrow> flow \<Rightarrow> flow" where
  "say_kind op s =
     (let kind = op_kind op; i = get op ''id''
      in if kind = ''destination'' then
           s\<lparr>fDestination := get op ''value'', fDestinationBy := get op ''by'', fDestinationAt := get op ''at''\<rparr>
         else if kind = ''kit'' then s\<lparr>fKit := Some (get op ''name'', get op ''via'', get op ''path'')\<rparr>
         else if kind = ''document'' then
           s\<lparr>fDocuments := AList.update (key_string (get op ''role'')) (get op ''path'') (fDocuments s)\<rparr>
         else if kind = ''answer'' then on_answer op s
         else if kind = ''unknown'' then on_unknown op s
         else if kind = ''skip'' then on_skip op s
         else if kind = ''cover'' then on_cover op s
         else if kind = ''resolve-assumption'' then
           s\<lparr>fAssumptions := update_first aId i
              (\<lambda>a. a\<lparr>aState := get op ''state'', aResolvedBy := get op ''by''\<rparr>) (fAssumptions s)\<rparr>
         else if kind = ''close-question'' then
           s\<lparr>fOpenQuestions := update_first nId i
              (\<lambda>q. q\<lparr>nClosed := True, nAnswer := get op ''answer''\<rparr>) (fOpenQuestions s)\<rparr>
         else if kind = ''read'' then s\<lparr>fSources := update_first sId i (on_read op) (fSources s)\<rparr>
         else if kind = ''classify'' then
           s\<lparr>fSources := update_first sId i (\<lambda>r. r\<lparr>sBelieved := get op ''believed''\<rparr>) (fSources s)\<rparr>
         else if kind = ''requirement-state'' then
           s\<lparr>fRequirements := update_first rId i (on_requirement_state op) (fRequirements s)\<rparr>
         else if kind = ''owner'' then on_owner op s
         else if kind = ''exit'' then on_exit op s
         else if kind = ''verdict'' then on_verdict op s
         else if kind = ''gate'' then on_gate op s
         else if kind = ''unvalidated'' then
           s\<lparr>fUnvalidated := push_new uInsert (get op ''insert'')
              \<lparr>uInsert = get op ''insert'', uNote = get op ''note'', uAt = get op ''at'', uBy = get op ''by''\<rparr>
              (fUnvalidated s)\<rparr>
         else if kind = ''handover'' then
           s\<lparr>fHandover := \<lparr>hExits = or_val (get op ''exits'') empty_array,
              hBlockedBy = or_val (get op ''blockedBy'') empty_array, hAt = get op ''at'', hBy = get op ''by''\<rparr>\<rparr>
         else s)"

definition flow_step :: "flow \<times> val list \<Rightarrow> json entry \<Rightarrow> flow \<times> val list" where
  "flow_step sr e =
     (let op = eOp e; s = (fst sr)\<lparr>fOps := fOps (fst sr) + 1\<rparr>
      in if op_kind op \<in> set CREATION_OPS then (s, snd sr)
         else if op_kind op = ''retract'' then
           (s, if truthy (get op ''target'') then snd sr @ [get op ''target''] else snd sr)
         else (say_kind op s, snd sr))"

definition keep :: "('a \<Rightarrow> val) \<Rightarrow> val list \<Rightarrow> 'a list \<Rightarrow> 'a list" where
  "keep key retracted xs = filter (\<lambda>x. key x \<notin> set retracted) xs"

definition withdraw :: "flow \<times> val list \<Rightarrow> flow" where
  "withdraw sr =
     (let s = fst sr; r = snd sr
      in s\<lparr>fQuestions := keep qId r (fQuestions s), fAssumptions := keep aId r (fAssumptions s),
           fOpenQuestions := keep nId r (fOpenQuestions s), fSources := keep sId r (fSources s),
           fRequirements := keep rId r (fRequirements s), fCapabilities := keep pId r (fCapabilities s),
           fGaps := keep gapId r (fGaps s), fOptions := keep tId r (fOptions s),
           fOwners := keep wCap r (fOwners s)\<rparr>)"

definition created :: "json entry list \<Rightarrow> flow" where
  "created ordered = foldl create_step empty_state ordered"

definition said :: "json entry list \<Rightarrow> flow \<times> val list" where
  "said ordered = foldl flow_step (created ordered, []) ordered"

definition fold_flow :: "json entry list \<Rightarrow> flow" where
  "fold_flow entries = withdraw (said (js_sort compare_ops entries))"

section \<open>Files\<close>

definition at_string :: "val \<Rightarrow> jstr" where
  "at_string v = (if truthy v then key_string v else [])"

definition line_party :: "jstr \<Rightarrow> json \<Rightarrow> jstr" where
  "line_party party op =
     (if party \<noteq> [] then party
      else case get op ''by'' of
          Some b \<Rightarrow> (if truthy (Some b) then at_string (get b ''key'') else [])
        | None \<Rightarrow> [])"

text \<open>A line that decodes to null makes the reading of \<open>op.at\<close> throw: None.\<close>

definition parse_line :: "(jstr \<Rightarrow> val) \<Rightarrow> jstr \<Rightarrow> jstr \<Rightarrow> jstr \<times> nat \<Rightarrow> json entry list option" where
  "parse_line decode fileName party l =
     (let trimmed = js_trim (fst l)
      in if trimmed = [] then Some []
         else case decode trimmed of
                None \<Rightarrow> Some []
              | Some JNull \<Rightarrow> None
              | Some op \<Rightarrow> Some [\<lparr>eOp = op, eFile = fileName, eParty = line_party party op, eLine = snd l,
                             eAt = at_string (get op ''at'')\<rparr>])"

fun all_or_throw :: "'a list option list \<Rightarrow> 'a list option" where
  "all_or_throw [] = Some []"
| "all_or_throw (None # r) = None"
| "all_or_throw (Some xs # r) = map_option ((@) xs) (all_or_throw r)"

definition parse_log :: "(jstr \<Rightarrow> val) \<Rightarrow> jstr \<Rightarrow> jstr \<Rightarrow> jstr \<Rightarrow> json entry list option" where
  "parse_log decode fileName body party =
     (let ls = split_on LF body
      in all_or_throw (map (parse_line decode fileName party) (zip ls [0..<length ls])))"

definition party_of :: "jstr \<Rightarrow> jstr" where
  "party_of name = (if ends_with name ''.jsonl'' then take (length name - 6) name else name)"

definition compare_names :: "jstr \<times> jstr \<Rightarrow> jstr \<times> jstr \<Rightarrow> int" where
  "compare_names a b = (if fst a < fst b then -1 else if fst b < fst a then 1 else 0)"

definition fold_files :: "(jstr \<Rightarrow> val) \<Rightarrow> (jstr \<times> jstr) list \<Rightarrow> flow option" where
  "fold_files decode files =
     map_option fold_flow
       (all_or_throw (map (\<lambda>f. parse_log decode (fst f) (snd f) (party_of (fst f))) (js_sort compare_names files)))"

section \<open>Lists of records with an id\<close>

lemma by_id_None: "by_id key i xs = None \<longleftrightarrow> i \<notin> key ` set xs"
  by (auto simp: by_id_def find_None_iff)

lemma by_id_Cons: "by_id key i (x # xs) = (if key x = i then Some x else by_id key i xs)"
  by (simp add: by_id_def)

lemma by_id_Nil [simp]: "by_id key i [] = None"
  by (simp add: by_id_def)

lemma by_id_append: "by_id key i (xs @ ys) = (case by_id key i xs of None \<Rightarrow> by_id key i ys | Some x \<Rightarrow> Some x)"
  by (induction xs) (simp_all add: by_id_Cons)

lemma by_id_key: "by_id key i xs = Some x \<Longrightarrow> key x = i \<and> x \<in> set xs"
  by (auto simp: by_id_def find_Some_iff)

lemma by_id_push_new:
  "key x = i \<Longrightarrow> by_id key j (push_new key i x xs) =
     (if j = i \<and> by_id key i xs = None then Some x else by_id key j xs)"
proof (cases "i \<in> key ` set xs")
  case True
  then have "by_id key i xs \<noteq> None"
    by (simp only: by_id_None not_not)
  with True show ?thesis by (simp add: push_new_def)
next
  case False
  then have "by_id key i xs = None"
    by (simp only: by_id_None not_False_eq_True)
  moreover assume "key x = i"
  ultimately show ?thesis
    using False by (simp add: push_new_def by_id_append by_id_Cons split: option.split)
qed

lemma by_id_update_first:
  "(\<And>x. key (f x) = key x) \<Longrightarrow>
   by_id key j (update_first key i f xs) = (if j = i then map_option f (by_id key i xs) else by_id key j xs)"
  by (induction xs) (auto simp: by_id_Cons)

lemma keys_update_first: "(\<And>x. key (f x) = key x) \<Longrightarrow> map key (update_first key i f xs) = map key xs"
  by (induction xs) auto

lemma distinct_push_new: "key x = i \<Longrightarrow> distinct (map key xs) \<Longrightarrow> distinct (map key (push_new key i x xs))"
  by (auto simp: push_new_def)

lemma keep_mem: "x \<in> set (keep key r xs) \<longleftrightarrow> x \<in> set xs \<and> key x \<notin> set r"
  by (auto simp: keep_def)

section \<open>Questions through the fold\<close>

definition asks :: "val \<Rightarrow> json entry \<Rightarrow> bool" where
  "asks i e = (op_kind (eOp e) = ''ask'' \<and> get (eOp e) ''q'' = i)"

definition status :: "val \<Rightarrow> json entry \<Rightarrow> bool" where
  "status i e = (op_kind (eOp e) \<in> {''answer'', ''unknown'', ''skip''} \<and> get (eOp e) ''q'' = i)"

definition answers :: "val \<Rightarrow> json entry \<Rightarrow> bool" where
  "answers i e = (op_kind (eOp e) = ''answer'' \<and> get (eOp e) ''q'' = i)"

definition status_name :: "json entry \<Rightarrow> jstr" where
  "status_name e = (if op_kind (eOp e) = ''answer'' then ''answered''
     else if op_kind (eOp e) = ''unknown'' then ''unknown'' else ''skipped'')"

lemma qId_asked [simp]: "qId (asked_question op) = get op ''q''"
  by (simp add: asked_question_def)

lemma create_step_question:
  "by_id qId i (fQuestions (create_step s e)) =
     (if asks i e \<and> by_id qId i (fQuestions s) = None then Some (asked_question (eOp e))
      else by_id qId i (fQuestions s))"
  by (simp add: create_step_def Let_def asks_def by_id_push_new)

lemma create_step_distinct:
  "distinct (map qId (fQuestions s)) \<Longrightarrow> distinct (map qId (fQuestions (create_step s e)))"
  by (simp add: create_step_def Let_def distinct_push_new)

lemma created_question:
  "by_id qId i (fQuestions (foldl create_step s es)) =
     (case by_id qId i (fQuestions s) of Some q \<Rightarrow> Some q
      | None \<Rightarrow> (case filter (asks i) es of [] \<Rightarrow> None | e # r \<Rightarrow> Some (asked_question (eOp e))))"
proof (induction es arbitrary: s)
  case (Cons e es)
  show ?case
    unfolding foldl.simps Cons.IH create_step_question by (auto split: option.splits)
qed (simp split: option.splits)

lemma created_distinct:
  "distinct (map qId (fQuestions s)) \<Longrightarrow> distinct (map qId (fQuestions (foldl create_step s es)))"
  by (induction es arbitrary: s) (simp_all add: create_step_distinct)

text \<open>What one op does to the question it names.\<close>

definition tell :: "val \<Rightarrow> json entry \<Rightarrow> question \<Rightarrow> question" where
  "tell i e q =
     (let op = eOp e
      in if get op ''q'' \<noteq> i then q
         else if op_kind op = ''answer'' then
           q\<lparr>qState := ''answered'', qValue := get op ''value'', qVia := or_val (get op ''via'') (str ''dock''),
             qWrote := get op ''wrote'', qAnsweredBy := get op ''by'', qAnsweredAt := get op ''at''\<rparr>
         else if op_kind op = ''unknown'' then
           q\<lparr>qState := ''unknown'', qNote := get op ''note'', qAnsweredBy := get op ''by'', qAnsweredAt := get op ''at''\<rparr>
         else if op_kind op = ''skip'' then q\<lparr>qState := ''skipped''\<rparr> else q)"

lemma say_question_other:
  "op_kind op \<notin> {''answer'', ''unknown'', ''skip''} \<Longrightarrow> fQuestions (say_kind op s) = fQuestions s"
  by (simp add: say_kind_def Let_def on_cover_def on_owner_def on_exit_def on_verdict_def on_gate_def)

lemma fQuestions_answer:
  "fQuestions (on_answer op s) = update_first qId (get op ''q'')
     (\<lambda>q. q\<lparr>qState := ''answered'', qValue := get op ''value'', qVia := or_val (get op ''via'') (str ''dock''),
        qWrote := get op ''wrote'', qAnsweredBy := get op ''by'', qAnsweredAt := get op ''at''\<rparr>) (fQuestions s)"
  by (simp add: on_answer_def Let_def)

lemma tell_other:
  "op_kind (eOp e) \<notin> {''answer'', ''unknown'', ''skip''} \<Longrightarrow> tell i e = (\<lambda>q. q)"
  "get (eOp e) ''q'' \<noteq> i \<Longrightarrow> tell i e = (\<lambda>q. q)"
  by (rule ext, simp add: tell_def Let_def)+

lemma told:
  assumes "\<And>q. f q = tell (get (eOp e) ''q'') e q" and "\<And>q. qId (f q) = qId q"
  shows "by_id qId i (update_first qId (get (eOp e) ''q'') f qs) = map_option (tell i e) (by_id qId i qs) \<and>
    map qId (update_first qId (get (eOp e) ''q'') f qs) = map qId qs"
proof -
  have f: "f = tell (get (eOp e) ''q'') e"
    using assms(1) by (rule ext)
  have "by_id qId i qs = map_option (tell i e) (by_id qId i qs)" if "get (eOp e) ''q'' \<noteq> i"
    by (simp add: tell_other(2) [OF that] option.map_ident)
  then show ?thesis
    using by_id_update_first [of qId f i "get (eOp e) ''q''" qs] keys_update_first [of qId f "get (eOp e) ''q''" qs] assms(2)
    by (auto simp: f)
qed

lemma say_kind_question:
  "by_id qId i (fQuestions (say_kind (eOp e) s)) = map_option (tell i e) (by_id qId i (fQuestions s)) \<and>
   map qId (fQuestions (say_kind (eOp e) s)) = map qId (fQuestions s)"
proof (cases "op_kind (eOp e) \<in> {''answer'', ''unknown'', ''skip''}")
  case False
  then show ?thesis
    by (simp add: say_question_other tell_other(1) [OF False] option.map_ident)
next
  case True
  then consider "op_kind (eOp e) = ''answer''" | "op_kind (eOp e) = ''unknown''" | "op_kind (eOp e) = ''skip''"
    by auto
  then show ?thesis
  proof cases
    case 1
    then have "say_kind (eOp e) s = on_answer (eOp e) s"
      by (simp add: say_kind_def)
    then show ?thesis
      unfolding fQuestions_answer by (simp only: fQuestions_answer, intro told) (simp_all add: tell_def 1 Let_def)
  next
    case 2
    then have "fQuestions (say_kind (eOp e) s) = fQuestions (on_unknown (eOp e) s)"
      by (simp add: say_kind_def)
    also have "\<dots> = update_first qId (get (eOp e) ''q'') (\<lambda>q. q\<lparr>qState := ''unknown'', qNote := get (eOp e) ''note'',
        qAnsweredBy := get (eOp e) ''by'', qAnsweredAt := get (eOp e) ''at''\<rparr>) (fQuestions s)"
      by (simp add: on_unknown_def)
    finally show ?thesis
      by (simp only:, intro told) (simp_all add: tell_def 2 Let_def)
  next
    case 3
    then have "fQuestions (say_kind (eOp e) s) = fQuestions (on_skip (eOp e) s)"
      by (simp add: say_kind_def)
    also have "\<dots> = update_first qId (get (eOp e) ''q'') (\<lambda>q. q\<lparr>qState := ''skipped''\<rparr>) (fQuestions s)"
      by (simp add: on_skip_def)
    finally show ?thesis
      by (simp only:, intro told) (simp_all add: tell_def 3 Let_def)
  qed
qed

lemma flow_step_question:
  "by_id qId i (fQuestions (fst (flow_step sr e))) = map_option (tell i e) (by_id qId i (fQuestions (fst sr))) \<and>
   map qId (fQuestions (fst (flow_step sr e))) = map qId (fQuestions (fst sr))"
proof (cases "op_kind (eOp e) \<in> set CREATION_OPS \<or> op_kind (eOp e) = ''retract''")
  case True
  then have "op_kind (eOp e) \<notin> {''answer'', ''unknown'', ''skip''}"
    by (auto simp: CREATION_OPS_def)
  with True show ?thesis
    by (auto simp: flow_step_def Let_def option.map_ident tell_other(1))
next
  case False
  then show ?thesis
    using say_kind_question [of i e "(fst sr)\<lparr>fOps := fOps (fst sr) + 1\<rparr>"]
    by (simp add: flow_step_def Let_def)
qed

lemma said_question:
  "by_id qId i (fQuestions (fst (foldl flow_step sr es))) =
     map_option (\<lambda>q. foldl (\<lambda>q e. tell i e q) q es) (by_id qId i (fQuestions (fst sr))) \<and>
   map qId (fQuestions (fst (foldl flow_step sr es))) = map qId (fQuestions (fst sr))"
proof (induction es arbitrary: sr)
  case Nil
  show ?case by (simp add: option.map_ident)
next
  case (Cons e es)
  show ?case
    using Cons.IH [of "flow_step sr e"] flow_step_question [of i sr e]
    by (cases "by_id qId i (fQuestions (fst sr))") simp_all
qed

lemma tell_state: "qState (tell i e q) = (if status i e then status_name e else qState q)"
  by (auto simp: tell_def status_def status_name_def Let_def)

lemma tell_value: "qValue (tell i e q) = (if answers i e then get (eOp e) ''value'' else qValue q)"
  by (auto simp: tell_def answers_def Let_def)

lemma qId_tell [simp]: "qId (tell i e q) = qId q"
  by (simp add: tell_def Let_def)

lemma foldl_last:
  "(\<And>e q. F (step e q) = (if P e then G e else F q)) \<Longrightarrow>
   F (foldl (\<lambda>q e. step e q) q es) = (if filter P es = [] then F q else G (last (filter P es)))"
  by (induction es arbitrary: q) auto

lemma qId_tells: "qId (foldl (\<lambda>q e. tell i e q) q es) = qId q"
  by (induction es arbitrary: q) simp_all

section \<open>Retractions\<close>

definition withdraws :: "val \<Rightarrow> json entry \<Rightarrow> bool" where
  "withdraws v e = (op_kind (eOp e) = ''retract'' \<and> get (eOp e) ''target'' = v \<and> truthy v)"

lemma flow_step_retracted: "v \<in> set (snd (flow_step sr e)) \<longleftrightarrow> v \<in> set (snd sr) \<or> withdraws v e"
  by (auto simp: flow_step_def withdraws_def Let_def CREATION_OPS_def)

lemma said_retracted: "v \<in> set (snd (foldl flow_step sr es)) \<longleftrightarrow> v \<in> set (snd sr) \<or> (\<exists>e \<in> set es. withdraws v e)"
  by (induction es arbitrary: sr) (auto simp: flow_step_retracted)

lemma fold_retracted:
  "v \<in> set (snd (said (js_sort compare_ops es))) \<longleftrightarrow> (\<exists>e \<in> set es. withdraws v e)"
  by (simp add: said_def said_retracted)

lemma fold_question:
  assumes "\<exists>e \<in> set ops. asks i e" and "\<not> (\<exists>e \<in> set ops. withdraws i e)"
  shows "\<exists>q \<in> set (fQuestions (fold_flow ops)). qId q = i \<and>
    qState q = (let es = filter (status i) (js_sort compare_ops ops)
                in if es = [] then ''open'' else status_name (last es)) \<and>
    qValue q = (let es = filter (answers i) (js_sort compare_ops ops)
                in if es = [] then None else get (eOp (last es)) ''value'')"
proof -
  let ?es = "js_sort compare_ops ops"
  have "filter (asks i) ?es \<noteq> []"
    using assms(1) by (auto simp: filter_empty_conv)
  then obtain a r where a: "filter (asks i) ?es = a # r"
    by (cases "filter (asks i) ?es") auto
  let ?asked = "asked_question (eOp a)"
  let ?q = "foldl (\<lambda>q e. tell i e q) ?asked ?es"
  have "by_id qId i (fQuestions (created ?es)) = Some ?asked"
    using a by (simp add: created_def created_question empty_state_def)
  then have "by_id qId i (fQuestions (fst (said ?es))) = Some ?q"
    unfolding said_def by (subst said_question [THEN conjunct1]) simp
  then have q: "?q \<in> set (fQuestions (fst (said ?es)))" "qId ?q = i"
    using by_id_key by (metis, metis)
  then have "?q \<in> set (fQuestions (fold_flow ops))"
    using assms(2) by (simp add: fold_flow_def withdraw_def Let_def keep_mem fold_retracted)
  moreover have "qState ?q = (if filter (status i) ?es = [] then qState ?asked else status_name (last (filter (status i) ?es)))"
    by (rule foldl_last) (rule tell_state)
  moreover have "qValue ?q = (if filter (answers i) ?es = [] then qValue ?asked else get (eOp (last (filter (answers i) ?es))) ''value'')"
    by (rule foldl_last) (rule tell_value)
  ultimately show ?thesis
    using q(2) by (intro bexI [of _ ?q]) (simp_all add: asked_question_def Let_def)
qed

section \<open>Owners per field\<close>

definition owns :: "val \<Rightarrow> json entry \<Rightarrow> bool" where
  "owns c e = (op_kind (eOp e) = ''owner'' \<and> get (eOp e) ''cap'' = c)"

text \<open>The last value any of the ops gives a field, or the initial one.\<close>

definition last_given :: "jstr \<Rightarrow> val \<Rightarrow> json entry list \<Rightarrow> val" where
  "last_given k v es =
     (let gs = filter (\<lambda>e. get (eOp e) k \<noteq> None) es in if gs = [] then v else get (eOp (last gs)) k)"

lemma last_given_fold: "foldl (\<lambda>v e. defined_or (get (eOp e) k) v) v es = last_given k v es"
proof (induction es arbitrary: v)
  case (Cons e es)
  then show ?case
    by (auto simp: last_given_def defined_or_def Let_def)
qed (simp add: last_given_def)

lemma wCap_assign [simp]: "wCap (assign_owner op w) = wCap w"
  by (simp add: assign_owner_def)

lemma fOwners_other: "op_kind op \<noteq> ''owner'' \<Longrightarrow> fOwners (say_kind op s) = fOwners s"
  by (simp add: say_kind_def Let_def on_cover_def on_answer_def on_unknown_def on_skip_def on_exit_def
      on_verdict_def on_gate_def)

lemma on_owner_by_id:
  "by_id wCap c (fOwners (on_owner op s)) =
     (if get op ''cap'' = c
      then Some (assign_owner op (case by_id wCap c (fOwners s) of Some w \<Rightarrow> w | None \<Rightarrow> new_owner c))
      else by_id wCap c (fOwners s))"
proof (cases "get op ''cap'' \<in> wCap ` set (fOwners s)")
  case True
  then have "by_id wCap (get op ''cap'') (fOwners s) \<noteq> None"
    by (simp add: by_id_None)
  with True show ?thesis
    by (auto simp: on_owner_def Let_def by_id_update_first)
next
  case False
  then have "by_id wCap (get op ''cap'') (fOwners s) = None"
    by (simp add: by_id_None)
  with False show ?thesis
    by (auto simp: on_owner_def Let_def by_id_append by_id_Cons new_owner_def split: option.splits)
qed

lemma flow_step_owner:
  "by_id wCap c (fOwners (fst (flow_step sr e))) =
     (if owns c e
      then Some (assign_owner (eOp e) (case by_id wCap c (fOwners (fst sr)) of Some w \<Rightarrow> w | None \<Rightarrow> new_owner c))
      else by_id wCap c (fOwners (fst sr)))"
proof (cases "op_kind (eOp e) = ''owner''")
  case True
  then have "say_kind (eOp e) s = on_owner (eOp e) s" for s
    by (simp add: say_kind_def)
  with True show ?thesis
    by (simp add: flow_step_def Let_def CREATION_OPS_def owns_def on_owner_by_id)
next
  case False
  then show ?thesis
    by (simp add: flow_step_def Let_def fOwners_other owns_def)
qed

lemma said_owner:
  "by_id wCap c (fOwners (fst (foldl flow_step sr es))) =
     (if filter (owns c) es = [] then by_id wCap c (fOwners (fst sr))
      else Some (foldl (\<lambda>w e. assign_owner (eOp e) w)
        (case by_id wCap c (fOwners (fst sr)) of Some w \<Rightarrow> w | None \<Rightarrow> new_owner c) (filter (owns c) es)))"
proof (induction es arbitrary: sr)
  case (Cons e es)
  show ?case
    unfolding foldl.simps Cons.IH flow_step_owner by simp
qed simp

lemma fOwners_created: "fOwners (foldl create_step s es) = fOwners s"
  by (induction es arbitrary: s) (simp_all add: create_step_def Let_def)

lemma assign_fold:
  "wRisk (foldl (\<lambda>w e. assign_owner (eOp e) w) w es) = last_given ''risk'' (wRisk w) es"
  "wBucket (foldl (\<lambda>w e. assign_owner (eOp e) w) w es) = last_given ''bucket'' (wBucket w) es"
  "wBlock (foldl (\<lambda>w e. assign_owner (eOp e) w) w es) = last_given ''block'' (wBlock w) es"
  "wState (foldl (\<lambda>w e. assign_owner (eOp e) w) w es) = last_given ''state'' (wState w) es"
  "wEvidence (foldl (\<lambda>w e. assign_owner (eOp e) w) w es) = last_given ''evidence'' (wEvidence w) es"
  "wNotOwned (foldl (\<lambda>w e. assign_owner (eOp e) w) w es) = last_given ''notOwned'' (wNotOwned w) es"
  "wCap (foldl (\<lambda>w e. assign_owner (eOp e) w) w es) = wCap w"
  unfolding last_given_fold [symmetric]
  by (induction es arbitrary: w) (simp_all add: assign_owner_def)

lemma fold_owner:
  assumes "\<exists>e \<in> set ops. owns c e" and "\<not> (\<exists>e \<in> set ops. withdraws c e)"
  shows "\<exists>w \<in> set (fOwners (fold_flow ops)). wCap w = c \<and>
    (let es = filter (owns c) (js_sort compare_ops ops)
     in wRisk w = last_given ''risk'' empty_array es \<and> wBucket w = last_given ''bucket'' None es \<and>
        wBlock w = last_given ''block'' None es \<and> wState w = last_given ''state'' None es \<and>
        wEvidence w = last_given ''evidence'' empty_array es \<and>
        wNotOwned w = last_given ''notOwned'' empty_array es)"
proof -
  let ?es = "js_sort compare_ops ops"
  let ?w = "foldl (\<lambda>w e. assign_owner (eOp e) w) (new_owner c) (filter (owns c) ?es)"
  have "filter (owns c) ?es \<noteq> []"
    using assms(1) by (auto simp: filter_empty_conv)
  then have "by_id wCap c (fOwners (fst (said ?es))) = Some ?w"
    by (simp add: said_def said_owner created_def fOwners_created empty_state_def)
  then have w: "?w \<in> set (fOwners (fst (said ?es)))" "wCap ?w = c"
    using by_id_key by (metis, metis)
  then have "?w \<in> set (fOwners (fold_flow ops))"
    using assms(2) by (simp add: fold_flow_def withdraw_def Let_def keep_mem fold_retracted)
  then show ?thesis
    using w(2) by (intro bexI [of _ ?w]) (simp_all add: assign_fold Let_def new_owner_def)
qed

section \<open>The validator\<close>

lemma validated:
  assumes "validate_op (Some op) actor = Pass"
  shows "is_object op \<and> op_kind op \<in> set OP_KINDS \<and>
    validate_kind op (op_kind op) (if actor = [] then ''person'' else actor) = Pass"
proof (cases "get op ''op''")
  case None
  then show ?thesis using assms by (simp add: validate_op_def Let_def split: if_splits)
next
  case (Some v)
  then show ?thesis
    using assms by (cases v) (simp_all add: validate_op_def Let_def op_kind_def split: if_splits)
qed

lemma validated_kind:
  assumes "validate_op (Some op) actor = Pass"
  shows "op_kind op = ''gate'' \<Longrightarrow> check_gate op (if actor = [] then ''person'' else actor) = Pass"
    and "op_kind op = ''owner'' \<Longrightarrow> check_owner op = Pass"
    and "op_kind op = ''ask'' \<Longrightarrow> check_ask op = Pass"
    and "op_kind op = ''verdict'' \<Longrightarrow> check_verdict op = Pass"
  using validated [OF assms] by (simp_all add: validate_kind_def)

lemma gate_passes:
  "check_gate op actor = Pass \<Longrightarrow>
   truthy (get op ''id'') \<and> is_str (get op ''state'') GATE_STATES \<and>
   (get op ''state'' = str ''waived'' \<longrightarrow> actor \<noteq> ''agent'' \<and> js_text (get op ''reason'') \<noteq> []) \<and>
   (actor = ''agent'' \<longrightarrow> get op ''id'' \<noteq> str ''G1'' \<and> get op ''id'' \<noteq> str ''G8'')"
  by (auto simp: check_gate_def Let_def split: if_splits)

definition evidence_kinds :: "json \<Rightarrow> val set" where
  "evidence_kinds op = {get e ''kind'' | e. e \<in> set (elements (get op ''evidence''))}"

lemma owner_passes:
  "check_owner op = Pass \<Longrightarrow>
   is_str (get op ''bucket'') BUCKETS \<and> (get op ''state'' = str ''paper'' \<longrightarrow> get op ''bucket'' = str ''paper'') \<and>
   (get op ''bucket'' \<in> {str ''take-as-is'', str ''modify''} \<longrightarrow>
      str ''design'' \<in> evidence_kinds op \<and> str ''registry'' \<in> evidence_kinds op)"
proof -
  have k: "str k \<in> evidence_kinds op"
    if "str k \<in> set (map (\<lambda>e. if truthy (Some e) then get e ''kind'' else Some e) (elements (get op ''evidence'')))"
      "k \<noteq> []" for k
    using that by (auto simp: evidence_kinds_def split: if_splits)
  show "check_owner op = Pass \<Longrightarrow> ?thesis"
    using k [of "''design''"] k [of "''registry''"]
    by (auto simp: check_owner_def Let_def BUCKETS_def split: if_splits)
qed

lemma ask_passes:
  "check_ask op = Pass \<Longrightarrow>
   js_text (get op ''text'') \<noteq> [] \<and> length (js_text (get op ''text'')) \<le> 160 \<and>
   length (split_on LF (js_text (get op ''text''))) \<le> 2 \<and> truthy (get op ''q'') \<and>
   length (elements (get op ''options'')) \<in> {2, 3, 4}"
  by (auto simp: check_ask_def Let_def QUESTION_MAX_LINES_def QUESTION_MAX_CHARS_def split: if_splits)

section \<open>Files in any order\<close>

lemma compare_names_le: "compare_names a b \<le> 0 \<longleftrightarrow> fst a \<le> fst b"
  by (auto simp: compare_names_def not_less)

interpretation file_order: comparator compare_names
  by unfold_locales (auto simp: compare_names_le)

interpretation flow: sorted_fold fold_flow "\<lambda>es. withdraw (said es)"
  by unfold_locales (simp add: fold_flow_def)

lemma fold_files_perm:
  assumes "mset files = mset files'" and "distinct (map fst files)"
  shows "fold_files decode files = fold_files decode files'"
proof -
  have "js_sort compare_names files = js_sort compare_names files'"
  proof (rule file_order.sort_perm [OF assms(1)])
    fix x y
    assume "x \<in> set files" "y \<in> set files" "compare_names x y \<le> 0" "compare_names y x \<le> 0"
    then show "x = y"
      using assms(2) by (auto simp: compare_names_le distinct_map inj_on_def)
  qed
  then show ?thesis by (simp add: fold_files_def)
qed

text \<open>
  A line that decodes to null, which is valid JSON, makes the whole log throw: one bad
  line does cost the others.
\<close>

lemma null_line_throws:
  assumes "decode ''null'' = Some JNull" and "LF \<notin> set a" and "LF \<notin> set b"
  shows "parse_log decode name (a @ LF # ''null'' @ LF # b) party = None"
proof -
  have s: "split_on LF (a @ LF # ''null'' @ LF # b) = [a, ''null'', b]"
    using split_on_sep [of LF a "''null'' @ LF # b"] split_on_sep [of LF "''null''" b] assms(2,3)
    by (simp add: split_on_free)
  have n: "parse_line decode name party (''null'', 1) = None"
    using assms(1) by (simp add: parse_line_def js_trim_def is_space_def)
  have "all_or_throw [x, None, y] = None" for x y :: "json entry list option"
    by (cases x) simp_all
  moreover have "zip [a, ''null'', b] [0..<length [a, ''null'', b]] = [(a, 0), (''null'', 1), (b, 2)]"
    by (simp add: numeral_eq_Suc)
  ultimately show ?thesis
    unfolding parse_log_def s Let_def by (simp only: list.map n)
qed

section \<open>Properties\<close>



text \<open>
  A question the validator accepts is readable at a glance: it has an id, some
  text of at most 160 characters on at most two lines, and two to four suggested answers.
\<close>

theorem validated_question_bounds:
  assumes "validate_op (Some op) actor = Pass" and "op_kind op = ''ask''"
  shows "js_text (get op ''text'') \<noteq> [] \<and> length (js_text (get op ''text'')) \<le> 160 \<and>
    length (split_on LF (js_text (get op ''text''))) \<le> 2 \<and> truthy (get op ''q'') \<and>
    length (elements (get op ''options'')) \<in> {2, 3, 4}"
  by (rule ask_passes [OF validated_kind(3) [OF assms]])

text \<open>
  C12: an answer is never dropped for sorting before its question. A question asked in
  any log and not withdrawn is in the folded state with the state of the last answer,
  unknown or skip in the total order, and the value of the last answer, wherever the
  ask itself sorted.
\<close>

theorem question_keeps_last_word:
  assumes "\<exists>e \<in> set ops. asks i e" and "\<not> (\<exists>e \<in> set ops. withdraws i e)"
  shows "\<exists>q \<in> set (fQuestions (fold_flow ops)). qId q = i \<and>
    qState q = (let es = filter (status i) (js_sort compare_ops ops)
                in if es = [] then ''open'' else status_name (last es)) \<and>
    qValue q = (let es = filter (answers i) (js_sort compare_ops ops)
                in if es = [] then None else get (eOp (last es)) ''value'')"
  by (rule fold_question [OF assms])

definition example_ops :: "json entry list" where
  "example_ops =
     [\<lparr>eOp = JObj [(''op'', JStr ''ask''), (''q'', JStr ''q1'')], eFile = ''b'', eParty = ''b'', eLine = 0, eAt = ''t''\<rparr>,
      \<lparr>eOp = JObj [(''op'', JStr ''answer''), (''q'', JStr ''q1''), (''value'', JStr ''yes'')], eFile = ''a'',
        eParty = ''a'', eLine = 0, eAt = ''t''\<rparr>,
      \<lparr>eOp = JObj [(''op'', JStr ''owner''), (''cap'', JStr ''c''), (''risk'', JStr ''r'')], eFile = ''a'',
        eParty = ''a'', eLine = 1, eAt = ''t''\<rparr>,
      \<lparr>eOp = JObj [(''op'', JStr ''owner''), (''cap'', JStr ''c''), (''bucket'', JStr ''paper'')], eFile = ''b'',
        eParty = ''b'', eLine = 1, eAt = ''t''\<rparr>]"

theorem question_keeps_last_word_witness:
  "\<exists>q \<in> set (fQuestions (fold_flow example_ops)). qId q = str ''q1'' \<and> qState q = ''answered'' \<and>
     qValue q = str ''yes''"
  using question_keeps_last_word [of example_ops "str ''q1''"]
  by (simp add: example_ops_def asks_def withdraws_def status_def answers_def status_name_def op_kind_def
      compare_ops_def)

text \<open>
  Last write wins per field. In the folded state an owner's bucket, block, state,
  evidence, exclusions and risk are each the value of the last op that gave that field,
  so an op that says nothing of a field erases nothing.
\<close>

theorem owner_fields_last_given:
  assumes "\<exists>e \<in> set ops. owns c e" and "\<not> (\<exists>e \<in> set ops. withdraws c e)"
  shows "\<exists>w \<in> set (fOwners (fold_flow ops)). wCap w = c \<and>
    (let es = filter (owns c) (js_sort compare_ops ops)
     in wRisk w = last_given ''risk'' empty_array es \<and> wBucket w = last_given ''bucket'' None es \<and>
        wBlock w = last_given ''block'' None es \<and> wState w = last_given ''state'' None es \<and>
        wEvidence w = last_given ''evidence'' empty_array es \<and>
        wNotOwned w = last_given ''notOwned'' empty_array es)"
  by (rule fold_owner [OF assms])

text \<open>
  The flow's state does not depend on which file was listed first: any listing of
  the same files folds to the same state, or fails in the same way.
\<close>

theorem flow_files_any_order:
  assumes "mset files = mset files'" and "distinct (map fst files)"
  shows "fold_files decode files = fold_files decode files'"
  by (rule fold_files_perm [OF assms])

end
