(* ===== verification/Flow_Types.thy ===== *)
theory Flow_Types
  imports Flow_Log
begin

text \<open>
  The types of the project flow's state (browser/flow-log.js): which values the fields of
  fold's result may have when every op in the logs passed the validator. Every step of the
  fold preserves them, so no reader of the state needs a case for anything else. What the
  validator promises of one op and the fold does not keep is shown at the end.
\<close>

section \<open>Typed records\<close>

definition QUESTION_STATES :: "jstr list" where
  "QUESTION_STATES = [''open'', ''answered'', ''unknown'', ''skipped'']"

definition said_text :: "val \<Rightarrow> bool" where
  "said_text v = (js_text v \<noteq> [])"

definition typed_question :: "question \<Rightarrow> bool" where
  "typed_question q =
     (truthy (qId q) \<and> said_text (qText q) \<and> length (js_text (qText q)) \<le> QUESTION_MAX_CHARS \<and>
      is_array (qOptions q) \<and> length (elements (qOptions q)) \<in> {2, 3, 4} \<and> qState q \<in> set QUESTION_STATES \<and>
      (qState q = ''answered'' \<longrightarrow> said_text (qValue q) \<and> truthy (qVia q)))"

definition typed_assumption :: "assumption \<Rightarrow> bool" where
  "typed_assumption a =
     (truthy (aId a) \<and> said_text (aText a) \<and> said_text (aConsequence a) \<and>
      (aState a = None \<or> is_str (aState a) ASSUMPTION_STATES))"

definition typed_source :: "source \<Rightarrow> bool" where
  "typed_source r = (sRead r \<longrightarrow> said_text (sSummary r))"

definition typed_requirement :: "requirement \<Rightarrow> bool" where
  "typed_requirement r = (truthy (rId r) \<and> said_text (rText r) \<and> truthy (rCriteria r) \<and> truthy (rCovers r))"

definition typed_option :: "option_op \<Rightarrow> bool" where
  "typed_option x =
     (truthy (tId x) \<and> said_text (tName x) \<and> is_str (tTimeBasis x) BASES \<and> is_str (tTokensBasis x) BASES)"

definition typed_owner :: "owner \<Rightarrow> bool" where
  "typed_owner w =
     (truthy (wCap w) \<and> is_str (wBucket w) BUCKETS \<and> (truthy (wState w) \<longrightarrow> is_str (wState w) BLOCK_STATES))"

definition typed_exit :: "exit_record \<Rightarrow> bool" where
  "typed_exit x = (truthy (xGap x) \<and> is_str (xKind x) EXIT_KINDS)"

definition typed_verdict :: "verdict \<Rightarrow> bool" where
  "typed_verdict v = (said_text (vText v) \<and> \<not> digit_percent (js_text (vText v)) \<and> \<not> says_percent (js_text (vText v)))"

definition typed_topic :: "topic \<Rightarrow> bool" where
  "typed_topic k = is_str (kState k) TOPIC_STATES"

definition typed_gate :: "gate \<Rightarrow> bool" where
  "typed_gate g = (is_str (eState g) GATE_STATES \<and> (eState g = str ''waived'' \<longrightarrow> said_text (eReason g)))"

definition typed_flow :: "flow \<Rightarrow> bool" where
  "typed_flow s =
     (list_all typed_question (fQuestions s) \<and> list_all typed_assumption (fAssumptions s) \<and>
      list_all typed_source (fSources s) \<and> list_all typed_requirement (fRequirements s) \<and>
      list_all typed_option (fOptions s) \<and> list_all typed_owner (fOwners s) \<and> list_all typed_exit (fExits s) \<and>
      list_all typed_verdict (fVerdicts s) \<and> list_all (\<lambda>k. typed_topic (snd k)) (fTopics s) \<and>
      list_all (\<lambda>g. typed_gate (snd g)) (fGates s))"

text \<open>A log whose every op somebody's validator accepted, as the stores only ever append those.\<close>

definition validated_log :: "json entry list \<Rightarrow> bool" where
  "validated_log es = (\<forall>e\<in>set es. \<exists>actor. validate_op (Some (eOp e)) actor = Pass)"

section \<open>The fold's list operations keep a predicate\<close>

lemma all_push_new [intro]: "list_all P xs \<Longrightarrow> P x \<Longrightarrow> list_all P (push_new key i x xs)"
  by (simp add: push_new_def)

lemma all_update_first: "list_all P xs \<Longrightarrow> (\<And>x. P x \<Longrightarrow> P (f x)) \<Longrightarrow> list_all P (update_first key i f xs)"
  by (induction xs) auto

lemma all_keep [intro]: "list_all P xs \<Longrightarrow> list_all P (keep key r xs)"
  by (simp add: keep_def list_all_iff)

lemma all_alist_update: "list_all (\<lambda>k. P (snd k)) xs \<Longrightarrow> P v \<Longrightarrow> list_all (\<lambda>k. P (snd k)) (AList.update i v xs)"
  by (induction xs) auto

section \<open>What the validator says of each kind\<close>

lemma said_text_truthy: "said_text v \<Longrightarrow> truthy v"
  by (cases v rule: truthy.cases) (auto simp: said_text_def js_trim_def)

lemma truthy_or_val: "truthy b \<Longrightarrow> truthy (or_val a b)"
  by (simp add: or_val_def)

lemma is_array_truthy: "is_array v \<Longrightarrow> truthy v"
  by (cases v rule: truthy.cases) auto

definition accepted_as :: "json \<Rightarrow> jstr \<Rightarrow> bool" where
  "accepted_as op kind = (op_kind op = kind \<and> (\<exists>actor. validate_kind op kind actor = Pass))"

lemma accepted_kind:
  assumes "validate_op (Some op) actor = Pass"
  shows "accepted_as op (op_kind op)"
  using validated [OF assms] by (auto simp: accepted_as_def)

lemma accepted_ask: "accepted_as op ''ask'' \<Longrightarrow> typed_question (asked_question op)"
proof -
  assume "accepted_as op ''ask''"
  then have c: "check_ask op = Pass"
    by (auto simp: accepted_as_def validate_kind_def)
  have "is_array (get op ''options'')"
    using c by (auto simp: check_ask_def Let_def split: if_splits)
  then show ?thesis
    using ask_passes [OF c]
    by (simp add: typed_question_def asked_question_def said_text_def QUESTION_STATES_def QUESTION_MAX_CHARS_def
        or_val_def is_array_truthy)
qed

lemma accepted_created:
  "accepted_as op ''assume'' \<Longrightarrow> typed_assumption (made_assumption op)"
  "accepted_as op ''requirement'' \<Longrightarrow> typed_requirement (made_requirement op)"
  "accepted_as op ''option'' \<Longrightarrow> typed_option (made_option op)"
  by (auto simp: accepted_as_def validate_kind_def typed_assumption_def made_assumption_def typed_requirement_def
      made_requirement_def typed_option_def made_option_def said_text_def or_val_def empty_array_def split: if_splits)

lemma accepted_said:
  "accepted_as op ''answer'' \<Longrightarrow> said_text (get op ''value'')"
  "accepted_as op ''cover'' \<Longrightarrow> is_str (get op ''state'') TOPIC_STATES"
  "accepted_as op ''resolve-assumption'' \<Longrightarrow> is_str (get op ''state'') ASSUMPTION_STATES"
  "accepted_as op ''read'' \<Longrightarrow> said_text (get op ''summary'')"
  "accepted_as op ''exit'' \<Longrightarrow> truthy (get op ''gap'') \<and> is_str (get op ''kind'') EXIT_KINDS"
  "accepted_as op ''owner'' \<Longrightarrow> truthy (get op ''cap'') \<and> is_str (get op ''bucket'') BUCKETS \<and>
     (truthy (get op ''state'') \<longrightarrow> is_str (get op ''state'') BLOCK_STATES)"
  "accepted_as op ''verdict'' \<Longrightarrow> said_text (get op ''text'') \<and>
     \<not> digit_percent (js_text (get op ''text'')) \<and> \<not> says_percent (js_text (get op ''text''))"
  "accepted_as op ''gate'' \<Longrightarrow> is_str (get op ''state'') GATE_STATES \<and>
     (get op ''state'' = str ''waived'' \<longrightarrow> said_text (get op ''reason''))"
  by (auto simp: accepted_as_def validate_kind_def said_text_def check_owner_def check_verdict_def check_gate_def
      Let_def split: if_splits)

section \<open>Every step keeps the types\<close>

lemma typed_empty: "typed_flow empty_state"
  by (simp add: typed_flow_def empty_state_def)

lemma typed_made_source: "typed_source (made_source op b)"
  by (simp add: typed_source_def made_source_def)

lemma typed_create:
  assumes "accepted_as (eOp e) (op_kind (eOp e))" "typed_flow s"
  shows "typed_flow (create_step s e)"
  using assms accepted_ask accepted_created typed_made_source
  by (auto simp: create_step_def Let_def typed_flow_def)

lemma typed_answer:
  assumes "accepted_as op ''answer''" "typed_flow s"
  shows "typed_flow (on_answer op s)"
proof -
  let ?f = "\<lambda>q. q\<lparr>qState := ''answered'', qValue := get op ''value'', qVia := or_val (get op ''via'') (str ''dock''),
    qWrote := get op ''wrote'', qAnsweredBy := get op ''by'', qAnsweredAt := get op ''at''\<rparr>"
  have "list_all typed_question (update_first qId (get op ''q'') ?f (fQuestions s))"
    by (rule all_update_first)
      (use assms accepted_said(1) in \<open>auto simp: typed_flow_def typed_question_def QUESTION_STATES_def truthy_or_val\<close>)
  then show ?thesis
    using assms(2) by (simp add: on_answer_def Let_def typed_flow_def)
qed

lemma typed_other_question:
  assumes "typed_flow s"
  shows "typed_flow (on_unknown op s)" "typed_flow (on_skip op s)"
  using assms all_update_first [of typed_question "fQuestions s"]
  by (auto simp: on_unknown_def on_skip_def typed_flow_def typed_question_def QUESTION_STATES_def)

lemma typed_owner_said:
  assumes "accepted_as op ''owner''" "typed_flow s"
  shows "typed_flow (on_owner op s)"
proof -
  have "typed_owner (assign_owner op w)" if "typed_owner w \<or> w = new_owner (get op ''cap'')" for w
    using that accepted_said(6) [OF assms(1)]
    by (auto simp: typed_owner_def assign_owner_def defined_or_def new_owner_def)
  then show ?thesis
    using assms(2) by (auto simp: on_owner_def Let_def typed_flow_def intro: all_update_first)
qed

lemma typed_exit_said:
  assumes "accepted_as op ''exit''" "typed_flow s"
  shows "typed_flow (on_exit op s)"
proof -
  have "typed_exit (assign_exit op x)" if "truthy (xGap x)" for x
    using that accepted_said(5) [OF assms(1)] by (auto simp: typed_exit_def assign_exit_def defined_or_def)
  then show ?thesis
    using assms(2) accepted_said(5) [OF assms(1)]
    by (auto simp: on_exit_def Let_def typed_flow_def typed_exit_def intro!: all_update_first)
qed

lemma typed_verdict_said:
  assumes "accepted_as op ''verdict''" "typed_flow s"
  shows "typed_flow (on_verdict op s)"
proof -
  have "typed_verdict (assign_verdict op v)" for v
    using accepted_said(7) [OF assms(1)] by (auto simp: typed_verdict_def assign_verdict_def defined_or_def said_text_def)
  then show ?thesis
    using assms(2) by (auto simp: on_verdict_def Let_def typed_flow_def intro!: all_update_first)
qed

lemma typed_cover_gate:
  assumes "typed_flow s"
  shows "accepted_as op ''cover'' \<Longrightarrow> typed_flow (on_cover op s)"
    "accepted_as op ''gate'' \<Longrightarrow> typed_flow (on_gate op s)"
  using assms accepted_said(2,8) [of op]
  by (auto simp: on_cover_def on_gate_def Let_def typed_flow_def typed_topic_def typed_gate_def intro!: all_alist_update)

lemma typed_resolve_read:
  assumes "typed_flow s"
  shows "accepted_as op ''resolve-assumption'' \<Longrightarrow>
      typed_flow (s\<lparr>fAssumptions := update_first aId i
        (\<lambda>a. a\<lparr>aState := get op ''state'', aResolvedBy := get op ''by''\<rparr>) (fAssumptions s)\<rparr>)"
    "accepted_as op ''read'' \<Longrightarrow> typed_flow (s\<lparr>fSources := update_first sId i (on_read op) (fSources s)\<rparr>)"
    "typed_flow (s\<lparr>fSources := update_first sId i (\<lambda>r. r\<lparr>sBelieved := v\<rparr>) (fSources s)\<rparr>)"
  using assms accepted_said(3,4) [of op]
  by (auto simp: typed_flow_def typed_assumption_def typed_source_def on_read_def intro!: all_update_first)

lemma typed_requirement_state:
  assumes "typed_flow s"
  shows "typed_flow (s\<lparr>fRequirements := update_first rId i (on_requirement_state op) (fRequirements s)\<rparr>)"
  using assms
  by (auto simp: typed_flow_def typed_requirement_def on_requirement_state_def Let_def spread_def intro!: all_update_first)

lemma typed_untracked [simp]:
  "typed_flow (s\<lparr>fDestination := a, fDestinationBy := b, fDestinationAt := c\<rparr>) = typed_flow s"
  "typed_flow (s\<lparr>fKit := k\<rparr>) = typed_flow s" "typed_flow (s\<lparr>fDocuments := ds\<rparr>) = typed_flow s"
  "typed_flow (s\<lparr>fOpenQuestions := qs\<rparr>) = typed_flow s" "typed_flow (s\<lparr>fUnvalidated := us\<rparr>) = typed_flow s"
  "typed_flow (s\<lparr>fHandover := h\<rparr>) = typed_flow s" "typed_flow (s\<lparr>fOps := n\<rparr>) = typed_flow s"
  by (simp_all add: typed_flow_def)

lemma typed_say:
  assumes "accepted_as op (op_kind op)" "typed_flow s"
  shows "typed_flow (say_kind op s)"
  unfolding say_kind_def Let_def
  using assms typed_answer [of op s] typed_other_question [of s op] typed_owner_said [of op s] typed_exit_said [of op s]
    typed_verdict_said [of op s] typed_cover_gate [of s op] typed_resolve_read [of s] typed_requirement_state [of s]
  by (auto split del: if_split simp: if_distrib [of typed_flow] split: if_split)

lemma typed_flow_step:
  assumes "accepted_as (eOp e) (op_kind (eOp e))" "typed_flow (fst sr)"
  shows "typed_flow (fst (flow_step sr e))"
  using assms typed_say by (simp add: flow_step_def Let_def)

lemma typed_withdraw: "typed_flow (fst sr) \<Longrightarrow> typed_flow (withdraw sr)"
  by (auto simp: withdraw_def Let_def typed_flow_def)

lemma typed_foldl:
  assumes "\<And>e s. e \<in> set es \<Longrightarrow> typed_flow (f s) \<Longrightarrow> typed_flow (f (g s e))" "typed_flow (f s)"
  shows "typed_flow (f (foldl g s es))"
  using assms by (induction es arbitrary: s) simp_all

lemma typed_fold:
  assumes "validated_log es"
  shows "typed_flow (fold_flow es)"
proof -
  let ?es = "js_sort compare_ops es"
  have ok: "accepted_as (eOp e) (op_kind (eOp e))" if "e \<in> set ?es" for e
    using that assms accepted_kind by (auto simp: validated_log_def)
  have "typed_flow (created ?es)"
    unfolding created_def
    by (rule typed_foldl [where f = "\<lambda>s. s"]) (use ok typed_create typed_empty in auto)
  then have "typed_flow (fst (said ?es))"
    unfolding said_def by (intro typed_foldl [where f = fst]) (use ok typed_flow_step in auto)
  then show ?thesis
    by (simp add: fold_flow_def typed_withdraw)
qed

section \<open>A refusal the fold does not keep\<close>

text \<open>
  The validator refuses one op that composes a block existing only on paper. Two ops do it:
  the first puts the block on paper, the second, which says nothing of the block's state,
  moves it to another bucket; the state of the first stays, field by field.
\<close>

definition paper_op :: json where
  "paper_op = JObj [(''op'', JStr ''owner''), (''cap'', JStr ''c''), (''bucket'', JStr ''paper''), (''state'', JStr ''paper'')]"

definition moved_op :: json where
  "moved_op = JObj [(''op'', JStr ''owner''), (''cap'', JStr ''c''), (''bucket'', JStr ''take-as-is''),
     (''evidence'', JArr [JObj [(''kind'', JStr ''design'')], JObj [(''kind'', JStr ''registry'')]])]"

definition paper_log :: "json entry list" where
  "paper_log = [\<lparr>eOp = paper_op, eFile = ''a'', eParty = ''a'', eLine = 0, eAt = ''1''\<rparr>,
     \<lparr>eOp = moved_op, eFile = ''a'', eParty = ''a'', eLine = 1, eAt = ''2''\<rparr>]"

lemma paper_log_validated: "validated_log paper_log"
  by (auto simp: validated_log_def paper_log_def paper_op_def moved_op_def validate_op_def OP_KINDS_def
      validate_kind_def check_owner_def BUCKETS_def BLOCK_STATES_def Let_def)

lemma paper_composed_by_two_ops:
  "\<exists>w\<in>set (fOwners (fold_flow paper_log)). wState w = str ''paper'' \<and> wBucket w = str ''take-as-is''"
proof -
  have "\<exists>w\<in>set (fOwners (fold_flow paper_log)). wCap w = str ''c'' \<and>
      wState w = last_given ''state'' None (filter (owns (str ''c'')) paper_log) \<and>
      wBucket w = last_given ''bucket'' None (filter (owns (str ''c'')) paper_log)"
    using fold_owner [of paper_log "str ''c''"]
    by (auto simp: paper_log_def paper_op_def moved_op_def owns_def withdraws_def op_kind_def Let_def compare_ops_def)
  then show ?thesis
    by (simp add: paper_log_def paper_op_def moved_op_def owns_def op_kind_def last_given_def) blast
qed

section \<open>Properties\<close>

text \<open>
  C13: the state is well typed. When every op in the logs passed the validator, in the folded
  state every question is short, has two to four options and one of four states, and an answer
  when answered; every assumption names its consequence and has a known state; every source that
  is marked read has a summary; every owner has a known bucket and, if any, a known block state;
  every exit a known kind, every verdict a text without a percentage, every option its two bases,
  every topic and gate a known state, and every waived gate a reason.
\<close>

theorem flow_well_typed: "validated_log es \<Longrightarrow> typed_flow (fold_flow es)"
  by (rule typed_fold)

theorem flow_well_typed_witness: "typed_flow (fold_flow paper_log)"
  by (rule flow_well_typed) (rule paper_log_validated)

end
