(* ===== verification/Change_Log.thy ===== *)
theory Change_Log
  imports Hunk_Diff Identity
begin

text \<open>
  browser/change-log.js: suggestions of many authors on one document, one file per
  author, each re-anchored in the live document by content. A URI is its text and the
  base name of its path; a directory is a listing of decoded files, an unreadable or
  ill-formed one included; the clock, the random id and \<open>Date.parse\<close> are arguments. The
  theorems are the nearest-match search, what a re-anchored hunk may replace, that
  authors cannot overwrite each other, and the life of one suggestion.
\<close>

section \<open>Paths\<close>

record uri =
  uText :: jstr
  uBase :: jstr

definition CHANGES_DIR :: jstr where
  "CHANGES_DIR = ''.studio/changes''"

definition strip_slash :: "jstr \<Rightarrow> jstr" where
  "strip_slash s = (case s of c # r \<Rightarrow> (if c = CHR ''/'' then r else s) | [] \<Rightarrow> [])"

definition strip_json :: "jstr \<Rightarrow> jstr" where
  "strip_json s = (if ends_with s ''.json'' then take (length s - 5) s else s)"

definition relative_path :: "uri \<Rightarrow> uri \<Rightarrow> jstr" where
  "relative_path root doc =
     (if starts_with (uText doc) (uText root) then strip_slash (drop (length (uText root)) (uText doc))
      else uBase doc)"

definition legacy_uri :: "uri \<Rightarrow> uri \<Rightarrow> jstr" where
  "legacy_uri root doc = uText root @ ''/'' @ CHANGES_DIR @ ''/'' @ relative_path root doc @ ''.json''"

definition log_dir_uri :: "uri \<Rightarrow> uri \<Rightarrow> jstr" where
  "log_dir_uri root doc = strip_json (legacy_uri root doc)"

definition file_name_for :: "author_rec \<Rightarrow> author_value \<Rightarrow> jstr" where
  "file_name_for me author = key_for_id (rid (author_record me author)) @ ''.json''"

definition file_uri_for :: "author_rec \<Rightarrow> uri \<Rightarrow> uri \<Rightarrow> author_value \<Rightarrow> jstr" where
  "file_uri_for me root doc author = log_dir_uri root doc @ ''/'' @ file_name_for me author"

text \<open>The workspace root with the longest text the document's text starts with, or its parent.\<close>

definition longer_first :: "uri \<Rightarrow> uri \<Rightarrow> int" where
  "longer_first a b = int (length (uText b)) - int (length (uText a))"

definition root_for :: "uri list \<Rightarrow> uri \<Rightarrow> uri \<Rightarrow> uri" where
  "root_for roots doc parent =
     (case js_sort longer_first (filter (\<lambda>r. starts_with (uText doc) (uText r)) roots) of
        [] \<Rightarrow> parent | r # _ \<Rightarrow> r)"

section \<open>Re-anchoring\<close>

definition hunk_key :: "hunk \<Rightarrow> jstr" where
  "hunk_key h = ''k'' @ hash (join [LF] (oldLines h) @ [NUL] @ join [LF] (newLines h))"

definition is_mine :: "author_rec \<Rightarrow> author_value \<Rightarrow> bool" where
  "is_mine me author = (rid (author_record me author) = rid me)"

definition hit_at :: "jstr list \<Rightarrow> jstr list \<Rightarrow> nat \<Rightarrow> bool" where
  "hit_at lines needle start = (\<forall>i \<in> {0..<length needle}. lines ! (start + i) = needle ! i)"

definition matches_of :: "jstr list \<Rightarrow> jstr list \<Rightarrow> nat list" where
  "matches_of lines needle =
     (if length needle \<le> length lines
      then filter (hit_at lines needle) [0..<length lines - length needle + 1] else [])"

definition gap_to :: "nat \<Rightarrow> nat \<Rightarrow> int" where
  "gap_to near at = abs (int at - int near)"

definition closer :: "nat \<Rightarrow> nat \<Rightarrow> nat \<Rightarrow> nat" where
  "closer near best at = (if gap_to near at < gap_to near best then at else best)"

text \<open>None is the code's -1.\<close>

definition find_lines :: "jstr list \<Rightarrow> jstr list \<Rightarrow> nat option \<Rightarrow> nat option" where
  "find_lines lines needle near =
     (if needle = [] then None
      else case matches_of lines needle of
          [] \<Rightarrow> None
        | m # ms \<Rightarrow> Some (case near of None \<Rightarrow> m | Some n \<Rightarrow> foldl (closer n) m (m # ms)))"

record proposal =
  gId :: jstr
  gTitle :: jstr
  gOrigin :: jstr
  gInstruction :: jstr
  gCommentId :: "jstr option"
  gInReplyTo :: "jstr option"
  gBy :: "author_rec option"
  gAuthor :: jstr
  gCreatedAt :: jstr
  gUpdatedAt :: jstr
  gBaseBody :: "jstr option"
  gProposedBody :: "jstr option"
  gStatus :: jstr

record suggested = hunk +
  skey :: jstr
  srejected :: bool
  sconflicted :: bool

type_synonym rejections = "(jstr \<times> (jstr \<times> author_rec)) list"

definition rejected_key :: "rejections option \<Rightarrow> jstr \<Rightarrow> bool" where
  "rejected_key rs k = (case rs of None \<Rightarrow> False | Some r \<Rightarrow> map_of r k \<noteq> None)"

definition suggest :: "hunk \<Rightarrow> jstr \<Rightarrow> bool \<Rightarrow> bool \<Rightarrow> nat \<Rightarrow> suggested" where
  "suggest h k r c s =
     hunk.extend (h\<lparr>oldStart := s\<rparr>) \<lparr>skey = k, srejected = r, sconflicted = c\<rparr>"

definition needle_of :: "hunk \<Rightarrow> jstr list" where
  "needle_of h = (if oldLines h \<noteq> [] then oldLines h else before h)"

definition reanchor :: "jstr list \<Rightarrow> rejections option \<Rightarrow> hunk \<Rightarrow> suggested" where
  "reanchor lines rs h =
     (let k = hunk_key h; r = rejected_key rs k; needle = needle_of h;
          at = (if needle \<noteq> [] then find_lines lines needle (Some (oldStart h)) else Some (oldStart h))
      in case at of
           None \<Rightarrow> suggest h k r True (oldStart h)
         | Some p \<Rightarrow> suggest h k r False (if oldLines h \<noteq> [] then p else p + length needle))"

definition base_of :: "proposal \<Rightarrow> jstr \<Rightarrow> jstr" where
  "base_of p documentBody = (case gBaseBody p of Some b \<Rightarrow> b | None \<Rightarrow> documentBody)"

definition proposed_of :: "proposal \<Rightarrow> jstr" where
  "proposed_of p = (case gProposedBody p of Some b \<Rightarrow> b | None \<Rightarrow> [])"

definition suggestion_hunks :: "proposal \<Rightarrow> jstr \<Rightarrow> rejections option \<Rightarrow> suggested list" where
  "suggestion_hunks p documentBody rs =
     js_sort (by_key (\<lambda>h. int (oldStart h)))
       (map (reanchor (split_lines documentBody) rs) (diff_hunks (base_of p documentBody) (proposed_of p)))"

definition open_hunks :: "proposal \<Rightarrow> jstr \<Rightarrow> rejections option \<Rightarrow> suggested list" where
  "open_hunks p documentBody rs =
     filter (\<lambda>h. \<not> srejected h \<and> \<not> sconflicted h) (suggestion_hunks p documentBody rs)"

definition pending_count :: "proposal list \<Rightarrow> jstr \<Rightarrow> rejections option \<Rightarrow> nat" where
  "pending_count ps documentBody rs = foldl (\<lambda>n p. n + length (open_hunks p documentBody rs)) 0 ps"

section \<open>The store\<close>

record author_file =
  aVersion :: int
  aBy :: "author_rec option"
  aProposals :: "proposal list"
  aRejections :: rejections

text \<open>A file that is missing, unreadable, not JSON or not an object reads as None.\<close>

type_synonym change_dir = "(jstr \<times> author_file option) list"

definition read_file :: "change_dir \<Rightarrow> jstr \<Rightarrow> author_file option" where
  "read_file dir name = (case map_of dir name of Some f \<Rightarrow> f | None \<Rightarrow> None)"

definition listed_proposal :: "author_file \<Rightarrow> proposal \<Rightarrow> proposal list" where
  "listed_proposal f p =
     (if gId p = [] \<or> gProposedBody p = None then []
      else if gStatus p = ''withdrawn'' then []
      else [p\<lparr>gBy := (case gBy p of Some b \<Rightarrow> Some b | None \<Rightarrow> aBy f)\<rparr>])"

definition valid_files :: "change_dir \<Rightarrow> (jstr \<times> author_file) list" where
  "valid_files dir =
     concat (map (\<lambda>e. case snd e of Some f \<Rightarrow> (if aVersion f = 1 then [(fst e, f)] else []) | None \<Rightarrow> [])
       (filter (\<lambda>e. ends_with (fst e) ''.json'') dir))"

definition load_changes :: "(jstr \<Rightarrow> int) \<Rightarrow> author_rec \<Rightarrow> change_dir \<Rightarrow> proposal list \<times> rejections" where
  "load_changes date me dir =
     (js_sort (by_key (\<lambda>p. if gCreatedAt p = [] then 0 else date (gCreatedAt p)))
        (concat (map (\<lambda>e. concat (map (listed_proposal (snd e)) (aProposals (snd e)))) (valid_files dir))),
      foldl (\<lambda>rs e. if fst e = key_for_id (rid me) @ ''.json'' then aRejections (snd e) else rs) [] (valid_files dir))"

definition load_file :: "author_rec \<Rightarrow> author_value \<Rightarrow> change_dir \<Rightarrow> author_file" where
  "load_file me author dir =
     (let valid = (case read_file dir (file_name_for me author) of
                     Some f \<Rightarrow> (if aVersion f = 1 then Some f else None) | None \<Rightarrow> None)
      in \<lparr>aVersion = 1, aBy = Some (author_record me author),
          aProposals = (case valid of Some f \<Rightarrow> aProposals f | None \<Rightarrow> []),
          aRejections = (case valid of Some f \<Rightarrow> aRejections f | None \<Rightarrow> [])\<rparr>)"

definition save_file :: "author_rec \<Rightarrow> author_value \<Rightarrow> author_file \<Rightarrow> change_dir \<Rightarrow> change_dir" where
  "save_file me author f dir =
     AList.update (file_name_for me author)
       (Some \<lparr>aVersion = 1, aBy = Some (author_record me author),
          aProposals = filter (\<lambda>p. gStatus p \<noteq> ''withdrawn'') (aProposals f), aRejections = aRejections f\<rparr>) dir"

record request =
  qDocument :: jstr
  qProposed :: jstr
  qTitle :: jstr
  qOrigin :: jstr
  qInstruction :: jstr
  qCommentId :: jstr
  qInReplyTo :: jstr

definition some_text :: "jstr \<Rightarrow> jstr option" where
  "some_text s = (if s = [] then None else Some s)"

definition is_open :: "proposal \<Rightarrow> bool" where
  "is_open p = (gStatus p \<noteq> ''withdrawn'')"

definition revised :: "jstr \<Rightarrow> request \<Rightarrow> proposal \<Rightarrow> proposal" where
  "revised now q p =
     p\<lparr>gBaseBody := Some (qDocument q), gProposedBody := Some (qProposed q), gUpdatedAt := now,
       gTitle := or_else (qTitle q) (gTitle p), gInstruction := or_else (qInstruction q) (gInstruction p),
       gInReplyTo := (if qInReplyTo q = [] then gInReplyTo p else Some (qInReplyTo q))\<rparr>"

fun revise_first :: "(proposal \<Rightarrow> proposal) \<Rightarrow> proposal list \<Rightarrow> proposal list" where
  "revise_first f [] = []"
| "revise_first f (p # ps) = (if is_open p then f p # ps else p # revise_first f ps)"

fun drop_first :: "proposal list \<Rightarrow> proposal list" where
  "drop_first [] = []"
| "drop_first (p # ps) = (if is_open p then ps else p # drop_first ps)"

definition fresh_proposal :: "jstr \<Rightarrow> jstr \<Rightarrow> author_rec \<Rightarrow> request \<Rightarrow> proposal" where
  "fresh_proposal i now r q =
     \<lparr>gId = i, gTitle = or_else (qTitle q) (''Suggestions from '' @ rname r),
      gOrigin = or_else (qOrigin q) ''suggest-mode'', gInstruction = qInstruction q,
      gCommentId = some_text (qCommentId q), gInReplyTo = some_text (qInReplyTo q), gBy = Some r,
      gAuthor = rname r, gCreatedAt = now, gUpdatedAt = now, gBaseBody = Some (qDocument q),
      gProposedBody = Some (qProposed q), gStatus = ''open''\<rparr>"

definition upsert ::
  "jstr \<Rightarrow> jstr \<Rightarrow> author_rec \<Rightarrow> author_value \<Rightarrow> request \<Rightarrow> change_dir \<Rightarrow> proposal option \<times> change_dir" where
  "upsert freshId now me author q dir =
     (let r = author_record me author; v = as_value r; f = load_file me v dir;
          opened = List.find is_open (aProposals f)
      in if diff_hunks (qDocument q) (qProposed q) = [] then
           (case opened of None \<Rightarrow> (None, dir)
            | Some p \<Rightarrow> (None, save_file me v (f\<lparr>aProposals := drop_first (aProposals f)\<rparr>) dir))
         else case opened of
             Some p \<Rightarrow>
               ((Some ((revised now q p)\<lparr>gBy := Some r\<rparr>)),
                save_file me v (f\<lparr>aProposals := revise_first (revised now q) (aProposals f)\<rparr>) dir)
           | None \<Rightarrow>
               (let p = fresh_proposal freshId now r q
                in (Some p, save_file me v (f\<lparr>aProposals := aProposals f @ [p]\<rparr>) dir)))"

definition withdraw_proposal :: "author_rec \<Rightarrow> author_value \<Rightarrow> jstr \<Rightarrow> change_dir \<Rightarrow> bool \<times> change_dir" where
  "withdraw_proposal me author i dir =
     (let v = as_value (author_record me author)
      in if \<not> is_mine me v then (False, dir)
      else
        let f = load_file me v dir; kept = filter (\<lambda>p. gId p \<noteq> i) (aProposals f)
        in if length kept = length (aProposals f) then (False, dir)
           else (True, save_file me v (f\<lparr>aProposals := kept\<rparr>) dir))"

definition reject :: "jstr \<Rightarrow> author_rec \<Rightarrow> jstr \<Rightarrow> bool \<Rightarrow> change_dir \<Rightarrow> rejections \<times> change_dir" where
  "reject now me k on dir =
     (let f = load_file me (as_value me) dir;
          rs = (if on then AList.update k (now, me) (aRejections f) else AList.delete k (aRejections f))
      in (rs, save_file me (as_value me) (f\<lparr>aRejections := rs\<rparr>) dir))"

section \<open>The nearest match\<close>

definition occurs :: "jstr list \<Rightarrow> jstr list \<Rightarrow> nat \<Rightarrow> bool" where
  "occurs lines needle s =
     (s + length needle \<le> length lines \<and> js_slice lines s (s + length needle) = needle)"

lemma hit_at_slice:
  "s + length needle \<le> length lines \<Longrightarrow> hit_at lines needle s \<longleftrightarrow> js_slice lines s (s + length needle) = needle"
proof -
  assume b: "s + length needle \<le> length lines"
  let ?sl = "js_slice lines s (s + length needle)"
  have l: "length ?sl = length needle"
    using b by simp
  have n: "?sl ! i = lines ! (s + i)" if "i < length needle" for i
    using b that by (simp add: js_slice_def)
  show ?thesis
  proof
    assume "hit_at lines needle s"
    then have "\<forall>i < length needle. ?sl ! i = needle ! i"
      using n by (simp add: hit_at_def)
    then show "?sl = needle"
      using l by (intro nth_equalityI) simp_all
  next
    assume "?sl = needle"
    then show "hit_at lines needle s"
      using n by (simp add: hit_at_def)
  qed
qed

lemma matches_of_set: "s \<in> set (matches_of lines needle) \<longleftrightarrow> occurs lines needle s"
  by (auto simp: matches_of_def occurs_def hit_at_slice simp del: upt_Suc)

lemma foldl_closer:
  "foldl (closer n) b ms \<in> insert b (set ms) \<and>
   (\<forall>m \<in> insert b (set ms). gap_to n (foldl (closer n) b ms) \<le> gap_to n m)"
proof (induction ms arbitrary: b)
  case (Cons x ms)
  have c: "closer n b x \<in> {b, x}" "gap_to n (closer n b x) \<le> gap_to n b" "gap_to n (closer n b x) \<le> gap_to n x"
    by (auto simp: closer_def)
  show ?case
    using Cons.IH [of "closer n b x"] c by auto
qed simp

lemma find_lines_None: "find_lines lines needle near = None \<longleftrightarrow> needle = [] \<or> (\<forall>s. \<not> occurs lines needle s)"
  using matches_of_set [of _ lines needle]
  by (cases "matches_of lines needle") (auto simp: find_lines_def)

lemma find_lines_Some:
  assumes "find_lines lines needle (Some n) = Some r"
  shows "occurs lines needle r \<and> (\<forall>s. occurs lines needle s \<longrightarrow> gap_to n r \<le> gap_to n s)"
proof -
  obtain m ms where m: "matches_of lines needle = m # ms"
    using assms by (cases "matches_of lines needle") (auto simp: find_lines_def split: if_splits)
  then have r: "r = foldl (closer n) m (m # ms)"
    using assms by (auto simp: find_lines_def split: if_splits)
  have "insert m (set (m # ms)) = {s. occurs lines needle s}"
    using m matches_of_set [of _ lines needle] by auto
  then show ?thesis
    using foldl_closer [of n m "m # ms"] r by auto
qed

lemma find_lines_here: "needle \<noteq> [] \<Longrightarrow> occurs lines needle n \<Longrightarrow> find_lines lines needle (Some n) = Some n"
proof -
  assume a: "needle \<noteq> []" "occurs lines needle n"
  then obtain r where r: "find_lines lines needle (Some n) = Some r"
    using find_lines_None [of lines needle "Some n"] by (cases "find_lines lines needle (Some n)") auto
  then have "gap_to n r \<le> gap_to n n"
    using find_lines_Some a(2) by blast
  then have "r = n"
    by (simp add: gap_to_def)
  with r show ?thesis by simp
qed

section \<open>Re-anchored hunks\<close>

lemma suggest_simps [simp]:
  "oldStart (suggest h k r c s) = s" "oldLines (suggest h k r c s) = oldLines h"
  "newLines (suggest h k r c s) = newLines h" "before (suggest h k r c s) = before h"
  "skey (suggest h k r c s) = k" "srejected (suggest h k r c s) = r" "sconflicted (suggest h k r c s) = c"
  by (simp_all add: suggest_def hunk.defs)

lemma reanchor_content [simp]:
  "oldLines (reanchor ls rs h) = oldLines h" "newLines (reanchor ls rs h) = newLines h"
  "before (reanchor ls rs h) = before h" "skey (reanchor ls rs h) = hunk_key h"
  "srejected (reanchor ls rs h) = rejected_key rs (hunk_key h)"
  by (simp_all add: reanchor_def Let_def split: option.split)

lemma reanchor_old:
  assumes "oldLines h \<noteq> []"
  shows "\<not> sconflicted (reanchor ls rs h) \<Longrightarrow> occurs ls (oldLines h) (oldStart (reanchor ls rs h))"
    and "sconflicted (reanchor ls rs h) \<Longrightarrow> \<not> occurs ls (oldLines h) s"
    and "occurs ls (oldLines h) (oldStart h) \<Longrightarrow>
      oldStart (reanchor ls rs h) = oldStart h \<and> \<not> sconflicted (reanchor ls rs h)"
proof -
  have n: "needle_of h = oldLines h"
    using assms by (simp add: needle_of_def)
  show "\<not> sconflicted (reanchor ls rs h) \<Longrightarrow> occurs ls (oldLines h) (oldStart (reanchor ls rs h))"
    using assms find_lines_Some [of ls "oldLines h" "oldStart h"]
    by (auto simp: reanchor_def n Let_def split: option.splits)
  show "sconflicted (reanchor ls rs h) \<Longrightarrow> \<not> occurs ls (oldLines h) s"
    using assms find_lines_None [of ls "oldLines h" "Some (oldStart h)"]
    by (auto simp: reanchor_def n Let_def split: option.splits)
  show "occurs ls (oldLines h) (oldStart h) \<Longrightarrow>
      oldStart (reanchor ls rs h) = oldStart h \<and> \<not> sconflicted (reanchor ls rs h)"
    using assms find_lines_here by (simp add: reanchor_def n Let_def)
qed

lemma reanchor_insert:
  assumes "oldLines h = []" and "before h \<noteq> []" and "\<not> sconflicted (reanchor ls rs h)"
  shows "\<exists>s. occurs ls (before h) s \<and> oldStart (reanchor ls rs h) = s + length (before h)"
  using assms find_lines_Some [of ls "before h" "oldStart h"]
  by (auto simp: reanchor_def needle_of_def Let_def split: option.splits)

lemma suggestion_mem:
  "h \<in> set (suggestion_hunks p doc rs) \<longleftrightarrow>
   (\<exists>i \<in> set (diff_hunks (base_of p doc) (proposed_of p)). h = reanchor (split_lines doc) rs i)"
  by (auto simp: suggestion_hunks_def)

lemma suggestion_rejected: "h \<in> set (suggestion_hunks p doc rs) \<Longrightarrow> srejected h = rejected_key rs (skey h)"
  by (auto simp: suggestion_mem)

lemma suggestion_sorted: "sorted (map (\<lambda>h. int (oldStart h)) (suggestion_hunks p doc rs))"
  unfolding suggestion_hunks_def by (rule sort_by_key_sorted)

lemma intent_occurs:
  assumes "h \<in> set (diff_hunks b p)"
  shows "occurs (split_lines b) (oldLines h) (oldStart h)"
proof -
  have "(oldStart h, oldLines h) \<in> set (old_regions (diff_hunks b p))"
    using assms by (auto simp: old_regions_def)
  then show ?thesis
    using fits_drop_start diff_hunks_spec(1) unfolding diff_hunks_def occurs_def by blast
qed

section \<open>Files\<close>

lemma read_update: "read_file (AList.update k (Some f) dir) n = (if n = k then Some f else read_file dir n)"
  by (simp add: read_file_def update_conv')

lemma read_save:
  "read_file (save_file me v f dir) n =
     (if n = file_name_for me v
      then Some \<lparr>aVersion = 1, aBy = Some (author_record me v), aProposals = filter is_open (aProposals f),
             aRejections = aRejections f\<rparr>
      else read_file dir n)"
  by (simp add: save_file_def read_update is_open_def [abs_def])

lemma rid_author_record: "rid (author_record me v) = [] \<Longrightarrow> rid me = []"
  by (cases v) (auto simp: Let_def or_else_def make_record_def AGENT_AUTHORS_def agent_def
      split: if_splits option.splits)

lemma rid_reread: "rid r \<noteq> [] \<Longrightarrow> rid (author_record me (as_value r)) = rid r"
  by (simp add: as_value_def Let_def or_else_def)

abbreviation my_file :: "author_rec \<Rightarrow> jstr" where
  "my_file me \<equiv> file_name_for me (as_value me)"

lemma my_file_name: "rid me \<noteq> [] \<Longrightarrow> my_file me = key_for_id (rid me) @ ''.json''"
  by (simp add: file_name_for_def rid_reread)

lemma find_open: "(\<exists>p. List.find is_open ps = Some p) \<longleftrightarrow> (\<exists>p \<in> set ps. is_open p)"
  using find_None_iff [of is_open ps] by (cases "List.find is_open ps") auto

lemma revised_open [simp]: "is_open (revised now q p) = is_open p"
  by (simp add: revised_def is_open_def)

lemma revise_first_open: "length (filter is_open (revise_first (revised now q) ps)) = length (filter is_open ps)"
  by (induction ps) auto

lemma drop_first_open: "length (filter is_open (drop_first ps)) = length (filter is_open ps) - 1"
  by (induction ps) auto

section \<open>Traffic\<close>

datatype change_event =
    Upsert jstr jstr author_rec author_value request
  | Withdraw author_rec author_value jstr
  | Reject jstr author_rec jstr bool

fun change :: "change_event \<Rightarrow> change_dir \<Rightarrow> change_dir" where
  "change (Upsert i now me a q) dir = snd (upsert i now me a q dir)"
| "change (Withdraw me a i) dir = snd (withdraw_proposal me a i dir)"
| "change (Reject now me k on) dir = snd (reject now me k on dir)"

text \<open>The file an event may write.\<close>

fun writes :: "change_event \<Rightarrow> jstr" where
  "writes (Upsert i now me a q) = file_name_for me (as_value (author_record me a))"
| "writes (Withdraw me a i) = file_name_for me (as_value (author_record me a))"
| "writes (Reject now me k on) = my_file me"

definition saved :: "change_event \<Rightarrow> change_dir \<Rightarrow> change_dir \<Rightarrow> bool" where
  "saved ev dir dir' \<longleftrightarrow>
     (\<exists>f me v. dir' = save_file me v f dir \<and> file_name_for me v = writes ev \<and>
        length (filter is_open (aProposals f)) \<le> max 1 (length (filter is_open (aProposals (load_file me v dir)))))"

lemma savedI:
  "file_name_for me v = writes ev \<Longrightarrow>
   length (filter is_open (aProposals f)) \<le> max 1 (length (filter is_open (aProposals (load_file me v dir)))) \<Longrightarrow>
   saved ev dir (save_file me v f dir)"
  unfolding saved_def by blast

lemma find_open_None: "List.find is_open ps = None \<Longrightarrow> filter is_open ps = []"
  by (auto simp: find_None_iff filter_empty_conv)

lemma change_cases: "change ev dir = dir \<or> saved ev dir (change ev dir)"
proof (cases ev)
  case (Upsert i now me a q)
  let ?v = "as_value (author_record me a)"
  let ?f = "load_file me ?v dir"
  show ?thesis
  proof (cases "List.find is_open (aProposals ?f)")
    case None
    then show ?thesis
      using Upsert find_open_None [OF None]
      by (auto simp: upsert_def Let_def intro!: savedI)
  next
    case (Some p)
    then show ?thesis
      using Upsert by (auto simp: upsert_def Let_def revise_first_open drop_first_open intro!: savedI)
  qed
next
  case (Withdraw me a i)
  let ?f = "load_file me (as_value (author_record me a)) dir"
  have "filter is_open (filter (\<lambda>p. gId p \<noteq> i) (aProposals ?f)) = filter (\<lambda>p. gId p \<noteq> i) (filter is_open (aProposals ?f))"
    by (simp add: conj_commute)
  then have "length (filter is_open (filter (\<lambda>p. gId p \<noteq> i) (aProposals ?f))) \<le> length (filter is_open (aProposals ?f))"
    by (simp only: length_filter_le)
  then show ?thesis
    using Withdraw by (auto simp: withdraw_proposal_def Let_def intro!: savedI)
next
  case (Reject now me k on)
  then show ?thesis
    by (auto simp: reject_def Let_def intro!: savedI)
qed

lemma change_frame: "n \<noteq> writes ev \<Longrightarrow> read_file (change ev dir) n = read_file dir n"
  using change_cases [of ev dir] by (auto simp: read_save saved_def)

definition single_open :: "change_dir \<Rightarrow> bool" where
  "single_open dir = (\<forall>n f. read_file dir n = Some f \<longrightarrow> length (filter is_open (aProposals f)) \<le> 1)"

lemma load_file_open: "single_open dir \<Longrightarrow> length (filter is_open (aProposals (load_file me v dir))) \<le> 1"
  by (auto simp: load_file_def single_open_def Let_def split: option.splits)

lemma change_single:
  assumes "single_open dir"
  shows "single_open (change ev dir)"
proof (cases "change ev dir = dir")
  case False
  then obtain f me v where s: "change ev dir = save_file me v f dir"
    and l: "length (filter is_open (aProposals f)) \<le> max 1 (length (filter is_open (aProposals (load_file me v dir))))"
    using change_cases [of ev dir] unfolding saved_def by blast
  then have "length (filter is_open (aProposals f)) \<le> 1"
    using load_file_open [OF assms, of me v] by linarith
  then show ?thesis
    using assms by (auto simp: s single_open_def read_save)
qed (use assms in simp)

lemma changes_single: "single_open dir \<Longrightarrow> single_open (fold change evs dir)"
  by (induction evs arbitrary: dir) (simp_all add: change_single)

lemma changes_frame: "\<forall>ev \<in> set evs. writes ev \<noteq> n \<Longrightarrow> read_file (fold change evs dir) n = read_file dir n"
  by (induction evs arbitrary: dir) (simp_all add: change_frame not_sym)

section \<open>My rejections\<close>

definition names_ok :: "change_dir \<Rightarrow> bool" where
  "names_ok dir = distinct (map fst dir)"

lemma ends_json [simp]: "ends_with (file_name_for me v) ''.json''"
  by (auto simp: file_name_for_def ends_with_iff)

lemma names_ok_change: "names_ok dir \<Longrightarrow> names_ok (change ev dir)"
  using change_cases [of ev dir] by (auto simp: names_ok_def saved_def save_file_def distinct_update)

lemma names_ok_changes: "names_ok dir \<Longrightarrow> names_ok (fold change evs dir)"
  by (induction evs arbitrary: dir) (simp_all add: names_ok_change)

definition valid_head :: "jstr \<times> author_file option \<Rightarrow> (jstr \<times> author_file) list" where
  "valid_head e =
     (if ends_with (fst e) ''.json''
      then (case snd e of Some f \<Rightarrow> (if aVersion f = 1 then [(fst e, f)] else []) | None \<Rightarrow> []) else [])"

lemma valid_files_Cons: "valid_files (e # dir) = valid_head e @ valid_files dir"
  by (simp add: valid_files_def valid_head_def)

lemma valid_head_cases: "valid_head e = [] \<or> (\<exists>f. valid_head e = [(fst e, f)])"
  by (cases "snd e") (simp_all add: valid_head_def)

lemma valid_head_names: "x \<in> set (valid_head e) \<Longrightarrow> fst x = fst e"
  using valid_head_cases [of e] by auto

lemma valid_files_names: "x \<in> set (valid_files dir) \<Longrightarrow> fst x \<in> fst ` set dir"
proof (induction dir)
  case (Cons e dir)
  then show ?case
    using valid_head_names [of x e] by (auto simp: valid_files_Cons)
qed (simp add: valid_files_def)

lemma rejections_skip:
  "n \<notin> fst ` set es \<Longrightarrow> foldl (\<lambda>rs e. if fst e = n then aRejections (snd e) else rs) rs es = rs"
  by (induction es arbitrary: rs) auto

lemma rejections_found:
  "names_ok dir \<Longrightarrow> ends_with n ''.json'' \<Longrightarrow>
   foldl (\<lambda>rs e. if fst e = n then aRejections (snd e) else rs) rs (valid_files dir) =
   (case read_file dir n of Some f \<Rightarrow> (if aVersion f = 1 then aRejections f else rs) | None \<Rightarrow> rs)"
proof (induction dir arbitrary: rs)
  case Nil
  show ?case by (simp add: valid_files_def read_file_def)
next
  case (Cons e dir)
  have ok: "names_ok dir" and new: "fst e \<notin> fst ` set dir"
    using Cons.prems(1) by (auto simp: names_ok_def)
  show ?case
  proof (cases "fst e = n")
    case True
    have none: "n \<notin> fst ` set (valid_files dir)"
      using new True valid_files_names by (metis imageE)
    have r: "read_file (e # dir) n = snd e"
      using True by (cases e) (simp add: read_file_def)
    show ?thesis
      using True Cons.prems(2) r none 
      by (cases "snd e") (simp_all add: valid_files_Cons valid_head_def rejections_skip)
  next
    case False
    have r: "read_file (e # dir) n = read_file dir n"
      using False by (cases e) (simp add: read_file_def)
    have "n \<notin> fst ` set (valid_head e)"
      using valid_head_cases [of e] False by auto
    note sk = rejections_skip [OF this]
    show ?thesis
      unfolding r valid_files_Cons foldl_append sk by (rule Cons.IH [OF ok Cons.prems(2)])
  qed
qed

lemma my_rejections:
  "names_ok dir \<Longrightarrow> rid me \<noteq> [] \<Longrightarrow> read_file dir (my_file me) = Some f \<Longrightarrow> aVersion f = 1 \<Longrightarrow>
   snd (load_changes date me dir) = aRejections f"
  using rejections_found [OF _ ends_json, of dir me "as_value me" "[]"]
  by (simp add: load_changes_def my_file_name [symmetric])

lemma reject_file:
  "read_file (snd (reject now me k on dir)) (my_file me) =
     Some \<lparr>aVersion = 1, aBy = Some (author_record me (as_value me)),
        aProposals = filter is_open (aProposals (load_file me (as_value me) dir)),
        aRejections = fst (reject now me k on dir)\<rparr>"
  by (simp add: reject_def Let_def read_save)

lemma reject_keys:
  "map_of (fst (reject now me k on dir)) k \<noteq> None \<longleftrightarrow> on"
  by (simp add: reject_def Let_def update_conv' delete_conv')

section \<open>Where the code is surprising\<close>

text \<open>
  The key of an insertion equals the key of replacing one blank line by the same
  text, because both old sides join to the empty string.
\<close>

lemma hunk_key_collision:
  "oldLines h = [] \<Longrightarrow> oldLines h' = [[]] \<Longrightarrow> newLines h = newLines h' \<Longrightarrow> hunk_key h = hunk_key h'"
  by (simp add: hunk_key_def)

text \<open>
  A pure insertion is searched near its own line, although the context it looks for
  starts earlier: where the context also occurs at the insertion point, it moves, even
  in the unchanged document.
\<close>

lemma insertion_drifts:
  "oldLines h = [] \<Longrightarrow> before h \<noteq> [] \<Longrightarrow> occurs ls (before h) (oldStart h) \<Longrightarrow>
   oldStart (reanchor ls rs h) = oldStart h + length (before h)"
  by (simp add: reanchor_def needle_of_def Let_def find_lines_here)

text \<open>A root is matched by its text alone, so a sibling whose name extends it is inside it.\<close>

lemma sibling_root:
  "relative_path \<lparr>uText = ''file:///w/proj'', uBase = ''proj''\<rparr> \<lparr>uText = ''file:///w/proj2/a.md'', uBase = ''a.md''\<rparr> =
   ''2/a.md''"
  by (simp add: relative_path_def starts_with_def strip_slash_def)

section \<open>Properties\<close>


definition example_proposal :: proposal where
  "example_proposal = \<lparr>gId = ''p'', gTitle = [], gOrigin = [], gInstruction = [], gCommentId = None,
     gInReplyTo = None, gBy = None, gAuthor = [], gCreatedAt = [], gUpdatedAt = [], gBaseBody = Some ''a'',
     gProposedBody = Some ''b'', gStatus = ''open''\<rparr>"

lemma example_intent: "map oldLines (diff_hunks ''a'' ''b'') = [[''a'']]"
  by (simp add: diff_eval diff_hunks_def)


text \<open>
  Authors cannot overwrite each other. Whatever anybody else creates, revises,
  withdraws or rejects, an author's file is what it was, and no file ever holds more than
  one open suggestion.
\<close>

theorem authors_keep_their_files:
  "(\<forall>ev \<in> set evs. writes ev \<noteq> n) \<and> single_open dir \<Longrightarrow>
   read_file (fold change evs dir) n = read_file dir n \<and> single_open (fold change (evs @ later) dir)"
  using changes_frame changes_single by blast

text \<open>
  A rejection sticks to the content. After a reviewer rejects a change, through
  anything other authors do, every suggestion hunk with that content is loaded as
  rejected, whatever document it is shown in and wherever it stands there; taking the
  rejection back frees it.
\<close>

theorem rejection_follows_content:
  assumes "names_ok dir" and "rid me \<noteq> []"
    and "\<forall>ev \<in> set evs. writes ev \<noteq> my_file me"
    and "h \<in> set (suggestion_hunks p doc
          (Some (snd (load_changes date me (fold change evs (change (Reject now me (skey h) on) dir))))))"
  shows "srejected h \<longleftrightarrow> on"
proof -
  let ?k = "skey h"
  let ?dir = "fold change evs (change (Reject now me ?k on) dir)"
  let ?f = "\<lparr>aVersion = 1, aBy = Some (author_record me (as_value me)),
      aProposals = filter is_open (aProposals (load_file me (as_value me) dir)),
      aRejections = fst (reject now me ?k on dir)\<rparr>"
  have f: "read_file ?dir (my_file me) = Some ?f"
    using changes_frame [OF assms(3)] reject_file by simp
  have "names_ok ?dir"
    by (intro names_ok_changes names_ok_change assms(1))
  then have "snd (load_changes date me ?dir) = aRejections ?f"
    by (rule my_rejections [OF _ assms(2) f]) simp
  then have "snd (load_changes date me ?dir) = fst (reject now me ?k on dir)"
    by simp
  moreover have "srejected h \<longleftrightarrow> rejected_key (Some (snd (load_changes date me ?dir))) ?k"
    by (rule suggestion_rejected [OF assms(4)])
  ultimately show ?thesis
    using reject_keys by (simp add: rejected_key_def)
qed

end
