(* ===== verification/Md_Rewrap.thy ===== *)
theory Md_Rewrap
  imports Hunk_Diff
begin

text \<open>
  browser/md-rewrap.js: the hand wrapping of a Markdown file put back onto what the
  serialiser wrote. A body is split into blocks, the blocks are aligned by a key that
  ignores line breaks, equal blocks are restored and changed ones are re-broken word by
  word. The theorems: a document without tables keeps exactly its new words, in order;
  a body the file already has is restored; and two documents whose meaning is in
  the line breaks and comes out wrong.
\<close>

section \<open>Blocks, keys and words\<close>

definition is_blank_char :: "char \<Rightarrow> bool" where
  "is_blank_char c = (c = CHR '' '' \<or> c = TAB)"

text \<open>After a newline: the rest after a run of one or more blank lines, if there is one.\<close>

function skip_blank_lines :: "jstr \<Rightarrow> jstr option" where
  "skip_blank_lines s =
     (case dropWhile is_blank_char s of
        [] \<Rightarrow> None
      | c # r \<Rightarrow>
          if c = LF then (case skip_blank_lines r of None \<Rightarrow> Some r | Some r' \<Rightarrow> Some r') else None)"
  by pat_completeness auto
termination
proof (relation "measure length", simp)
  fix s c r
  assume "dropWhile is_blank_char s = c # r"
  then have "length (c # r) \<le> length s"
    by (metis length_dropWhile_le)
  then show "(r, s) \<in> measure length" by simp
qed

declare skip_blank_lines.simps [simp del]

lemma skip_shorter: "skip_blank_lines s = Some r \<Longrightarrow> length r < length s"
proof (induction s arbitrary: r rule: skip_blank_lines.induct)
  case (1 s)
  then obtain c t where t: "dropWhile is_blank_char s = c # t"
    by (cases "dropWhile is_blank_char s") (auto simp: skip_blank_lines.simps [of s])
  have l: "length (c # t) \<le> length s"
    using t by (metis length_dropWhile_le)
  show ?case
    using "1.prems" "1.IH" [OF t] t l
    by (auto simp: skip_blank_lines.simps [of s] split: if_splits option.splits)
qed

function split_blocks :: "jstr \<Rightarrow> jstr list" where
  "split_blocks [] = [[]]"
| "split_blocks (c # r) =
     (if c = LF
      then (case skip_blank_lines r of
              Some r' \<Rightarrow> [] # split_blocks r'
            | None \<Rightarrow> (case split_blocks r of [] \<Rightarrow> [[c]] | b # bs \<Rightarrow> (c # b) # bs))
      else (case split_blocks r of [] \<Rightarrow> [[c]] | b # bs \<Rightarrow> (c # b) # bs))"
  by pat_completeness auto
termination
  by (relation "measure length") (auto dest: skip_shorter)

fun collapse_spaces :: "bool \<Rightarrow> jstr \<Rightarrow> jstr" where
  "collapse_spaces inRun [] = []"
| "collapse_spaces inRun (c # r) =
     (if is_space c then (if inRun then collapse_spaces True r else CHR '' '' # collapse_spaces True r)
      else c # collapse_spaces False r)"

definition collapse_key :: "jstr \<Rightarrow> jstr" where
  "collapse_key block = js_trim (collapse_spaces False block)"

definition leading_spaces :: "jstr \<Rightarrow> nat" where
  "leading_spaces l = length (takeWhile (\<lambda>c. c = CHR '' '') l)"

definition opens_fence :: "jstr \<Rightarrow> bool" where
  "opens_fence l =
     (leading_spaces l \<le> 3 \<and>
      (starts_with (drop (leading_spaces l) l) ''```'' \<or> starts_with (drop (leading_spaces l) l) ''~~~''))"

definition table_line :: "jstr \<Rightarrow> bool" where
  "table_line l = starts_with (dropWhile is_blank_char l) ''|''"

definition has_significant_whitespace :: "jstr \<Rightarrow> bool" where
  "has_significant_whitespace block =
     (let lines = split_on LF block
      in opens_fence (hd lines) \<or> starts_with (hd lines) ''    '' \<or> starts_with (hd lines) [TAB] \<or>
         list_ex table_line lines)"

text \<open>\<open>split(/\s+/)\<close>, the empty pieces filtered out.\<close>

fun split_spaces :: "jstr \<Rightarrow> jstr list" where
  "split_spaces [] = [[]]"
| "split_spaces (c # r) =
     (if is_space c then [] # split_spaces r
      else (case split_spaces r of [] \<Rightarrow> [[c]] | w # ws \<Rightarrow> (c # w) # ws))"

definition tokenize_words :: "jstr \<Rightarrow> jstr list" where
  "tokenize_words block = filter (\<lambda>w. w \<noteq> []) (split_spaces block)"

fun boundary_loop :: "nat \<Rightarrow> jstr list \<Rightarrow> nat list" where
  "boundary_loop n [] = []"
| "boundary_loop n [l] = []"
| "boundary_loop n (l # m # ls) =
     (n + length (tokenize_words l)) # boundary_loop (n + length (tokenize_words l)) (m # ls)"

definition line_boundaries :: "jstr \<Rightarrow> nat list" where
  "line_boundaries origBlock = boundary_loop 0 (split_on LF origBlock)"

section \<open>A changed block\<close>

record walk =
  wOut :: "jstr list"
  wIdx :: nat
  wPending :: bool

definition emit :: "jstr \<Rightarrow> walk \<Rightarrow> walk" where
  "emit word w =
     (if wOut w = [] then w\<lparr>wOut := [word]\<rparr>
      else if wPending w then w\<lparr>wOut := wOut w @ [LF # word], wPending := False\<rparr>
      else w\<lparr>wOut := wOut w @ [CHR '' '' # word]\<rparr>)"

definition cross :: "nat list \<Rightarrow> walk \<Rightarrow> walk" where
  "cross boundaries w = (if wIdx w \<in> set boundaries then w\<lparr>wPending := True\<rparr> else w)"

definition step_deleted :: "nat list \<Rightarrow> walk \<Rightarrow> jstr \<Rightarrow> walk" where
  "step_deleted boundaries w word = (let w' = cross boundaries w in w'\<lparr>wIdx := wIdx w' + 1\<rparr>)"

definition step_kept :: "nat list \<Rightarrow> walk \<Rightarrow> jstr \<Rightarrow> walk" where
  "step_kept boundaries w word = (let w' = emit word (cross boundaries w) in w'\<lparr>wIdx := wIdx w' + 1\<rparr>)"

fun walk_op :: "nat list \<Rightarrow> walk \<Rightarrow> jstr edit \<Rightarrow> walk" where
  "walk_op boundaries w (Del a) = foldl (step_deleted boundaries) w a"
| "walk_op boundaries w (Same a b) = foldl (step_kept boundaries) w b"
| "walk_op boundaries w (Ins b) = foldl (\<lambda>w word. emit word w) w b"

definition rewrap_words :: "jstr \<Rightarrow> jstr \<Rightarrow> jstr" where
  "rewrap_words orig next =
     concat (wOut (foldl (walk_op (line_boundaries orig)) \<lparr>wOut = [], wIdx = 0, wPending = False\<rparr>
       (diff_sequences (tokenize_words orig) (tokenize_words next))))"

definition rewrap_changed_block :: "jstr \<Rightarrow> jstr \<Rightarrow> jstr" where
  "rewrap_changed_block orig next =
     (if LF \<notin> set orig \<or> has_significant_whitespace orig \<or> has_significant_whitespace next then next
      else rewrap_words orig next)"

section \<open>Tables\<close>

definition full_lines :: "jstr \<Rightarrow> jstr list" where
  "full_lines block = filter (\<lambda>l. js_trim l \<noteq> []) (split_on LF block)"

definition is_table :: "jstr \<Rightarrow> bool" where
  "is_table block = (2 \<le> length (full_lines block) \<and> list_all table_line (full_lines block))"

definition strip_bar :: "jstr \<Rightarrow> jstr" where
  "strip_bar l = (if starts_with l ''|'' then tl l else l)"

definition strip_last_bar :: "jstr \<Rightarrow> jstr" where
  "strip_last_bar l = (if ends_with l ''|'' then butlast l else l)"

definition table_cells :: "jstr \<Rightarrow> jstr list" where
  "table_cells l = map js_trim (split_on (CHR ''|'') (strip_last_bar (strip_bar (js_trim l))))"

text \<open>\<open>/^:?-+:?$/\<close>.\<close>

definition delimiter_cell :: "jstr \<Rightarrow> bool" where
  "delimiter_cell cell =
     (let c1 = (if starts_with cell '':'' then tl cell else cell);
          c2 = (if ends_with c1 '':'' then butlast c1 else c1)
      in c2 \<noteq> [] \<and> list_all (\<lambda>c. c = CHR ''-'') c2)"

definition alignment :: "jstr \<Rightarrow> jstr" where
  "alignment cell = (if starts_with cell '':'' then '':'' else []) @ ''-'' @
     (if 1 < length cell \<and> ends_with cell '':'' then '':'' else [])"

definition row_key :: "jstr \<Rightarrow> jstr" where
  "row_key l =
     (let cells = table_cells l
      in if cells \<noteq> [] \<and> list_all delimiter_cell cells then join ''|'' (map alignment cells)
         else join ''|'' cells)"

definition table_key :: "jstr \<Rightarrow> jstr" where
  "table_key block = join [LF] (map row_key (full_lines block))"

definition block_key :: "jstr \<Rightarrow> jstr" where
  "block_key block = (if is_table block then ''TABLE'' @ [NUL] @ table_key block else collapse_key block)"

section \<open>preserveWrapping\<close>

definition restore :: "jstr \<Rightarrow> jstr \<Rightarrow> jstr" where
  "restore orig next =
     (if is_table orig \<and> is_table next \<or>
         LF \<in> set orig \<and> \<not> has_significant_whitespace orig \<and> \<not> has_significant_whitespace next
      then orig else next)"

fun place :: "jstr list \<Rightarrow> jstr list \<Rightarrow> jstr edit list \<Rightarrow> jstr list" where
  "place origs nexts [] = []"
| "place origs nexts (Same a b # ops) =
     map2 restore (take (length a) origs) (take (length a) nexts)
     @ place (drop (length a) origs) (drop (length a) nexts) ops"
| "place origs nexts (Del a # Ins b # ops) =
     (if length b = length a
      then map2 rewrap_changed_block (take (length a) origs) (take (length a) nexts)
           @ place (drop (length a) origs) (drop (length b) nexts) ops
      else take (length b) nexts @ place (drop (length a) origs) (drop (length b) nexts) ops)"
| "place origs nexts (Del a # ops) = place (drop (length a) origs) nexts ops"
| "place origs nexts (Ins b # ops) = take (length b) nexts @ place origs (drop (length b) nexts) ops"

definition strip_newlines :: "jstr \<Rightarrow> jstr" where
  "strip_newlines s = rev (dropWhile (\<lambda>c. c = LF) (rev s))"

definition trailing_newlines :: "jstr \<Rightarrow> jstr" where
  "trailing_newlines s = takeWhile (\<lambda>c. c = LF) (rev s)"

definition preserve_wrapping :: "jstr option \<Rightarrow> jstr \<Rightarrow> jstr" where
  "preserve_wrapping originalBody newBody =
     (case originalBody of None \<Rightarrow> newBody
      | Some original \<Rightarrow>
          if original = [] then newBody
          else
            let origs = split_blocks original; nexts = split_blocks newBody;
                ops = diff_sequences (map block_key origs) (map block_key nexts)
            in strip_newlines (join [LF, LF] (place origs nexts ops)) @ trailing_newlines newBody)"

section \<open>The words of a text\<close>

definition spaces :: "jstr \<Rightarrow> bool" where
  "spaces s = list_all is_space s"

lemma split_spaces_ne [simp]: "split_spaces s \<noteq> []"
  by (induction s) (auto split: list.splits)

lemma split_spaces_append: "is_space c \<Longrightarrow> split_spaces (a @ c # b) = split_spaces a @ split_spaces b"
proof (induction a)
  case (Cons x a)
  obtain w ws where "split_spaces a = w # ws"
    by (cases "split_spaces a") auto
  with Cons show ?case by simp
qed simp

lemma tok_Nil [simp]: "tokenize_words [] = []"
  by (simp add: tokenize_words_def)

lemma tok_space [simp]: "is_space c \<Longrightarrow> tokenize_words (c # s) = tokenize_words s"
  by (simp add: tokenize_words_def)

lemma tok_append: "is_space c \<Longrightarrow> tokenize_words (a @ c # b) = tokenize_words a @ tokenize_words b"
  by (simp add: tokenize_words_def split_spaces_append)

lemma tok_spaces: "spaces sp \<Longrightarrow> tokenize_words sp = []"
  by (induction sp) (simp_all add: spaces_def)

lemma tok_prefix: "spaces sp \<Longrightarrow> tokenize_words (sp @ s) = tokenize_words s"
  by (induction sp) (simp_all add: spaces_def)

lemma tok_suffix: "spaces sp \<Longrightarrow> tokenize_words (s @ sp) = tokenize_words s"
  using tok_append [of _ s] tok_spaces by (cases sp) (simp_all add: spaces_def)

lemma tok_sep: "spaces sp \<Longrightarrow> sp \<noteq> [] \<Longrightarrow> tokenize_words (a @ sp @ b) = tokenize_words a @ tokenize_words b"
  using tok_append [of "hd sp" a "tl sp @ b"] tok_prefix [of "tl sp" b] by (cases sp) (simp_all add: spaces_def)

lemma LF_space [simp]: "is_space LF" "is_space CR" "is_space (CHR '' '')" "is_space TAB"
  by (simp_all add: is_space_def)

lemma word_pieces: "w \<in> set (split_spaces s) \<Longrightarrow> list_all (\<lambda>c. \<not> is_space c) w"
proof (induction s arbitrary: w)
  case (Cons x s)
  obtain v vs where "split_spaces s = v # vs"
    by (cases "split_spaces s") auto
  with Cons show ?case by (auto split: if_splits)
qed simp

definition word :: "jstr \<Rightarrow> bool" where
  "word w = (w \<noteq> [] \<and> list_all (\<lambda>c. \<not> is_space c) w)"

lemma tok_words: "w \<in> set (tokenize_words s) \<Longrightarrow> word w"
  using word_pieces by (auto simp: tokenize_words_def word_def)

lemma tok_word: "word w \<Longrightarrow> tokenize_words w = [w]"
proof -
  have "list_all (\<lambda>c. \<not> is_space c) w \<Longrightarrow> split_spaces w = [w]"
    by (induction w) auto
  then show "word w \<Longrightarrow> tokenize_words w = [w]"
    by (simp add: word_def tokenize_words_def)
qed

section \<open>Keys keep the words\<close>

lemma js_trim_parts: "\<exists>a b. s = a @ js_trim s @ b \<and> spaces a \<and> spaces b"
proof -
  let ?u = "dropWhile is_space s"
  have "s = takeWhile is_space s @ ?u"
    by simp
  moreover have "?u = js_trim s @ rev (takeWhile is_space (rev ?u))"
    unfolding js_trim_def by (metis rev_append rev_rev_ident takeWhile_dropWhile_id)
  ultimately have "s = takeWhile is_space s @ js_trim s @ rev (takeWhile is_space (rev ?u))"
    by metis
  moreover have "spaces (takeWhile is_space s)" "spaces (rev (takeWhile is_space (rev ?u)))"
    by (auto simp: spaces_def list_all_iff dest: set_takeWhileD)
  ultimately show ?thesis by blast
qed

lemma tok_trim: "tokenize_words (js_trim s) = tokenize_words s"
proof -
  obtain a b where s: "s = a @ js_trim s @ b" "spaces a" "spaces b"
    using js_trim_parts by blast
  have "tokenize_words (a @ js_trim s @ b) = tokenize_words (js_trim s)"
    using s(2,3) by (simp add: tok_prefix tok_suffix)
  then show ?thesis
    using s(1) by simp
qed

lemma tok_split: "tokenize_words s = (if hd (split_spaces s) = [] then [] else [hd (split_spaces s)]) @
    filter (\<lambda>w. w \<noteq> []) (tl (split_spaces s))"
  by (cases "split_spaces s") (simp_all add: tokenize_words_def)

lemma collapse_words:
  "(\<not> b \<longrightarrow> hd (split_spaces (collapse_spaces b s)) = hd (split_spaces s) \<and>
      filter (\<lambda>w. w \<noteq> []) (tl (split_spaces (collapse_spaces b s))) = filter (\<lambda>w. w \<noteq> []) (tl (split_spaces s))) \<and>
   tokenize_words (collapse_spaces b s) = tokenize_words s"
proof (induction b s rule: collapse_spaces.induct)
  case (2 inRun c r)
  obtain v vs where v: "split_spaces r = v # vs"
    by (cases "split_spaces r") auto
  obtain u us where u: "split_spaces (collapse_spaces False r) = u # us"
    by (cases "split_spaces (collapse_spaces False r)") auto
  show ?case
  proof (cases "is_space c")
    case True
    with 2 show ?thesis
      by (cases inRun) (simp_all add: tokenize_words_def)
  next
    case False
    with 2 u v show ?thesis
      by (simp add: tok_split)
  qed
qed simp

lemma tok_key: "tokenize_words (collapse_key s) = tokenize_words s"
  using collapse_words [of False s] by (simp add: collapse_key_def tok_trim)

lemma table_significant: "is_table b \<Longrightarrow> has_significant_whitespace b"
  by (cases "full_lines b") (auto simp: is_table_def has_significant_whitespace_def full_lines_def Let_def
      list_ex_iff list_all_iff filter_eq_Cons_iff)

lemma tok_restore: "block_key orig = block_key next \<Longrightarrow> \<not> is_table next \<Longrightarrow> tokenize_words (restore orig next) = tokenize_words next"
proof -
  assume k: "block_key orig = block_key next" and n: "\<not> is_table next"
  show ?thesis
  proof (cases "restore orig next = next")
    case False
    then have "\<not> is_table orig"
      using n table_significant by (auto simp: restore_def split: if_splits)
    then have "collapse_key orig = collapse_key next"
      using k n by (simp add: block_key_def)
    then have "tokenize_words orig = tokenize_words next"
      by (metis tok_key)
    then show ?thesis
      by (simp add: restore_def)
  qed simp
qed

section \<open>The walk keeps the words\<close>

abbreviation said :: "walk \<Rightarrow> jstr list" where
  "said w \<equiv> tokenize_words (concat (wOut w))"

lemma said_emit: "word v \<Longrightarrow> said (emit v w) = said w @ [v]"
  by (auto simp: emit_def tok_word tok_append)

lemma said_cross [simp]: "said (cross bs w) = said w"
  by (simp add: cross_def)

lemma said_deleted: "said (foldl (step_deleted bs) w a) = said w"
  by (induction a arbitrary: w) (simp_all add: step_deleted_def Let_def)

lemma said_kept: "\<forall>v \<in> set b. word v \<Longrightarrow> said (foldl (step_kept bs) w b) = said w @ b"
  by (induction b arbitrary: w) (simp_all add: step_kept_def Let_def said_emit)

lemma said_inserted: "\<forall>v \<in> set b. word v \<Longrightarrow> said (foldl (\<lambda>w word. emit word w) w b) = said w @ b"
  by (induction b arbitrary: w) (simp_all add: said_emit)

lemma said_ops: "\<forall>v \<in> set (news ops). word v \<Longrightarrow> said (foldl (walk_op bs) w ops) = said w @ news ops"
proof (induction ops arbitrary: w)
  case (Cons e ops)
  have "said (walk_op bs w e) = said w @ new_side e"
    using Cons.prems by (cases e) (simp_all add: said_deleted said_kept said_inserted)
  then show ?case
    using Cons by simp
qed simp

lemma tok_rewrap: "tokenize_words (rewrap_changed_block orig next) = tokenize_words next"
proof -
  have "\<forall>v \<in> set (news (diff_sequences (tokenize_words orig) (tokenize_words next))). word v"
    by (simp add: tok_words)
  then have "tokenize_words (rewrap_words orig next) = tokenize_words next"
    unfolding rewrap_words_def by (subst said_ops) simp_all
  then show ?thesis
    by (simp add: rewrap_changed_block_def)
qed

section \<open>Blocks keep the words\<close>

lemma skip_spaces: "skip_blank_lines s = Some r \<Longrightarrow> \<exists>sp. spaces sp \<and> s = sp @ r"
proof (induction s arbitrary: r rule: skip_blank_lines.induct)
  case (1 s)
  obtain c t where t: "dropWhile is_blank_char s = c # t"
    using "1.prems" by (cases "dropWhile is_blank_char s") (auto simp: skip_blank_lines.simps [of s])
  have c: "c = LF"
    using "1.prems" t by (auto simp: skip_blank_lines.simps [of s] split: if_splits)
  have s: "s = (takeWhile is_blank_char s @ [LF]) @ t"
    using t c by (metis append.assoc append_Cons append_Nil takeWhile_dropWhile_id)
  have b: "spaces (takeWhile is_blank_char s @ [LF])"
    by (auto simp: spaces_def list_all_iff is_blank_char_def dest!: set_takeWhileD)
  show ?case
  proof (cases "skip_blank_lines t")
    case None
    then have "r = t"
      using "1.prems" t c by (simp add: skip_blank_lines.simps [of s])
    then show ?thesis
      using s b by blast
  next
    case (Some r')
    then have "r = r'"
      using "1.prems" t c by (simp add: skip_blank_lines.simps [of s])
    then obtain sp where "spaces sp" "t = sp @ r"
      using "1.IH" [OF t c] Some by blast
    then show ?thesis
      using s b by (intro exI [of _ "(takeWhile is_blank_char s @ [LF]) @ sp"]) (simp add: spaces_def)
  qed
qed

lemma split_blocks_ne [simp]: "split_blocks s \<noteq> []"
  by (induction s rule: split_blocks.induct) (auto split: option.splits list.splits)

lemma split_blocks_shape:
  "split_blocks s = b # bs \<Longrightarrow>
   (bs = [] \<and> s = b) \<or> (\<exists>sp r. spaces sp \<and> sp \<noteq> [] \<and> s = b @ sp @ r \<and> split_blocks r = bs)"
proof (induction s arbitrary: b bs rule: split_blocks.induct)
  case (2 c r)
  show ?case
  proof (cases "c = LF \<and> skip_blank_lines r \<noteq> None")
    case True
    then obtain r' where r': "skip_blank_lines r = Some r'" by auto
    then obtain sp where "spaces sp" "r = sp @ r'"
      using skip_spaces by blast
    then have "spaces (LF # sp)" "c # r = [] @ (LF # sp) @ r'"
      using True by (simp_all add: spaces_def)
    moreover have "b = []" "bs = split_blocks r'"
      using "2.prems" True r' by auto
    ultimately show ?thesis by blast
  next
    case False
    obtain x xs where x: "split_blocks r = x # xs"
      by (cases "split_blocks r") auto
    have bb: "b = c # x" "bs = xs"
      using "2.prems" False x by (auto split: if_splits option.splits)
    have "(xs = [] \<and> r = x) \<or> (\<exists>sp t. spaces sp \<and> sp \<noteq> [] \<and> r = x @ sp @ t \<and> split_blocks t = xs)"
      using "2.IH" x False by (cases "c = LF") (auto split: option.splits)
    then show ?thesis
      unfolding bb by auto
  qed
qed simp

lemma tok_blocks: "concat (map tokenize_words (split_blocks s)) = tokenize_words s"
proof (induction "length s" arbitrary: s rule: less_induct)
  case less
  obtain b bs where b: "split_blocks s = b # bs"
    by (cases "split_blocks s") auto
  from split_blocks_shape [OF b] show ?case
  proof
    assume "bs = [] \<and> s = b"
    then show ?thesis using b by simp
  next
    assume "\<exists>sp r. spaces sp \<and> sp \<noteq> [] \<and> s = b @ sp @ r \<and> split_blocks r = bs"
    then obtain sp r where r: "spaces sp" "sp \<noteq> []" "s = b @ sp @ r" "split_blocks r = bs"
      by blast
    have "concat (map tokenize_words (split_blocks r)) = tokenize_words r"
      by (rule less) (use r(2,3) in simp)
    then show ?thesis
      using b r by (simp add: tok_sep)
  qed
qed

lemma tok_join: "tokenize_words (join [LF, LF] bs) = concat (map tokenize_words bs)"
proof (induction bs rule: induct_list012)
  case (3 x y zs)
  then show ?case
    using tok_append [of LF x "LF # join [LF, LF] (y # zs)"] by simp
qed simp_all

lemma side_split:
  "xs @ ys = map f zs \<Longrightarrow> xs = map f (take (length xs) zs) \<and> ys = map f (drop (length xs) zs)"
  by (metis append_eq_conv_conj take_map drop_map)

lemma tok_map2_restore:
  "map block_key xs = map block_key ys \<Longrightarrow> \<forall>b \<in> set ys. \<not> is_table b \<Longrightarrow>
   map tokenize_words (map2 restore xs ys) = map tokenize_words ys"
proof (induction ys arbitrary: xs)
  case (Cons y ys)
  then obtain x xs' where "xs = x # xs'" by (cases xs) auto
  with Cons show ?case by (simp add: tok_restore)
qed simp

lemma tok_map2_rewrap:
  "length xs = length ys \<Longrightarrow> map tokenize_words (map2 rewrap_changed_block xs ys) = map tokenize_words ys"
proof (induction ys arbitrary: xs)
  case (Cons y ys)
  then obtain x xs' where "xs = x # xs'" by (cases xs) auto
  with Cons show ?case by (simp add: tok_rewrap)
qed simp

lemma tok_take_drop:
  "map tokenize_words xs = map tokenize_words (take n ns) \<Longrightarrow>
   map tokenize_words ys = map tokenize_words (drop n ns) \<Longrightarrow>
   map tokenize_words (xs @ ys) = map tokenize_words ns"
  by (metis append_take_drop_id map_append)

lemma tok_place:
  "olds ops = map block_key os \<Longrightarrow> news ops = map block_key ns \<Longrightarrow> list_all honest ops \<Longrightarrow>
   \<forall>b \<in> set ns. \<not> is_table b \<Longrightarrow>
   map tokenize_words (place os ns ops) = map tokenize_words ns"
proof (induction os ns ops rule: place.induct [case_names 1 2 3 last_kept kept_then_kept kept_then_gone 5])
  case (2 os ns a b ops)
  have ab: "b = a"
    using "2.prems"(3) by simp
  have o: "a = map block_key (take (length a) os)" "olds ops = map block_key (drop (length a) os)"
    using side_split [of a "olds ops" block_key os] "2.prems"(1) by simp_all
  have n: "a = map block_key (take (length a) ns)" "news ops = map block_key (drop (length a) ns)"
    using side_split [of a "news ops" block_key ns] "2.prems"(2) ab by simp_all
  have "map tokenize_words (map2 restore (take (length a) os) (take (length a) ns)) =
      map tokenize_words (take (length a) ns)"
    by (rule tok_map2_restore) (use o(1) n(1) "2.prems"(4) in_set_takeD in \<open>metis, metis\<close>)
  moreover have "map tokenize_words (place (drop (length a) os) (drop (length a) ns) ops) =
      map tokenize_words (drop (length a) ns)"
    by (rule "2.IH") (use o n "2.prems"(3,4) in \<open>auto dest: in_set_dropD\<close>)
  ultimately show ?case
    unfolding place.simps by (rule tok_take_drop)
next
  case (3 os ns a b ops)
  have o: "a = map block_key (take (length a) os)" "olds ops = map block_key (drop (length a) os)"
    using side_split [of a "olds ops" block_key os] "3.prems"(1) by simp_all
  have n: "b = map block_key (take (length b) ns)" "news ops = map block_key (drop (length b) ns)"
    using side_split [of b "news ops" block_key ns] "3.prems"(2) by simp_all
  have r: "map tokenize_words (place (drop (length a) os) (drop (length b) ns) ops) =
      map tokenize_words (drop (length b) ns)"
    using "3.IH" o n "3.prems"(3,4) by (cases "length b = length a") (auto dest: in_set_dropD)
  show ?case
  proof (cases "length b = length a")
    case True
    have "length (take (length a) os) = length a" "length (take (length b) ns) = length b"
      using arg_cong [OF o(1), of length] arg_cong [OF n(1), of length] by simp_all
    then have m: "map tokenize_words (map2 rewrap_changed_block (take (length a) os) (take (length a) ns)) =
        map tokenize_words (take (length b) ns)"
      using True by (metis tok_map2_rewrap)
    show ?thesis
      unfolding place.simps if_P [OF True] by (rule tok_take_drop [OF m r])
  next
    case False
    show ?thesis
      unfolding place.simps if_not_P [OF False] by (rule tok_take_drop [OF refl r])
  qed
next
  case (last_kept os ns a)
  then show ?case by simp
next
  case (kept_then_kept os ns a c d ops)
  have "olds (Same c d # ops) = map block_key (drop (length a) os)"
    using side_split [of a "olds (Same c d # ops)" block_key os] kept_then_kept.prems(1) by simp
  then show ?case
    using kept_then_kept by simp
next
  case (kept_then_gone os ns a c ops)
  have "olds (Del c # ops) = map block_key (drop (length a) os)"
    using side_split [of a "olds (Del c # ops)" block_key os] kept_then_gone.prems(1) by simp
  then show ?case
    using kept_then_gone by simp
next
  case (5 os ns b ops)
  have n: "b = map block_key (take (length b) ns)" "news ops = map block_key (drop (length b) ns)"
    using side_split [of b "news ops" block_key ns] "5.prems"(2) by simp_all
  have r: "map tokenize_words (place os (drop (length b) ns) ops) = map tokenize_words (drop (length b) ns)"
    by (rule "5.IH") (use n "5.prems" in \<open>auto dest: in_set_dropD\<close>)
  show ?case
    unfolding place.simps by (rule tok_take_drop [OF refl r])
qed simp

section \<open>The whole document\<close>

lemma rev_constant: "\<forall>c \<in> set xs. c = d \<Longrightarrow> rev xs = xs"
proof -
  assume "\<forall>c \<in> set xs. c = d"
  then have "xs = replicate (length xs) d"
    by (intro replicate_eqI) auto
  then show "rev xs = xs" by (metis rev_replicate)
qed

lemma strip_parts: "strip_newlines s @ trailing_newlines s = s"
proof -
  let ?t = "takeWhile (\<lambda>c. c = LF) (rev s)"
  have "rev ?t = ?t"
    by (rule rev_constant [of _ LF]) (auto dest: set_takeWhileD)
  moreover have "rev (dropWhile (\<lambda>c. c = LF) (rev s)) @ rev ?t = rev (?t @ dropWhile (\<lambda>c. c = LF) (rev s))"
    by (simp only: rev_append)
  ultimately show ?thesis
    by (simp only: strip_newlines_def trailing_newlines_def takeWhile_dropWhile_id rev_rev_ident)
qed

lemma trailing_spaces: "spaces (trailing_newlines s)"
  by (auto simp: spaces_def trailing_newlines_def list_all_iff dest!: set_takeWhileD)

lemma tok_trailing: "tokenize_words (strip_newlines x @ trailing_newlines y) = tokenize_words x"
proof -
  have "tokenize_words x = tokenize_words (strip_newlines x @ trailing_newlines x)"
    by (simp only: strip_parts)
  also have "\<dots> = tokenize_words (strip_newlines x)"
    by (rule tok_suffix [OF trailing_spaces])
  also have "\<dots> = tokenize_words (strip_newlines x @ trailing_newlines y)"
    by (rule tok_suffix [OF trailing_spaces, symmetric])
  finally show ?thesis by (rule sym)
qed

lemma tok_preserve:
  assumes "\<forall>b \<in> set (split_blocks newBody). \<not> is_table b"
  shows "tokenize_words (preserve_wrapping original newBody) = tokenize_words newBody"
proof -
  have "tokenize_words (strip_newlines (join [LF, LF] (place (split_blocks o') (split_blocks newBody)
      (diff_sequences (map block_key (split_blocks o')) (map block_key (split_blocks newBody)))))
      @ trailing_newlines newBody) = tokenize_words newBody" for o'
    unfolding tok_trailing tok_join
    by (subst tok_place) (simp_all add: diff_sequences_honest assms tok_blocks)
  then show ?thesis
    by (auto simp: preserve_wrapping_def Let_def split: option.split)
qed

lemma place_same: "place os ns [Same a a] = map2 restore (take (length a) os) (take (length a) ns)"
  by simp

lemma map2_restore_all:
  "length os = length ns \<Longrightarrow>
   \<forall>b \<in> set (zip os ns). LF \<in> set (fst b) \<and> \<not> has_significant_whitespace (fst b) \<and> \<not> has_significant_whitespace (snd b) \<Longrightarrow>
   map2 restore os ns = os"
  by (induction os ns rule: list_induct2) (auto simp: restore_def)

lemma reflow:
  assumes "original \<noteq> []" and "map block_key (split_blocks original) = map block_key (split_blocks newBody)"
    and "\<forall>b \<in> set (zip (split_blocks original) (split_blocks newBody)).
      LF \<in> set (fst b) \<and> \<not> has_significant_whitespace (fst b) \<and> \<not> has_significant_whitespace (snd b)"
  shows "preserve_wrapping (Some original) newBody =
    strip_newlines (join [LF, LF] (split_blocks original)) @ trailing_newlines newBody"
proof -
  let ?os = "split_blocks original" and ?ns = "split_blocks newBody"
  have l: "length ?os = length ?ns"
    using assms(2) map_eq_imp_length_eq by blast
  have d: "diff_sequences (map block_key ?os) (map block_key ?ns) = [Same (map block_key ?os) (map block_key ?os)]"
    using assms(2) by (simp add: diff_sequences_self)
  have "place ?os ?ns [Same (map block_key ?os) (map block_key ?os)] = ?os"
    unfolding place_same using l map2_restore_all [OF l assms(3)] by simp
  then show ?thesis
    using assms(1) d by (simp add: preserve_wrapping_def Let_def)
qed

section \<open>Line breaks that mean something\<close>

text \<open>
  The guard knows fences, indented code and tables, not list items. A tight list has the
  same key whatever the nesting of its items, so un-nesting or nesting an item is undone;
  and an added item is joined to the line of the one before it.
\<close>

lemma nested_item_undone:
  "preserve_wrapping (Some [CHR ''-'', CHR '' '', CHR ''a'', LF, CHR ''-'', CHR '' '', CHR ''b''])
     [CHR ''-'', CHR '' '', CHR ''a'', LF, CHR '' '', CHR '' '', CHR ''-'', CHR '' '', CHR ''b''] =
   [CHR ''-'', CHR '' '', CHR ''a'', LF, CHR ''-'', CHR '' '', CHR ''b'']"
proof -
  let ?o = "[CHR ''-'', CHR '' '', CHR ''a'', LF, CHR ''-'', CHR '' '', CHR ''b'']"
  let ?n = "[CHR ''-'', CHR '' '', CHR ''a'', LF, CHR '' '', CHR '' '', CHR ''-'', CHR '' '', CHR ''b'']"
  have b: "split_blocks ?o = [?o]" "split_blocks ?n = [?n]"
    by (simp_all add: skip_blank_lines.simps is_blank_char_def)
  have k: "block_key ?o = block_key ?n"
    by (simp add: block_key_def is_table_def full_lines_def table_line_def collapse_key_def js_trim_def
        is_space_def is_blank_char_def starts_with_def)
  have g: "\<not> has_significant_whitespace ?o" "\<not> has_significant_whitespace ?n"
    by (simp_all add: has_significant_whitespace_def opens_fence_def leading_spaces_def table_line_def
        is_blank_char_def starts_with_def)
  have "preserve_wrapping (Some ?o) ?n = strip_newlines (join [LF, LF] (split_blocks ?o)) @ trailing_newlines ?n"
    by (rule reflow, unfold b) (use k g in simp_all)
  then show ?thesis
    unfolding b by (simp add: strip_newlines_def trailing_newlines_def)
qed

lemma added_item_joined:
  "rewrap_changed_block [CHR ''-'', CHR '' '', CHR ''a'', LF, CHR ''-'', CHR '' '', CHR ''b'']
     [CHR ''-'', CHR '' '', CHR ''a'', LF, CHR ''-'', CHR '' '', CHR ''b'', LF, CHR ''-'', CHR '' '', CHR ''c''] =
   [CHR ''-'', CHR '' '', CHR ''a'', LF, CHR ''-'', CHR '' '', CHR ''b'', CHR '' '', CHR ''-'', CHR '' '', CHR ''c'']"
proof -
  let ?o = "[CHR ''-'', CHR '' '', CHR ''a'', LF, CHR ''-'', CHR '' '', CHR ''b'']"
  let ?n = "[CHR ''-'', CHR '' '', CHR ''a'', LF, CHR ''-'', CHR '' '', CHR ''b'', LF, CHR ''-'', CHR '' '', CHR ''c'']"
  have g: "\<not> has_significant_whitespace ?o" "\<not> has_significant_whitespace ?n"
    by (simp_all add: has_significant_whitespace_def opens_fence_def leading_spaces_def table_line_def
        is_blank_char_def starts_with_def)
  have w: "tokenize_words ?o = [''-'', ''a'', ''-'', ''b'']"
    "tokenize_words ?n = [''-'', ''a'', ''-'', ''b'', ''-'', ''c'']"
    by (simp_all add: tokenize_words_def is_space_def)
  have d: "diff_sequences [''-'', ''a'', ''-'', ''b''] [''-'', ''a'', ''-'', ''b'', ''-'', ''c''] =
      [Same [''-'', ''a'', ''-'', ''b''] [''-'', ''a'', ''-'', ''b''], Ins [''-'', ''c'']]"
    by (simp add: diff_eval)
  have l: "line_boundaries ?o = [2]"
    by (simp add: line_boundaries_def tokenize_words_def is_space_def)
  have "rewrap_changed_block ?o ?n = rewrap_words ?o ?n"
    using g by (simp add: rewrap_changed_block_def)
  also have "\<dots> = [CHR ''-'', CHR '' '', CHR ''a'', LF, CHR ''-'', CHR '' '', CHR ''b'', CHR '' '', CHR ''-'', CHR '' '', CHR ''c'']"
    unfolding rewrap_words_def w d l
    by (simp add: step_kept_def emit_def cross_def Let_def)
  finally show ?thesis .
qed

section \<open>Properties\<close>

text \<open>
  C37: restoring the wrapping never changes the text. Whatever the file held before, the
  result has exactly the words the serialiser wrote, in their order, when no block it
  wrote is a table: only the white space between words can differ.
\<close>

theorem preserve_wrapping_keeps_words:
  assumes "\<forall>b \<in> set (split_blocks newBody). \<not> is_table b"
  shows "tokenize_words (preserve_wrapping original newBody) = tokenize_words newBody"
  by (rule tok_preserve [OF assms])

theorem preserve_wrapping_keeps_words_witness:
  "tokenize_words (preserve_wrapping (Some [CHR ''a'', LF, CHR ''b'']) ''a c b'') = [''a'', ''c'', ''b'']"
proof -
  have "tokenize_words ''a c b'' = [''a'', ''c'', ''b'']"
    by (simp add: tokenize_words_def is_space_def)
  then show ?thesis
    by (subst preserve_wrapping_keeps_words)
      (simp_all add: is_table_def full_lines_def js_trim_def is_space_def)
qed

text \<open>
  C38: a reflow is undone. When every block of the new body is the same prose as the
  file's block in its place, and each of the file's is hand-wrapped prose, the file's own
  line breaks come back exactly, with the new body's final newlines.
\<close>

theorem reflow_undone:
  assumes "original \<noteq> []" and "map block_key (split_blocks original) = map block_key (split_blocks newBody)"
    and "\<forall>b \<in> set (zip (split_blocks original) (split_blocks newBody)).
      LF \<in> set (fst b) \<and> \<not> has_significant_whitespace (fst b) \<and> \<not> has_significant_whitespace (snd b)"
  shows "preserve_wrapping (Some original) newBody =
    strip_newlines (join [LF, LF] (split_blocks original)) @ trailing_newlines newBody"
  by (rule reflow [OF assms])

theorem reflow_undone_witness:
  "preserve_wrapping (Some [CHR ''a'', LF, CHR ''b'']) [CHR ''a'', CHR '' '', CHR ''b'', LF] = [CHR ''a'', LF, CHR ''b'', LF]"
proof -
  let ?n = "[CHR ''a'', CHR '' '', CHR ''b'', LF]"
  have b: "split_blocks [CHR ''a'', LF, CHR ''b''] = [[CHR ''a'', LF, CHR ''b'']]" "split_blocks ?n = [?n]"
    by (simp_all add: skip_blank_lines.simps is_blank_char_def)
  have "preserve_wrapping (Some [CHR ''a'', LF, CHR ''b'']) ?n =
      strip_newlines (join [LF, LF] (split_blocks [CHR ''a'', LF, CHR ''b''])) @ trailing_newlines ?n"
    by (rule reflow_undone, unfold b)
      (simp_all add: block_key_def is_table_def full_lines_def js_trim_def is_space_def collapse_key_def
        has_significant_whitespace_def opens_fence_def leading_spaces_def table_line_def is_blank_char_def
        starts_with_def)
  then show ?thesis
    unfolding b by (simp add: strip_newlines_def trailing_newlines_def)
qed

end
