(* ===== verification/History_Store.thy ===== *)
theory History_Store
  imports Studio_Prelude
begin

text \<open>
  browser/history-store.js: the audit trail of one document, an entry list with snapshots,
  capped at 200, in which consecutive edits of one author within two minutes collapse.
  The sidecar is a state of three cases (missing, unreadable, a list); an absent string
  argument and the empty one are both falsy to the code and both the empty list here.
  The id, the clock, \<open>Date.parse\<close>, the person at the editor and whether the two
  ways of writing succeed are arguments. The theorems are the shape of the list after
  one record, and that any session keeps exactly the most recent entries and every event
  that is not an edit.
\<close>

section \<open>Entries\<close>

record hentry =
  eId :: jstr
  eAt :: jstr
  eAuthor :: jstr
  eAuthorKey :: "jstr option"
  eKind :: jstr
  eLabel :: jstr
  eTitle :: jstr
  eDetail :: jstr
  eProposal :: "jstr option"
  eComment :: "jstr option"
  eHunk :: "jstr option"
  eSnapshot :: "jstr option"

record event =
  vKind :: jstr
  vTitle :: jstr
  vDetail :: jstr
  vBody :: "jstr option"
  vAuthor :: jstr
  vAuthorKey :: jstr
  vProposal :: "jstr option"
  vComment :: "jstr option"
  vHunk :: "jstr option"

definition MAX_ENTRIES :: nat where
  "MAX_ENTRIES = 200"

definition COALESCE_MS :: int where
  "COALESCE_MS = 120000"

definition KINDS :: "(jstr \<times> (jstr \<times> bool)) list" where
  "KINDS = [(''edit'', (''Edited'', True)), (''restore'', (''Restored'', True)),
     (''accept'', (''Accepted change'', True)), (''reject'', (''Rejected change'', True)),
     (''proposal'', (''AI proposed changes'', False)), (''comment'', (''Commented'', False)),
     (''comment-resolved'', (''Resolved comment'', False)),
     (''remote-edit'', (''Collaborator edited'', True))]"

definition kind_spec :: "jstr \<Rightarrow> jstr \<times> bool" where
  "kind_spec k = (case map_of KINDS k of Some s \<Rightarrow> s | None \<Rightarrow> (k, False))"

text \<open>The name and the key of the person at this editor, when there is one with a name.\<close>

type_synonym person = "(jstr \<times> jstr) option"

definition current_person :: "person \<Rightarrow> person" where
  "current_person r = (case r of Some (n, k) \<Rightarrow> (if n = [] then None else Some (n, k)) | None \<Rightarrow> None)"

definition author_name :: "person \<Rightarrow> event \<Rightarrow> jstr" where
  "author_name me v =
     (if vAuthor v \<noteq> [] then vAuthor v
      else case current_person me of Some (n, _) \<Rightarrow> n | None \<Rightarrow> ''you'')"

definition author_key :: "person \<Rightarrow> event \<Rightarrow> jstr option" where
  "author_key me v =
     (if vAuthorKey v \<noteq> [] then Some (vAuthorKey v)
      else if vAuthor v \<noteq> [] then None else map_option snd (current_person me))"

definition made_entry :: "jstr \<Rightarrow> jstr \<Rightarrow> person \<Rightarrow> event \<Rightarrow> hentry" where
  "made_entry i now me v =
     (let (label, snap) = kind_spec (vKind v)
      in \<lparr>eId = i, eAt = now, eAuthor = author_name me v, eAuthorKey = author_key me v,
          eKind = vKind v, eLabel = label, eTitle = (if vTitle v = [] then label else vTitle v),
          eDetail = vDetail v, eProposal = vProposal v, eComment = vComment v, eHunk = vHunk v,
          eSnapshot = (if snap then vBody v else None)\<rparr>)"

section \<open>The list\<close>

text \<open>\<open>Date.parse\<close> of a text that is no date is NaN, here None: no comparison with it holds.\<close>

definition coalesces :: "(jstr \<Rightarrow> int option) \<Rightarrow> hentry \<Rightarrow> hentry \<Rightarrow> bool" where
  "coalesces date r l =
     (eKind r = ''edit'' \<and> eKind l = ''edit'' \<and> eAuthor l = eAuthor r \<and>
      (case (date (eAt r), date (eAt l)) of (Some a, Some b) \<Rightarrow> a - b < COALESCE_MS | _ \<Rightarrow> False))"

definition merged :: "hentry \<Rightarrow> hentry \<Rightarrow> hentry" where
  "merged r l =
     l\<lparr>eAt := eAt r, eTitle := eTitle r, eDetail := eDetail r,
       eSnapshot := (if eSnapshot r = None then eSnapshot l else eSnapshot r)\<rparr>"

definition add_entry :: "(jstr \<Rightarrow> int option) \<Rightarrow> hentry list \<Rightarrow> hentry \<Rightarrow> hentry list" where
  "add_entry date es r =
     (if es \<noteq> [] \<and> coalesces date r (last es) then butlast es @ [merged r (last es)] else es @ [r])"

function trim_oldest :: "hentry list \<Rightarrow> hentry list" where
  "trim_oldest es = (if length es > MAX_ENTRIES then trim_oldest (tl es) else es)"
  by pat_completeness auto
termination
  by (relation "measure length") (auto simp: MAX_ENTRIES_def)

declare trim_oldest.simps [simp del]

section \<open>The sidecar\<close>

datatype history_file = NoFile | Unreadable | Entries "hentry list"

fun load_history :: "history_file \<Rightarrow> hentry list" where
  "load_history (Entries es) = es"
| "load_history NoFile = []"
| "load_history Unreadable = []"

text \<open>\<open>written\<close> and \<open>created\<close>: whether \<open>write\<close>, and after its failure \<open>createFile\<close>,
  succeed. When both fail the exception leaves \<open>record\<close> and the hf as it was.\<close>

definition write_history :: "bool \<Rightarrow> bool \<Rightarrow> hentry list \<Rightarrow> history_file \<Rightarrow> history_file option" where
  "write_history written created es hf = (if written then Some (Entries es) else if created then Some (Entries es) else None)"

definition record_event ::
  "(jstr \<Rightarrow> int option) \<Rightarrow> jstr \<Rightarrow> jstr \<Rightarrow> person \<Rightarrow> bool \<Rightarrow> bool \<Rightarrow> event \<Rightarrow> history_file \<Rightarrow>
   hentry list option \<times> history_file" where
  "record_event date i now me written created v hf =
     (let es = trim_oldest (add_entry date (load_history hf) (made_entry i now me v))
      in case write_history written created es hf of
           Some hf' \<Rightarrow> (Some es, hf')
         | None \<Rightarrow> (None, hf))"

section \<open>Trimming\<close>

lemma trim_oldest_drop: "trim_oldest es = drop (length es - MAX_ENTRIES) es"
proof (induction es rule: trim_oldest.induct)
  case (1 es)
  show ?case
  proof (cases "length es > MAX_ENTRIES")
    case True
    then have e: "length es - MAX_ENTRIES = Suc (length (tl es) - MAX_ENTRIES)"
      by simp
    show ?thesis
      using 1 True by (simp only: trim_oldest.simps [of es] if_True e drop_Suc)
  qed (simp add: trim_oldest.simps [of es])
qed

lemma trim_oldest_last: "es \<noteq> [] \<Longrightarrow> trim_oldest es \<noteq> [] \<and> last (trim_oldest es) = last es"
  by (cases es) (simp_all add: trim_oldest_drop last_drop MAX_ENTRIES_def)

lemma add_entry_ne [simp]: "add_entry date es r \<noteq> []"
  by (simp add: add_entry_def)

lemma length_add_entry: "length es \<le> length (add_entry date es r) \<and> length (add_entry date es r) \<le> Suc (length es)"
  by (auto simp: add_entry_def)

lemma drop_add_entry:
  assumes "k < length es \<or> k = 0"
  shows "add_entry date (drop k es) r = drop k (add_entry date es r)"
proof (cases "k = 0")
  case False
  then have k: "k < length es" and d: "drop k es \<noteq> []" "es \<noteq> []" "last (drop k es) = last es"
    using assms by (auto simp: last_drop)
  have b: "butlast (drop k es) = drop k (butlast es)"
    by (simp add: butlast_drop)
  show ?thesis
    using k d by (auto simp: add_entry_def b)
qed simp

text \<open>Cutting the list at every record is cutting it once at the end.\<close>

lemma trim_add_trim: "trim_oldest (add_entry date (trim_oldest es) r) = trim_oldest (add_entry date es r)"
proof -
  let ?k = "length es - MAX_ENTRIES"
  let ?a = "add_entry date es r"
  have k: "?k < length es \<or> ?k = 0"
    by (auto simp: MAX_ENTRIES_def)
  have "add_entry date (trim_oldest es) r = drop ?k ?a"
    using drop_add_entry [OF k] by (simp only: trim_oldest_drop)
  moreover have "?k \<le> length ?a - MAX_ENTRIES"
    using length_add_entry [of es date r] by linarith
  then have "length (drop ?k ?a) - MAX_ENTRIES + ?k = length ?a - MAX_ENTRIES"
    using length_add_entry [of es date r] by simp
  ultimately show ?thesis
    by (simp only: trim_oldest_drop drop_drop)
qed

lemma foldl_trim:
  "foldl (\<lambda>es r. trim_oldest (add_entry date es r)) (trim_oldest es0) rs = trim_oldest (foldl (add_entry date) es0 rs)"
  by (induction rs arbitrary: es0) (simp_all add: trim_add_trim)

section \<open>Events\<close>

abbreviation audit :: "hentry list \<Rightarrow> hentry list" where
  "audit es \<equiv> filter (\<lambda>e. eKind e \<noteq> ''edit'') es"

lemma merged_kind [simp]: "eKind (merged r l) = eKind l"
  by (simp add: merged_def)

lemma coalesced_edit: "coalesces date r l \<Longrightarrow> eKind l = ''edit'' \<and> eKind r = ''edit''"
  unfolding coalesces_def by blast

lemma audit_add: "audit (add_entry date es r) = audit es @ audit [r]"
proof (cases "es \<noteq> [] \<and> coalesces date r (last es)")
  case True
  then have k: "eKind (last es) = ''edit''" "eKind r = ''edit''"
    using coalesced_edit by blast+
  have e: "es = butlast es @ [last es]"
    using True by simp
  have "audit es = audit (butlast es)"
    by (subst e, subst filter_append) (simp add: k)
  then show ?thesis
    using True k by (simp add: add_entry_def)
qed (auto simp: add_entry_def)

lemma audit_fold: "audit (foldl (add_entry date) es rs) = audit es @ audit rs"
  by (induction rs arbitrary: es) (simp_all add: audit_add)

lemma length_fold: "length (foldl (add_entry date) es rs) \<le> length es + length rs"
proof (induction rs arbitrary: es)
  case (Cons r rs)
  show ?case
    using Cons [of "add_entry date es r"] length_add_entry [of es date r] by simp
qed simp

lemma add_entry_last:
  "eAt (last (add_entry date es r)) = eAt r \<and> eTitle (last (add_entry date es r)) = eTitle r \<and>
   eDetail (last (add_entry date es r)) = eDetail r \<and> eKind (last (add_entry date es r)) = eKind r \<and>
   eAuthor (last (add_entry date es r)) = eAuthor r \<and>
   (eSnapshot r \<noteq> None \<longrightarrow> eSnapshot (last (add_entry date es r)) = eSnapshot r)"
  by (auto simp: add_entry_def merged_def coalesces_def)

text \<open>The list after one record, when one of the two writes succeeds.\<close>

lemma record_event_written:
  "w \<or> c \<Longrightarrow> record_event date i now me w c v hf =
     (let es = trim_oldest (add_entry date (load_history hf) (made_entry i now me v)) in (Some es, Entries es))"
  by (auto simp: record_event_def write_history_def Let_def)

definition session ::
  "(jstr \<Rightarrow> int option) \<Rightarrow> (jstr \<times> jstr \<times> person \<times> event) list \<Rightarrow> history_file \<Rightarrow> history_file" where
  "session date evs hf =
     foldl (\<lambda>f (i, now, me, v). snd (record_event date i now me True True v f)) hf evs"

abbreviation entry_of :: "jstr \<times> jstr \<times> person \<times> event \<Rightarrow> hentry" where
  "entry_of e \<equiv> (case e of (i, now, me, v) \<Rightarrow> made_entry i now me v)"

lemma session_fold:
  "load_history (session date evs hf) =
   foldl (\<lambda>es r. trim_oldest (add_entry date es r)) (load_history hf) (map entry_of evs)"
  by (induction evs arbitrary: hf)
    (simp_all add: session_def record_event_written Let_def split_beta)

section \<open>Properties\<close>

definition sample_edit :: event where
  "sample_edit = \<lparr>vKind = ''edit'', vTitle = [], vDetail = [], vBody = Some ''two'', vAuthor = [],
     vAuthorKey = [], vProposal = None, vComment = None, vHunk = None\<rparr>"

definition sample_entry :: hentry where
  "sample_entry = made_entry ''e-0'' ''0'' (Some (''Ann'', ''k1'')) sample_edit"

definition sample_date :: "jstr \<Rightarrow> int option" where
  "sample_date s = (if s = ''0'' then Some 0 else if s = ''9'' then Some 9 else None)"

lemmas history_eval = sample_edit_def sample_entry_def sample_date_def made_entry_def kind_spec_def KINDS_def
  author_name_def author_key_def current_person_def coalesces_def merged_def COALESCE_MS_def MAX_ENTRIES_def

text \<open>
  After one record the sidecar holds at most 200 entries; the last one has the time, title, kind,
  author and, for a kind that takes one, the snapshot of the event; the ones before it are the most
  recent entries the sidecar held, untouched. The event replaces the last entry exactly when both
  are edits of one author name less than two minutes apart; otherwise it is appended.
\<close>
theorem record_keeps_latest:
  assumes "w \<or> c"
  shows "\<exists>es. record_event date i now me w c v hf = (Some es, Entries es) \<and>
    length es \<le> 200 \<and> es \<noteq> [] \<and>
    eAt (last es) = now \<and> eKind (last es) = vKind v \<and> eAuthor (last es) = author_name me v \<and>
    eTitle (last es) = eTitle (made_entry i now me v) \<and>
    (snd (kind_spec (vKind v)) \<and> vBody v \<noteq> None \<longrightarrow> eSnapshot (last es) = vBody v) \<and>
    (let old = load_history hf; r = made_entry i now me v;
         kept = (if old \<noteq> [] \<and> coalesces date r (last old) then butlast old else old)
     in butlast es = drop (Suc (length kept) - 200) kept)"
proof -
  let ?old = "load_history hf" and ?r = "made_entry i now me v"
  let ?a = "add_entry date ?old ?r"
  let ?es = "trim_oldest ?a"
  let ?kept = "if ?old \<noteq> [] \<and> coalesces date ?r (last ?old) then butlast ?old else ?old"
  have len: "length ?es \<le> 200"
    by (simp add: trim_oldest_drop MAX_ENTRIES_def)
  have l: "last ?es = last ?a" "?es \<noteq> []"
    using trim_oldest_last by auto
  have r: "eAt ?r = now" "eKind ?r = vKind v" "eAuthor ?r = author_name me v"
    "snd (kind_spec (vKind v)) \<Longrightarrow> eSnapshot ?r = vBody v"
    by (simp_all add: made_entry_def split_beta)
  have b: "butlast ?a = ?kept" "length ?a = Suc (length ?kept)"
    by (auto simp: add_entry_def)
  have "butlast ?es = drop (Suc (length ?kept) - 200) ?kept"
    by (simp only: trim_oldest_drop butlast_drop b MAX_ENTRIES_def)
  then have k: "let old = load_history hf; r = made_entry i now me v;
         kept = (if old \<noteq> [] \<and> coalesces date r (last old) then butlast old else old)
     in butlast ?es = drop (Suc (length kept) - 200) kept"
    by (simp only: Let_def)
  show ?thesis
    apply (rule exI [of _ ?es])
    using record_event_written [OF assms, of date i now me v hf] len l k add_entry_last [of date ?old ?r] r
    by (metis (no_types, lifting))
qed

definition whole :: "(jstr \<Rightarrow> int option) \<Rightarrow> (jstr \<times> jstr \<times> person \<times> event) list \<Rightarrow> hentry list" where
  "whole date evs = foldl (add_entry date) [] (map entry_of evs)"

text \<open>
  Whatever is recorded on a document, in any order and by anybody, its trail is the 200 most recent
  entries of the trail that is never cut, and that one holds every event that is not an edit, in order
  and exactly as recorded: keystroke checkpoints collapse only into each other.
\<close>
theorem audit_events_survive:
  "load_history (session date evs NoFile) = drop (length (whole date evs) - 200) (whole date evs) \<and>
    audit (whole date evs) = audit (map entry_of evs) \<and> length (whole date evs) \<le> length evs"
proof -
  have "load_history (session date evs NoFile) = trim_oldest (whole date evs)"
    using foldl_trim [of date "[]" "map entry_of evs"]
    by (simp add: session_fold whole_def trim_oldest_drop)
  then show ?thesis
    using audit_fold [of date "[]" "map entry_of evs"] length_fold [of date "[]" "map entry_of evs"]
    by (simp add: trim_oldest_drop whole_def MAX_ENTRIES_def)
qed

lemma unreadable_history_lost:
  "record_event date i now me True c v Unreadable = (Some [made_entry i now me v], Entries [made_entry i now me v])"
  by (simp add: record_event_written Let_def add_entry_def trim_oldest_drop MAX_ENTRIES_def)

lemma namesakes_coalesce:
  "coalesces sample_date (made_entry ''e-1'' ''9'' (Some (''Ann'', ''k2'')) sample_edit) sample_entry"
  by (simp add: history_eval)

end
