(* ===== verification/Session_Lock.thy ===== *)
theory Session_Lock
  imports Studio_Prelude
begin

text \<open>
  browser/session-lock.js: the tabs of one user that hold the same document find each
  other over a broadcast channel. A tab is the object's fields, the promises its claims
  returned and the handler calls it made; every method returns the new tab and what it
  posted. The network is a step relation: tabs open with a fresh id, act, and receive
  messages in any order. The theorems are that no warning is ever false, that only a tab
  that was told of another can make it drop its draft, that a promise settles once, and
  that a holder is found when its answer arrives in time.
\<close>

section \<open>Tabs and messages\<close>

record other =
  oTab :: jstr
  oDirty :: bool
  oOpenedAt :: jstr

datatype body = Claim | Held bool jstr jstr | Yield jstr | Focus jstr | Release

record lock_message =
  mBody :: body
  mKey :: jstr
  mFrom :: jstr

datatype heard = YieldRequested jstr | FocusRequested jstr | OtherClosed jstr

text \<open>\<open>tClaims\<close>: the promise of each call of claim_session, None until it is resolved;
  \<open>tPending\<close>: the call whose closure is \<open>this.pendingClaim\<close>.\<close>

record tab =
  tKey :: jstr
  tId :: jstr
  tDirty :: bool
  tOpenedAt :: jstr
  tChannel :: bool
  tOther :: "other option"
  tClaims :: "other option option list"
  tPending :: "nat option"
  tHeard :: "heard list"

definition new_tab :: "jstr \<Rightarrow> jstr \<Rightarrow> jstr \<Rightarrow> bool \<Rightarrow> tab" where
  "new_tab key i now channel =
     \<lparr>tKey = key, tId = i, tDirty = False, tOpenedAt = now, tChannel = channel, tOther = None,
      tClaims = [], tPending = None, tHeard = []\<rparr>"

definition post :: "body \<Rightarrow> tab \<Rightarrow> lock_message list" where
  "post b t = (if tChannel t then [\<lparr>mBody = b, mKey = tKey t, mFrom = tId t\<rparr>] else [])"

text \<open>The closure of the k-th claim, called with an answer.\<close>

definition pending_claim :: "nat \<Rightarrow> jstr \<Rightarrow> bool \<Rightarrow> jstr \<Rightarrow> tab \<Rightarrow> tab" where
  "pending_claim k from dirty openedAt t =
     (if tClaims t ! k \<noteq> None then t
      else let x = \<lparr>oTab = from, oDirty = dirty, oOpenedAt = openedAt\<rparr>
        in t\<lparr>tPending := None, tOther := Some x, tClaims := (tClaims t)[k := Some (Some x)]\<rparr>)"

definition on_message :: "lock_message \<Rightarrow> tab \<Rightarrow> tab \<times> lock_message list" where
  "on_message m t =
     (if mKey m \<noteq> tKey t \<or> mFrom m = tId t then (t, [])
      else case mBody m of
          Claim \<Rightarrow> (t, post (Held (tDirty t) (tOpenedAt t) (mFrom m)) t)
        | Held dirty openedAt to \<Rightarrow>
            (case tPending t of
               Some k \<Rightarrow> (if to = tId t then pending_claim k (mFrom m) dirty openedAt t else t, [])
             | None \<Rightarrow> (t, []))
        | Yield to \<Rightarrow> (if to = tId t then t\<lparr>tHeard := tHeard t @ [YieldRequested (mFrom m)]\<rparr> else t, [])
        | Focus to \<Rightarrow> (if to = tId t then t\<lparr>tHeard := tHeard t @ [FocusRequested (mFrom m)]\<rparr> else t, [])
        | Release \<Rightarrow> (t\<lparr>tHeard := tHeard t @ [OtherClosed (mFrom m)]\<rparr>, []))"

definition claim_session :: "tab \<Rightarrow> tab \<times> lock_message list" where
  "claim_session t =
     (if \<not> tChannel t then (t\<lparr>tClaims := tClaims t @ [Some None]\<rparr>, [])
      else (t\<lparr>tPending := Some (length (tClaims t)), tClaims := tClaims t @ [None]\<rparr>, post Claim t))"

definition claim_timeout :: "nat \<Rightarrow> tab \<Rightarrow> tab" where
  "claim_timeout k t =
     (if length (tClaims t) \<le> k \<or> tClaims t ! k \<noteq> None then t
      else t\<lparr>tPending := None, tClaims := (tClaims t)[k := Some None]\<rparr>)"

definition set_dirty :: "bool \<Rightarrow> tab \<Rightarrow> tab" where
  "set_dirty dirty t = t\<lparr>tDirty := dirty\<rparr>"

definition focus_other :: "tab \<Rightarrow> tab \<times> lock_message list" where
  "focus_other t = (case tOther t of None \<Rightarrow> (t, []) | Some x \<Rightarrow> (t, post (Focus (oTab x)) t))"

definition take_over :: "tab \<Rightarrow> tab \<times> lock_message list" where
  "take_over t =
     (case tOther t of None \<Rightarrow> (t, []) | Some x \<Rightarrow> (t\<lparr>tOther := None\<rparr>, post (Yield (oTab x)) t))"

definition release :: "tab \<Rightarrow> tab \<times> lock_message list" where
  "release t = (t\<lparr>tChannel := False\<rparr>, post Release t)"

section \<open>The network\<close>

datatype act = DoClaim | Timeout nat | SetDirty bool | FocusOther | TakeOver | DoRelease

fun perform :: "act \<Rightarrow> tab \<Rightarrow> tab \<times> lock_message list" where
  "perform DoClaim t = claim_session t"
| "perform (Timeout k) t = (claim_timeout k t, [])"
| "perform (SetDirty d) t = (set_dirty d t, [])"
| "perform FocusOther t = focus_other t"
| "perform TakeOver t = take_over t"
| "perform DoRelease t = release t"

text \<open>The tabs, and the messages under way with the position of their receiver. A post
  goes to every other tab whose channel is open.\<close>

type_synonym net = "tab list \<times> (nat \<times> lock_message) list"

definition broadcast :: "nat \<Rightarrow> tab list \<Rightarrow> lock_message list \<Rightarrow> (nat \<times> lock_message) list" where
  "broadcast i ts ms =
     concat (map (\<lambda>m. map (\<lambda>j. (j, m)) (filter (\<lambda>j. j \<noteq> i \<and> tChannel (ts ! j)) [0..<length ts])) ms)"

inductive net_step :: "net \<Rightarrow> net \<Rightarrow> bool" where
  opened: "i \<notin> set (map tId ts) \<Longrightarrow> net_step (ts, w) (ts @ [new_tab key i now channel], w)"
| acted: "i < length ts \<Longrightarrow> perform a (ts ! i) = (t', ms) \<Longrightarrow>
    net_step (ts, w) (ts[i := t'], w @ broadcast i ts ms)"
| delivered: "i < length ts \<Longrightarrow> tChannel (ts ! i) \<Longrightarrow> on_message m (ts ! i) = (t', ms) \<Longrightarrow>
    net_step (ts, u @ (i, m) # v) (ts[i := t'], u @ v @ broadcast i ts ms)"
| dropped: "net_step (ts, u @ (i, m) # v) (ts, u @ v)"

inductive reachable_net :: "net \<Rightarrow> bool" where
  start: "reachable_net ([], [])"
| step: "reachable_net n \<Longrightarrow> net_step n n' \<Longrightarrow> reachable_net n'"

section \<open>What a tab was told\<close>

definition told :: "tab \<Rightarrow> other set" where
  "told t = {x. Some (Some x) \<in> set (tClaims t)}"

definition sent_by :: "tab \<Rightarrow> lock_message \<Rightarrow> bool" where
  "sent_by t m = (mFrom m = tId t \<and> mKey m = tKey t \<and>
     (case mBody m of Held d opn to \<Rightarrow> opn = tOpenedAt t | Yield to \<Rightarrow> (\<exists>x \<in> told t. oTab x = to) | _ \<Rightarrow> True))"

definition keeps :: "tab \<Rightarrow> tab \<Rightarrow> bool" where
  "keeps t t' = (tKey t' = tKey t \<and> tId t' = tId t \<and> tOpenedAt t' = tOpenedAt t \<and> told t \<subseteq> told t' \<and>
     (\<forall>k < length (tClaims t). tClaims t ! k \<noteq> None \<longrightarrow> k < length (tClaims t') \<and> tClaims t' ! k = tClaims t ! k))"

text \<open>A tab's own state: the other session is one it was told of, and an installed closure
  belongs to a claim that is not settled.\<close>

definition sound_tab :: "tab \<Rightarrow> bool" where
  "sound_tab t = (set_option (tOther t) \<subseteq> told t \<and>
     (case tPending t of None \<Rightarrow> True | Some k \<Rightarrow> k < length (tClaims t) \<and> tClaims t ! k = None))"

lemma sound_tab_flags [simp]:
  "sound_tab (t\<lparr>tHeard := h\<rparr>) = sound_tab t" "sound_tab (t\<lparr>tDirty := d\<rparr>) = sound_tab t"
  "sound_tab (t\<lparr>tChannel := c\<rparr>) = sound_tab t"
  by (simp_all add: sound_tab_def told_def split: option.split)

lemma told_flags [simp]:
  "told (t\<lparr>tHeard := h\<rparr>) = told t" "told (t\<lparr>tDirty := d\<rparr>) = told t" "told (t\<lparr>tChannel := c\<rparr>) = told t"
  "told (t\<lparr>tOther := x\<rparr>) = told t"
  by (simp_all add: told_def)

lemma told_append [simp]: "told (t\<lparr>tClaims := xs @ [y]\<rparr>) = {x. Some (Some x) \<in> set xs} \<union> {x. y = Some (Some x)}"
  by (auto simp: told_def)

lemma keeps_refl [simp]: "keeps t t"
  by (simp add: keeps_def)

lemma settle_set:
  "k < length xs \<Longrightarrow> xs ! k = None \<Longrightarrow> set (xs[k := Some y]) \<supseteq> {x. x \<in> set xs \<and> x \<noteq> None}"
proof clarify
  fix z
  assume k: "k < length xs" "xs ! k = None" and z: "Some z \<in> set xs"
  then obtain j where j: "j < length xs" "xs ! j = Some z"
    by (auto simp: in_set_conv_nth)
  then have "xs[k := Some y] ! j = Some z"
    using k by (auto simp: nth_list_update)
  then show "Some z \<in> set (xs[k := Some y])"
    using j(1) nth_mem [of j "xs[k := Some y]"] by simp
qed

lemma settle_told:
  "k < length xs \<Longrightarrow> xs ! k = None \<Longrightarrow>
   {x. Some (Some x) \<in> set (xs[k := Some y])} = {x. Some (Some x) \<in> set xs} \<union> {x. y = Some x}"
proof -
  assume a: "k < length xs" "xs ! k = None"
  have "Some (Some x) \<in> set (xs[k := Some y]) \<longleftrightarrow> Some (Some x) \<in> set xs \<or> y = Some x" for x
    using settle_set [OF a, of y] set_update_subset_insert [of xs k "Some y"] set_update_memI [OF a(1), of "Some y"]
    by blast
  then show ?thesis by blast
qed

lemma pending_claim_keeps:
  assumes "k < length (tClaims t)"
  shows "keeps t (pending_claim k f d opn t)"
proof (cases "tClaims t ! k")
  case None
  then show ?thesis
    using assms settle_told [OF assms None] by (auto simp: pending_claim_def keeps_def told_def Let_def nth_list_update)
qed (simp add: pending_claim_def)

lemma pending_claim_told:
  assumes "k < length (tClaims t)"
  shows "told (pending_claim k f d opn t) \<subseteq> insert \<lparr>oTab = f, oDirty = d, oOpenedAt = opn\<rparr> (told t)"
proof (cases "tClaims t ! k")
  case None
  then show ?thesis
    using settle_told [OF assms None] by (auto simp: pending_claim_def told_def Let_def)
qed (simp add: pending_claim_def subset_insertI)

lemma pending_claim_heard [simp]: "tHeard (pending_claim k f d opn t) = tHeard t"
  by (simp add: pending_claim_def Let_def)

lemma pending_claim_sound:
  assumes "sound_tab t" and "tPending t = Some k"
  shows "sound_tab (pending_claim k f d opn t)"
  using assms settle_told [of k "tClaims t"]
  by (auto simp: sound_tab_def pending_claim_def told_def Let_def)

lemma post_sent: "m \<in> set (post b t) \<Longrightarrow> mBody m = b \<and> mKey m = tKey t \<and> mFrom m = tId t"
  by (auto simp: post_def split: if_splits)

lemma perform_tab:
  assumes "sound_tab t" and "perform a t = (t', ms)"
  shows "keeps t t' \<and> sound_tab t' \<and> told t' = told t \<and> tHeard t' = tHeard t \<and> (\<forall>m \<in> set ms. sent_by t m)"
proof (cases a)
  case DoClaim
  then show ?thesis
    using assms
    by (auto simp: claim_session_def keeps_def sound_tab_def told_def sent_by_def nth_append
        split: if_splits option.splits dest!: post_sent)
next
  case (Timeout k)
  show ?thesis
  proof (cases "length (tClaims t) \<le> k \<or> tClaims t ! k \<noteq> None")
    case False
    then have s: "{x. Some (Some x) \<in> set ((tClaims t)[k := Some None])} = {x. Some (Some x) \<in> set (tClaims t)}"
      using settle_told [of k "tClaims t" None] by auto
    show ?thesis
      using assms Timeout False s by (auto simp: claim_timeout_def keeps_def sound_tab_def told_def nth_list_update)
  qed (use assms Timeout in \<open>auto simp: claim_timeout_def\<close>)
next
  case FocusOther
  then show ?thesis
    using assms by (auto simp: focus_other_def sent_by_def split: option.splits dest!: post_sent)
next
  case TakeOver
  then show ?thesis
    using assms
    by (auto simp: take_over_def keeps_def sound_tab_def told_def sent_by_def split: option.splits dest!: post_sent)
qed (use assms in \<open>auto simp: set_dirty_def release_def keeps_def sent_by_def dest!: post_sent\<close>)

lemma on_message_tab:
  assumes "sound_tab t" and "on_message m t = (t', ms)"
  shows "keeps t t' \<and> sound_tab t' \<and> (\<forall>m \<in> set ms. sent_by t m) \<and>
    (\<forall>x \<in> told t'. x \<in> told t \<or> (mKey m = tKey t \<and> mFrom m = oTab x \<and> (\<exists>d to. mBody m = Held d (oOpenedAt x) to))) \<and>
    (\<forall>f. YieldRequested f \<in> set (tHeard t') \<longrightarrow> YieldRequested f \<in> set (tHeard t) \<or>
       (mKey m = tKey t \<and> mFrom m = f \<and> mBody m = Yield (tId t)))"
proof (cases "mKey m \<noteq> tKey t \<or> mFrom m = tId t")
  case False
  show ?thesis
  proof (cases "mBody m")
    case Claim
    then show ?thesis
      using assms False by (auto simp: on_message_def sent_by_def dest!: post_sent)
  next
    case (Held d opn to)
    show ?thesis
    proof (cases "tPending t")
      case (Some k)
      then have k: "k < length (tClaims t)"
        using assms(1) by (simp add: sound_tab_def)
      show ?thesis
        using assms False Held Some pending_claim_keeps [OF k, of "mFrom m" d opn]
          pending_claim_told [OF k, of "mFrom m" d opn] pending_claim_sound [OF assms(1) Some]
        by (auto simp: on_message_def split: if_splits)
    qed (use assms False Held in \<open>auto simp: on_message_def\<close>)
  qed (use assms False in \<open>auto simp: on_message_def keeps_def split: if_splits\<close>)
qed (use assms in \<open>auto simp: on_message_def\<close>)

section \<open>The invariant\<close>

definition vouched :: "tab list \<Rightarrow> nat \<Rightarrow> other \<Rightarrow> bool" where
  "vouched ts i x = (\<exists>j < length ts. j \<noteq> i \<and> tKey (ts ! j) = tKey (ts ! i) \<and> tId (ts ! j) = oTab x \<and>
     tOpenedAt (ts ! j) = oOpenedAt x)"

definition asked_by :: "tab list \<Rightarrow> nat \<Rightarrow> jstr \<Rightarrow> bool" where
  "asked_by ts i f = (\<exists>j < length ts. j \<noteq> i \<and> tKey (ts ! j) = tKey (ts ! i) \<and> tId (ts ! j) = f \<and>
     (\<exists>x \<in> told (ts ! j). oTab x = tId (ts ! i)))"

definition on_wire :: "tab list \<Rightarrow> nat \<times> lock_message \<Rightarrow> bool" where
  "on_wire ts e = (fst e < length ts \<and> (\<exists>s < length ts. s \<noteq> fst e \<and> sent_by (ts ! s) (snd e)))"

definition net_ok :: "net \<Rightarrow> bool" where
  "net_ok n = (distinct (map tId (fst n)) \<and> (\<forall>t \<in> set (fst n). sound_tab t) \<and>
     (\<forall>e \<in> set (snd n). on_wire (fst n) e) \<and>
     (\<forall>i < length (fst n). (\<forall>x \<in> told (fst n ! i). vouched (fst n) i x) \<and>
        (\<forall>f. YieldRequested f \<in> set (tHeard (fst n ! i)) \<longrightarrow> asked_by (fst n) i f)))"

definition grows :: "tab list \<Rightarrow> tab list \<Rightarrow> bool" where
  "grows ts ts' = (length ts \<le> length ts' \<and> (\<forall>i < length ts. keeps (ts ! i) (ts' ! i)))"

lemma sent_by_keeps: "sent_by t m \<Longrightarrow> keeps t t' \<Longrightarrow> sent_by t' m"
  by (auto simp: sent_by_def keeps_def split: body.splits)

lemma grows_wire: "grows ts ts' \<Longrightarrow> on_wire ts e \<Longrightarrow> on_wire ts' e"
  unfolding grows_def on_wire_def by (meson less_le_trans sent_by_keeps)

lemma grows_vouched: "grows ts ts' \<Longrightarrow> i < length ts \<Longrightarrow> vouched ts i x \<Longrightarrow> vouched ts' i x"
  unfolding grows_def vouched_def keeps_def by (metis less_le_trans)

lemma grows_asked: "grows ts ts' \<Longrightarrow> i < length ts \<Longrightarrow> asked_by ts i f \<Longrightarrow> asked_by ts' i f"
  unfolding grows_def asked_by_def keeps_def by (metis less_le_trans subsetD)

lemma grows_update: "i < length ts \<Longrightarrow> keeps (ts ! i) t' \<Longrightarrow> grows ts (ts[i := t'])"
  by (simp add: grows_def nth_list_update)

lemma map_tId_update: "i < length ts \<Longrightarrow> keeps (ts ! i) t' \<Longrightarrow> map tId (ts[i := t']) = map tId ts"
  by (simp add: map_update keeps_def) (metis list_update_id map_update)

lemma broadcast_on_wire:
  assumes "i < length ts" and "\<forall>m \<in> set ms. sent_by (ts ! i) m" and "e \<in> set (broadcast i ts ms)"
  shows "on_wire ts e"
  using assms by (auto simp: broadcast_def on_wire_def)

lemma sound_update: "\<forall>t \<in> set ts. sound_tab t \<Longrightarrow> sound_tab t' \<Longrightarrow> \<forall>t \<in> set (ts[i := t']). sound_tab t"
  using set_update_subset_insert [of ts i t'] by auto

text \<open>One tab changes: the invariant of the rest carries over, what is new in the tab is shown apart.\<close>

lemma net_ok_update:
  assumes ok: "net_ok (ts, w)" and i: "i < length ts" and k: "keeps (ts ! i) t'" and s: "sound_tab t'"
    and w: "\<forall>e \<in> set w'. e \<in> set w \<or> e \<in> set (broadcast i ts ms)" and m: "\<forall>m \<in> set ms. sent_by (ts ! i) m"
    and x: "\<forall>x \<in> told t'. x \<in> told (ts ! i) \<or> vouched ts i x"
    and f: "\<forall>f. YieldRequested f \<in> set (tHeard t') \<longrightarrow> YieldRequested f \<in> set (tHeard (ts ! i)) \<or> asked_by ts i f"
  shows "net_ok (ts[i := t'], w')"
proof -
  let ?ts = "ts[i := t']"
  have g: "grows ts ?ts"
    using grows_update [OF i k] .
  have d: "distinct (map tId ?ts)"
    using ok map_tId_update [OF i k] by (simp add: net_ok_def)
  have so: "\<forall>t \<in> set ?ts. sound_tab t"
    using ok s by (intro sound_update) (simp_all add: net_ok_def)
  have wi: "\<forall>e \<in> set w'. on_wire ?ts e"
    using ok w broadcast_on_wire [OF i m] grows_wire [OF g] by (auto simp: net_ok_def)
  have "(\<forall>x \<in> told (?ts ! j). vouched ?ts j x) \<and>
      (\<forall>f. YieldRequested f \<in> set (tHeard (?ts ! j)) \<longrightarrow> asked_by ?ts j f)" if j: "j < length ts" for j
  proof (cases "j = i")
    case True
    then show ?thesis
      using ok i x f grows_vouched [OF g i] grows_asked [OF g i] by (auto simp: net_ok_def)
  next
    case False
    then show ?thesis
      using ok j grows_vouched [OF g j] grows_asked [OF g j] by (simp add: net_ok_def)
  qed
  then show ?thesis
    using d so wi by (simp add: net_ok_def)
qed

lemma wire_vouched:
  assumes "on_wire ts (i, m)" and "mKey m = tKey (ts ! i)"
  shows "mBody m = Held d opn to \<Longrightarrow> vouched ts i \<lparr>oTab = mFrom m, oDirty = e, oOpenedAt = opn\<rparr>"
    and "mBody m = Yield (tId (ts ! i)) \<Longrightarrow> asked_by ts i (mFrom m)"
  using assms by (auto simp: on_wire_def sent_by_def vouched_def asked_by_def)

lemma net_ok_open:
  assumes "net_ok (ts, w)" and "i \<notin> set (map tId ts)"
  shows "net_ok (ts @ [new_tab key i now channel], w)"
proof -
  let ?ts = "ts @ [new_tab key i now channel]"
  have g: "grows ts ?ts"
    by (simp add: grows_def nth_append)
  have n: "sound_tab (new_tab key i now channel)" "told (new_tab key i now channel) = {}"
    "tHeard (new_tab key i now channel) = []"
    by (simp_all add: new_tab_def sound_tab_def told_def)
  have o: "(\<forall>x \<in> told (?ts ! j). vouched ?ts j x) \<and>
      (\<forall>f. YieldRequested f \<in> set (tHeard (?ts ! j)) \<longrightarrow> asked_by ?ts j f)" if j: "j < Suc (length ts)" for j
  proof (cases "j < length ts")
    case True
    then show ?thesis
      using assms(1) grows_vouched [OF g True] grows_asked [OF g True] by (auto simp: net_ok_def nth_append)
  next
    case False
    with j n show ?thesis by (simp add: nth_append)
  qed
  have "tId (new_tab key i now channel) = i"
    by (simp add: new_tab_def)
  with assms o n grows_wire [OF g] show ?thesis
    by (auto simp: net_ok_def)
qed

lemma net_ok_step: "net_step n n' \<Longrightarrow> net_ok n \<Longrightarrow> net_ok n'"
proof (induction rule: net_step.induct)
  case (opened i ts w key now channel)
  then show ?case by (rule net_ok_open [rotated])
next
  case (acted i ts a t' ms w)
  then have s: "sound_tab (ts ! i)"
    by (simp add: net_ok_def)
  show ?case
    using perform_tab [OF s acted(2)] by (intro net_ok_update [OF acted(3) acted(1), where ms = ms]) auto
next
  case (delivered i ts m t' ms u v)
  then have s: "sound_tab (ts ! i)" and w: "on_wire ts (i, m)"
    by (simp_all add: net_ok_def)
  note tab = on_message_tab [OF s delivered(3)]
  have x: "x \<in> told (ts ! i) \<or> vouched ts i x" if "x \<in> told t'" for x
  proof (cases "x \<in> told (ts ! i)")
    case False
    with tab that obtain d to where m: "mKey m = tKey (ts ! i)" "mFrom m = oTab x" "mBody m = Held d (oOpenedAt x) to"
      by blast
    then show ?thesis
      using wire_vouched(1) [OF w m(1) m(3), of "oDirty x"] by (simp add: vouched_def)
  qed simp
  have f: "YieldRequested f \<in> set (tHeard (ts ! i)) \<or> asked_by ts i f" if "YieldRequested f \<in> set (tHeard t')" for f
    using tab that wire_vouched(2) [OF w] by blast
  show ?case
    using tab x f by (intro net_ok_update [OF delivered(4) delivered(1), where ms = ms]) auto
next
  case (dropped ts u i m v)
  then show ?case by (simp add: net_ok_def)
qed

lemma reachable_net_ok: "reachable_net n \<Longrightarrow> net_ok n"
proof (induction rule: reachable_net.induct)
  case start
  show ?case by (simp add: net_ok_def)
qed (rule net_ok_step)

section \<open>Properties\<close>

definition ann :: tab where
  "ann = new_tab ''doc'' ''t-1'' ''9:00'' True"

definition bob :: tab where
  "bob = new_tab ''doc'' ''t-2'' ''9:05'' True"

text \<open>Ann holds the document with a draft, Bob opens it, claims, is answered and takes over.\<close>

definition claimed :: tab where
  "claimed = fst (claim_session bob)"

definition held_by_ann :: lock_message where
  "held_by_ann = \<lparr>mBody = Held True ''9:00'' ''t-2'', mKey = ''doc'', mFrom = ''t-1''\<rparr>"

definition warned :: tab where
  "warned = fst (on_message held_by_ann claimed)"

definition yielding :: tab where
  "yielding = fst (on_message \<lparr>mBody = Yield ''t-1'', mKey = ''doc'', mFrom = ''t-2''\<rparr> (set_dirty True ann))"

lemmas lock_eval = ann_def bob_def claimed_def held_by_ann_def warned_def yielding_def new_tab_def claim_session_def
  post_def on_message_def pending_claim_def set_dirty_def take_over_def Let_def

lemma takeover_run: "reachable_net ([yielding, fst (take_over warned)], [])"
proof -
  note r = reachable_net.step
  have 0: "reachable_net ([ann], [])"
    using r [OF reachable_net.start opened [of "''t-1''" "[]" "[]" "''doc''" "''9:00''" True]] by (simp add: ann_def)
  have 1: "reachable_net ([set_dirty True ann], [])"
    using r [OF 0 acted [of 0 "[ann]" "SetDirty True" "set_dirty True ann" "[]" "[]"]] by (simp add: broadcast_def)
  have 2: "reachable_net ([set_dirty True ann, bob], [])"
    using r [OF 1 opened [of "''t-2''" "[set_dirty True ann]" "[]" "''doc''" "''9:05''" True]] by (simp add: lock_eval)
  have 3: "reachable_net ([set_dirty True ann, claimed], [(0, \<lparr>mBody = Claim, mKey = ''doc'', mFrom = ''t-2''\<rparr>)])"
    using r [OF 2 acted [of 1 "[set_dirty True ann, bob]" DoClaim claimed
        "[\<lparr>mBody = Claim, mKey = ''doc'', mFrom = ''t-2''\<rparr>]" "[]"]]
    by (simp add: lock_eval broadcast_def)
  have 4: "reachable_net ([set_dirty True ann, claimed], [(1, held_by_ann)])"
    using r [OF 3 delivered [of 0 "[set_dirty True ann, claimed]" "\<lparr>mBody = Claim, mKey = ''doc'', mFrom = ''t-2''\<rparr>"
        "set_dirty True ann" "[held_by_ann]" "[]" "[]", unfolded append_Nil]]
    by (simp add: lock_eval broadcast_def)
  have 5: "reachable_net ([set_dirty True ann, warned], [])"
    using r [OF 4 delivered [of 1 "[set_dirty True ann, claimed]" held_by_ann warned "[]" "[]" "[]", unfolded append_Nil]]
    by (simp add: lock_eval broadcast_def)
  have 6: "reachable_net ([set_dirty True ann, fst (take_over warned)],
      [(0, \<lparr>mBody = Yield ''t-1'', mKey = ''doc'', mFrom = ''t-2''\<rparr>)])"
    using r [OF 5 acted [of 1 "[set_dirty True ann, warned]" TakeOver "fst (take_over warned)"
        "[\<lparr>mBody = Yield ''t-1'', mKey = ''doc'', mFrom = ''t-2''\<rparr>]" "[]"]]
    by (simp add: lock_eval broadcast_def)
  show ?thesis
    using r [OF 6 delivered [of 0 "[set_dirty True ann, fst (take_over warned)]"
        "\<lparr>mBody = Yield ''t-1'', mKey = ''doc'', mFrom = ''t-2''\<rparr>" yielding "[]" "[]" "[]", unfolded append_Nil]]
    by (simp add: lock_eval broadcast_def)
qed

text \<open>
  C30: A warning is never false and a draft never dropped for a stranger: whatever tabs open, act, close
  and receive in any order, a session a tab reports as the other one belongs to a different tab of the
  same document, opened when the report says; and a tab asked to drop its draft was asked by a
  different tab of the same document, which had been told of it in answer to a claim.
\<close>
theorem session_warnings_true:
  assumes "reachable_net (ts, w)" and "i < length ts"
  shows "(\<forall>x \<in> set_option (tOther (ts ! i)) \<union> told (ts ! i). vouched ts i x) \<and>
    (\<forall>f. YieldRequested f \<in> set (tHeard (ts ! i)) \<longrightarrow> asked_by ts i f)"
proof -
  have ok: "net_ok (ts, w)"
    using reachable_net_ok [OF assms(1)] .
  then have "set_option (tOther (ts ! i)) \<subseteq> told (ts ! i)"
    using assms(2) by (simp add: net_ok_def sound_tab_def)
  then show ?thesis
    using ok assms(2) by (auto simp: net_ok_def)
qed

theorem session_warnings_true_witness:
  "asked_by [yielding, fst (take_over warned)] 0 ''t-2''"
proof -
  have "YieldRequested ''t-2'' \<in> set (tHeard yielding)"
    by (simp add: lock_eval)
  then show ?thesis
    using session_warnings_true [OF takeover_run, of 0] by simp
qed

text \<open>
  A claim answered in time finds the holder: an open tab of the same document answers it with one
  message, and when that is the first answer to reach the claimer, the claim resolves to the holder
  with its draft state and opening time; no later answer, time-out or action changes what it resolved to.
\<close>
theorem claim_finds_holder:
  assumes "sound_tab t" and "tChannel t" and "tChannel h" and "tKey h = tKey t" and "tId h \<noteq> tId t"
  shows "\<exists>m a. snd (claim_session t) = [m] \<and> snd (on_message m h) = [a] \<and>
    (let k = length (tClaims t); x = \<lparr>oTab = tId h, oDirty = tDirty h, oOpenedAt = tOpenedAt h\<rparr>;
         t' = fst (on_message a (fst (claim_session t)))
     in tOther t' = Some x \<and> tClaims t' ! k = Some (Some x) \<and>
        (\<forall>act. tClaims (fst (perform act t')) ! k = Some (Some x)) \<and>
        (\<forall>m'. tClaims (fst (on_message m' t')) ! k = Some (Some x)))"
proof -
  let ?k = "length (tClaims t)" and ?x = "\<lparr>oTab = tId h, oDirty = tDirty h, oOpenedAt = tOpenedAt h\<rparr>"
  let ?m = "\<lparr>mBody = Claim, mKey = tKey t, mFrom = tId t\<rparr>"
  let ?a = "\<lparr>mBody = Held (tDirty h) (tOpenedAt h) (tId t), mKey = tKey h, mFrom = tId h\<rparr>"
  let ?t = "fst (on_message ?a (fst (claim_session t)))"
  have m: "snd (claim_session t) = [?m]" and a: "snd (on_message ?m h) = [?a]"
    using assms by (simp_all add: claim_session_def post_def on_message_def)
  have t: "tOther ?t = Some ?x" "tClaims ?t = tClaims t @ [Some (Some ?x)]"
    using assms by (simp_all add: claim_session_def on_message_def pending_claim_def Let_def)
  have k: "tClaims t'' ! ?k = Some (Some ?x)" if "keeps ?t t''" for t''
    using that t(2) by (auto simp: keeps_def)
  have c: "sound_tab (fst (claim_session t))"
    using perform_tab [OF assms(1), of DoClaim "fst (claim_session t)" "snd (claim_session t)"] by simp
  have s: "sound_tab ?t"
    using on_message_tab [OF c, of ?a ?t "snd (on_message ?a (fst (claim_session t)))"] by simp
  have "tClaims (fst (perform act ?t)) ! ?k = Some (Some ?x)" for act
    using perform_tab [OF s, of act "fst (perform act ?t)" "snd (perform act ?t)"] k by simp
  moreover have "tClaims (fst (on_message m' ?t)) ! ?k = Some (Some ?x)" for m'
    using on_message_tab [OF s, of m' "fst (on_message m' ?t)" "snd (on_message m' ?t)"] k by simp
  ultimately show ?thesis
    using m a t by (intro exI [of _ ?m] exI [of _ ?a]) (simp add: Let_def)
qed

text \<open>A second claim before the first has timed out loses its closure to the first's timer.\<close>

lemma early_timeout_drops_second_claim:
  "tPending (claim_timeout 0 (fst (claim_session (fst (claim_session bob))))) = None"
  by (simp add: lock_eval claim_timeout_def)

end
