(* ===== verification/Flow_Spec.thy ===== *)
theory Flow_Spec
  imports Flow_Log
begin

text \<open>
  browser/flow-spec.js, the green-field scenario as data and what is derived from it and
  the folded flow of the flow log: which question comes next, the state of every gate,
  the current section and the rows of the rail. The typographic lede of a section and the
  documents written for the agent are left out; the state is the one \<open>fold_flow\<close>
  builds. The theorems are that the interview ends within the budget of the destination,
  that it asks nothing the destination does not need, and what an agent alone cannot get
  past at the gates.
\<close>

section \<open>The scenario\<close>

record spec_act =
  actId :: jstr
  actTitle :: jstr
  actSettles :: jstr
  actSections :: "jstr list"

record spec_section =
  secId :: jstr
  secAct :: jstr
  secTitle :: jstr
  secSteps :: "nat list"
  secRail :: jstr
  secGates :: "jstr list"
  secConditional :: "jstr option"

record spec_gate =
  gtId :: jstr
  gtTitle :: jstr
  gtSection :: jstr
  gtWaivableBy :: "jstr option"
  gtCondition :: jstr

record spec_topic =
  tpId :: jstr
  tpTitle :: jstr
  tpBlocking :: bool
  tpBlockingFor :: "jstr list option"
  tpSection :: jstr

record spec_prerequisite =
  prId :: jstr
  prTitle :: jstr
  prRequiredFor :: "jstr list"
  prOptions :: "jstr list"
  prWhy :: jstr

record spec_question =
  sqId :: jstr
  sqTopic :: "jstr option"
  sqSets :: "jstr option"
  sqFor :: "jstr list option"
  sqText :: jstr
  sqOptions :: "jstr list"
  sqNote :: "jstr option"
  sqBlocks :: "jstr option"

definition DESTINATIONS :: "jstr list" where
  "DESTINATIONS = [''prototype'', ''internal-tool'', ''production'']"

definition DESTINATION_LABELS :: "(jstr \<times> jstr) list" where
  "DESTINATION_LABELS = [(''prototype'', ''Prototype''), (''internal-tool'', ''Internal tool''),
     (''production'', ''Production'')]"

definition BLOCK_LEVELS :: "jstr list" where
  "BLOCK_LEVELS = [''PRD'', ''architecture'', ''plan'', ''delivery'']"

definition ACTS :: "spec_act list" where
  "ACTS =
    [\<lparr>actId = ''I'', actTitle = ''Intent'',
      actSettles = ''What they want, in whose vocabulary, written down well enough to build a level on'',
      actSections = [''01'', ''02'', ''03'']\<rparr>,
     \<lparr>actId = ''II'', actTitle = ''Requirements'',
      actSettles = ''Only the prerequisites the destination requires, turned into requirements with a bar'',
      actSections = [''04'', ''05'']\<rparr>,
     \<lparr>actId = ''III'', actTitle = ''Architecture'',
      actSettles = ''What not to build, on evidence, with every gap routed'',
      actSections = [''06'', ''07'', ''08'', ''09'', ''10'']\<rparr>,
     \<lparr>actId = ''IV'', actTitle = ''Decision and handover'',
      actSettles = ''The architecture shown, the ways to build it priced, the repository handed over'',
      actSections = [''11'', ''12'', ''13'']\<rparr>]"

definition SECTIONS :: "spec_section list" where
  "SECTIONS =
    [\<lparr>secId = ''01'', secAct = ''I'', secTitle = ''Idea intake'', secSteps = [1, 2, 3],
      secRail = ''intent-coverage'', secGates = [], secConditional = None\<rparr>,
     \<lparr>secId = ''02'', secAct = ''I'', secTitle = ''Company context'', secSteps = [4, 5],
      secRail = ''intent-coverage'', secGates = [], secConditional = None\<rparr>,
     \<lparr>secId = ''03'', secAct = ''I'', secTitle = ''Answers become the document'', secSteps = [6, 7, 8],
      secRail = ''intent-coverage'', secGates = [''G1'', ''G2''], secConditional = None\<rparr>,
     \<lparr>secId = ''04'', secAct = ''II'', secTitle = ''Only what the destination needs'', secSteps = [9, 10, 11],
      secRail = ''prerequisite-coverage'', secGates = [''G3''], secConditional = None\<rparr>,
     \<lparr>secId = ''05'', secAct = ''II'', secTitle = ''Requirements as objects'', secSteps = [12],
      secRail = ''requirements'', secGates = [''G4''], secConditional = None\<rparr>,
     \<lparr>secId = ''06'', secAct = ''III'', secTitle = ''Ownership sweep'', secSteps = [13],
      secRail = ''capability-ledger'', secGates = [], secConditional = None\<rparr>,
     \<lparr>secId = ''07'', secAct = ''III'', secTitle = ''Composition proposal'', secSteps = [14],
      secRail = ''capability-ledger'', secGates = [], secConditional = None\<rparr>,
     \<lparr>secId = ''08'', secAct = ''III'', secTitle = ''Block evidence'', secSteps = [15, 16, 18],
      secRail = ''capability-ledger'', secGates = [], secConditional = None\<rparr>,
     \<lparr>secId = ''09'', secAct = ''III'', secTitle = ''Sufficiency and routed gaps'', secSteps = [17, 19],
      secRail = ''capability-ledger'', secGates = [''G5''], secConditional = None\<rparr>,
     \<lparr>secId = ''10'', secAct = ''III'', secTitle = ''Prototype loop'', secSteps = [20, 21, 22],
      secRail = ''requirements'', secGates = [], secConditional = Some ''ui-first''\<rparr>,
     \<lparr>secId = ''11'', secAct = ''IV'', secTitle = ''Architecture in view'', secSteps = [23],
      secRail = ''composition-manifest'', secGates = [''G6''], secConditional = None\<rparr>,
     \<lparr>secId = ''12'', secAct = ''IV'', secTitle = ''Ways to build it, priced'', secSteps = [24, 25, 26],
      secRail = ''composition-manifest'', secGates = [''G7''], secConditional = None\<rparr>,
     \<lparr>secId = ''13'', secAct = ''IV'', secTitle = ''Handover'', secSteps = [27, 28, 29, 30, 31],
      secRail = ''gates'', secGates = [''G8''], secConditional = None\<rparr>]"

definition RAIL_OBJECTS :: "(jstr \<times> jstr) list" where
  "RAIL_OBJECTS =
    [(''intent-coverage'', ''Intent coverage''),
     (''prerequisite-coverage'', ''Prerequisite coverage''),
     (''requirements'', ''Requirements''),
     (''capability-ledger'', ''Capability ledger''),
     (''composition-manifest'', ''Composition manifest''),
     (''gates'', ''Gate stamps'')]"

definition GATES :: "spec_gate list" where
  "GATES =
    [\<lparr>gtId = ''G1'', gtTitle = ''intent is usable'', gtSection = ''03'', gtWaivableBy = None,
      gtCondition = ''All four parts of the statement present, each marked stated or assumed.''\<rparr>,
     \<lparr>gtId = ''G2'', gtTitle = ''discovery is sufficient'', gtSection = ''03'', gtWaivableBy = Some ''PM'',
      gtCondition = ''Every blocking topic answered, assumed or marked unknown, at most two unknown, and every assumption resolved.''\<rparr>,
     \<lparr>gtId = ''G3'', gtTitle = ''one-pager is complete'', gtSection = ''04'', gtWaivableBy = Some ''PM'',
      gtCondition = ''Every prerequisite this destination requires is answered, or recorded as deferred.''\<rparr>,
     \<lparr>gtId = ''G4'', gtTitle = ''requirements are reviewable'', gtSection = ''05'', gtWaivableBy = Some ''PM'',
      gtCondition = ''Every requirement is singular, testable and bounded, and traces to something somebody said.''\<rparr>,
     \<lparr>gtId = ''G5'', gtTitle = ''composition is decidable'', gtSection = ''09'', gtWaivableBy = None,
      gtCondition = ''Every capability has an owner or a routed gap with a recorded exit, and nothing composed exists only on paper.''\<rparr>,
     \<lparr>gtId = ''G6'', gtTitle = ''composition validated, or explicitly not'', gtSection = ''11'', gtWaivableBy = Some ''skip'',
      gtCondition = ''An architect validated the composition, or the project records that it is unvalidated.''\<rparr>,
     \<lparr>gtId = ''G7'', gtTitle = ''the plan is reviewable'', gtSection = ''12'', gtWaivableBy = Some ''Delivery Manager'',
      gtCondition = ''At least two ways to build it, each with time, risk and token spend, and every number states its basis.''\<rparr>,
     \<lparr>gtId = ''G8'', gtTitle = ''ready for delivery work'', gtSection = ''13'', gtWaivableBy = None,
      gtCondition = ''Every earlier gate passed or waived, no critical finding open, and nothing planned depends on a gear that is not built.''\<rparr>]"

definition TOPICS :: "spec_topic list" where
  "TOPICS =
    [\<lparr>tpId = ''what'', tpTitle = ''What is being made'', tpBlocking = True, tpBlockingFor = None, tpSection = ([CHR 0xA7] @ '' 1.1'')\<rparr>,
     \<lparr>tpId = ''audience'', tpTitle = ''Who it is for'', tpBlocking = True, tpBlockingFor = None, tpSection = ([CHR 0xA7] @ '' 1.2'')\<rparr>,
     \<lparr>tpId = ''problem'', tpTitle = ''The problem it removes'', tpBlocking = True, tpBlockingFor = None, tpSection = ([CHR 0xA7] @ '' 1.3'')\<rparr>,
     \<lparr>tpId = ''boundary'', tpTitle = ''First boundary'', tpBlocking = True, tpBlockingFor = None, tpSection = ([CHR 0xA7] @ '' 1.4'')\<rparr>,
     \<lparr>tpId = ''success'', tpTitle = ''Success signal'', tpBlocking = True, tpBlockingFor = Some [''internal-tool'', ''production''], tpSection = ([CHR 0xA7] @ '' 5'')\<rparr>,
     \<lparr>tpId = ''organisation'', tpTitle = ''Organisation context'', tpBlocking = True, tpBlockingFor = None, tpSection = ([CHR 0xA7] @ '' 3.2'')\<rparr>]"

definition PREREQUISITES :: "spec_prerequisite list" where
  "PREREQUISITES =
    [\<lparr>prId = ''hosting'', prTitle = ''Where will this run?'', prRequiredFor = [''prototype'', ''internal-tool'', ''production''],
      prOptions = [''Our AWS'', ''Our GCP'', ''On-prem'', ''Not decided''],
      prWhy = ''It decides whether there is a third way to build this to price in act IV, and which storage blocks can be composed at all.''\<rparr>,
     \<lparr>prId = ''scale'', prTitle = ''Roughly how many people will use it?'', prRequiredFor = [''internal-tool'', ''production''],
      prOptions = [''Under 50'', ''Hundreds'', ''Thousands or more'', ''I do not know yet''],
      prWhy = ''Scale is what separates a single-node answer from a distributed one, and it changes which blocks are worth composing.''\<rparr>,
     \<lparr>prId = ''country'', prTitle = ''Which country or region will it operate in?'', prRequiredFor = [''production''],
      prOptions = [''EU'', ''US'', ''Both'', ''Not decided''],
      prWhy = ''Where the data sits decides residency constraints, and those are architecture rather than configuration.''\<rparr>,
     \<lparr>prId = ''certification'', prTitle = ''Are there certifications it has to meet?'', prRequiredFor = [''production''],
      prOptions = [''None'', ''ISO 27001'', ''SOC 2'', ''Something else''],
      prWhy = ''A certification adds requirements with a bar of their own, and they are cheapest to design for before anything is built.''\<rparr>]"

definition QUESTIONS :: "spec_question list" where
  "QUESTIONS =
    [\<lparr>sqId = ''q-destination'', sqTopic = None, sqSets = Some ''destination'', sqFor = None,
      sqText = ''How far is this going?'',
      sqOptions = [''Prototype'', ''Internal tool'', ''Production''],
      sqNote = Some ''It is the only answer that changes which later questions exist.'', sqBlocks = None\<rparr>,
     \<lparr>sqId = ''q-audience'', sqTopic = Some ''audience'', sqSets = None, sqFor = None,
      sqText = ''Who will use this?'',
      sqOptions = [''A team inside our company'', ''Our customers'', ''Field staff, away from a desk''],
      sqNote = None, sqBlocks = Some ''PRD''\<rparr>,
     \<lparr>sqId = ''q-problem'', sqTopic = Some ''problem'', sqSets = None, sqFor = None,
      sqText = ''What breaks today without it?'',
      sqOptions = [''Work is lost'', ''It is done twice by hand'', ''It is too slow to be useful''],
      sqNote = None, sqBlocks = Some ''PRD''\<rparr>,
     \<lparr>sqId = ''q-boundary'', sqTopic = Some ''boundary'', sqSets = None, sqFor = None,
      sqText = ''What is this explicitly not?'',
      sqOptions = [''Not a replacement for the current system'', ''Not for external users'', ''No offline support''],
      sqNote = None, sqBlocks = Some ''architecture''\<rparr>,
     \<lparr>sqId = ''q-success'', sqTopic = Some ''success'', sqSets = None, sqFor = Some [''internal-tool'', ''production''],
      sqText = ''If this works, what will you see happen?'',
      sqOptions = [''A number moves'', ''A meeting stops happening'', ''None I can name''],
      sqNote = None, sqBlocks = Some ''plan''\<rparr>]"

definition find_section :: "jstr \<Rightarrow> spec_section option" where
  "find_section i = List.find (\<lambda>s. secId s = i) SECTIONS"

definition find_gate :: "jstr \<Rightarrow> spec_gate option" where
  "find_gate i = List.find (\<lambda>g. gtId g = i) GATES"

definition find_topic :: "jstr \<Rightarrow> spec_topic option" where
  "find_topic i = List.find (\<lambda>t. tpId t = i) TOPICS"

section \<open>What the destination needs\<close>

definition known_destination :: "val \<Rightarrow> jstr" where
  "known_destination d =
     (case d of Some (JStr s) \<Rightarrow> (if s \<in> set DESTINATIONS then s else ''production'') | _ \<Rightarrow> ''production'')"

definition destination_needs :: "val \<Rightarrow> jstr list" where
  "destination_needs d =
     map prId (filter (\<lambda>p. known_destination d \<in> set (prRequiredFor p)) PREREQUISITES)"

definition blocking_topics :: "val \<Rightarrow> jstr list" where
  "blocking_topics d =
     map tpId (filter (\<lambda>t. tpBlocking t \<and>
       (case tpBlockingFor t of None \<Rightarrow> True | Some ds \<Rightarrow> is_str d ds)) TOPICS)"

definition topic_state :: "flow \<Rightarrow> jstr \<Rightarrow> val" where
  "topic_state s i = (case map_of (fTopics s) i of Some r \<Rightarrow> kState r | None \<Rightarrow> None)"

definition topic_settled :: "flow \<Rightarrow> jstr \<Rightarrow> bool" where
  "topic_settled s i = is_str (topic_state s i) TOPIC_STATES"

section \<open>The next question\<close>

datatype next_ask = Ask_spec spec_question | Ask_agent question | Ask_prerequisite spec_prerequisite

text \<open>A question with this id has been answered, skipped or marked unknown.\<close>

definition closed_before :: "flow \<Rightarrow> jstr \<Rightarrow> bool" where
  "closed_before s i = (\<exists>a \<in> set (fQuestions s). qId a = str i \<and> qState a \<noteq> ''open'')"

definition question_due :: "flow \<Rightarrow> spec_question \<Rightarrow> bool" where
  "question_due s q =
     (sqId q \<noteq> ''q-destination'' \<and>
      (case sqFor q of None \<Rightarrow> True | Some ds \<Rightarrow> is_str (fDestination s) ds) \<and>
      (case sqTopic q of None \<Rightarrow> True | Some t \<Rightarrow> \<not> topic_settled s t) \<and> \<not> closed_before s (sqId q))"

definition prerequisite_due :: "flow \<Rightarrow> jstr \<Rightarrow> bool" where
  "prerequisite_due s i =
     ((case List.find (\<lambda>a. qId a = str (''q-'' @ i)) (fQuestions s) of
         Some a \<Rightarrow> qState a = ''open'' | None \<Rightarrow> True) \<and>
      map_of (fPrerequisites s) i = None)"

definition open_questions :: "flow \<Rightarrow> question list" where
  "open_questions s = filter (\<lambda>q. qState q = ''open'') (fQuestions s)"

definition find_prerequisite :: "jstr \<Rightarrow> spec_prerequisite option" where
  "find_prerequisite i = List.find (\<lambda>p. prId p = i) PREREQUISITES"

definition next_question :: "flow \<Rightarrow> next_ask option" where
  "next_question s =
     (if \<not> truthy (fDestination s) then Some (Ask_spec (hd QUESTIONS))
      else case open_questions s of
          q # _ \<Rightarrow> Some (Ask_agent q)
        | [] \<Rightarrow>
            (case List.find (question_due s) QUESTIONS of
               Some q \<Rightarrow> Some (Ask_spec q)
             | None \<Rightarrow>
                 (case List.find (\<lambda>i. find_prerequisite i \<noteq> None \<and> prerequisite_due s i)
                         (destination_needs (fDestination s)) of
                    Some i \<Rightarrow> map_option Ask_prerequisite (find_prerequisite i)
                  | None \<Rightarrow> None)))"

section \<open>Gates\<close>

definition STATEMENT_PARTS :: "jstr list" where
  "STATEMENT_PARTS = [''what'', ''audience'', ''problem'', ''boundary'']"

definition the_destination :: "flow \<Rightarrow> val" where
  "the_destination s = or_val (fDestination s) (str ''production'')"

text \<open>\<open>(v || []).length > 0\<close>.\<close>

definition has_items :: "val \<Rightarrow> bool" where
  "has_items v =
     (case v of Some (JArr xs) \<Rightarrow> xs \<noteq> [] | Some (JStr s) \<Rightarrow> s \<noteq> []
      | Some (JObj fs) \<Rightarrow> (case map_of fs ''length'' of Some (JNum n) \<Rightarrow> n > 0 | _ \<Rightarrow> False)
      | _ \<Rightarrow> False)"

definition verdict_of :: "bool \<Rightarrow> val" where
  "verdict_of b = (if b then str ''passed'' else str ''failed'')"

definition composed_paper :: "flow \<Rightarrow> bool" where
  "composed_paper s = (\<exists>w \<in> set (fOwners s). wState w = str ''paper'' \<and> wBucket w \<noteq> str ''paper'')"

definition prerequisite_answered :: "flow \<Rightarrow> jstr \<Rightarrow> bool" where
  "prerequisite_answered s i =
     (case map_of (fPrerequisites s) i of Some z \<Rightarrow> zValue z \<noteq> None | None \<Rightarrow> False)"

definition gate_1 :: "flow \<Rightarrow> val" where
  "gate_1 s =
     (if \<not> list_ex (topic_settled s) STATEMENT_PARTS then str ''unreached''
      else verdict_of (list_all (\<lambda>i. is_str (topic_state s i) [''answered'', ''assumed'']) STATEMENT_PARTS))"

definition gate_2 :: "flow \<Rightarrow> val" where
  "gate_2 s =
     (let blocking = blocking_topics (the_destination s)
      in if \<not> list_ex (topic_settled s) blocking then str ''unreached''
         else verdict_of (list_all (topic_settled s) blocking \<and>
           length (filter (\<lambda>i. topic_state s i = str ''marked-unknown'') blocking) \<le> 2 \<and>
           \<not> list_ex (\<lambda>a. \<not> truthy (aState a)) (fAssumptions s)))"

definition gate_3 :: "flow \<Rightarrow> val" where
  "gate_3 s =
     (let needed = destination_needs (the_destination s)
      in if \<not> list_ex (prerequisite_answered s) needed then str ''unreached''
         else verdict_of (list_all (prerequisite_answered s) needed))"

definition gate_4 :: "flow \<Rightarrow> val" where
  "gate_4 s =
     (if fRequirements s = [] then str ''unreached''
      else verdict_of (list_all (\<lambda>r. case rCriteria r of None \<Rightarrow> False
        | Some c \<Rightarrow> truthy (Some c) \<and>
            list_all (\<lambda>k. truthy (get c k)) [''singular'', ''testable'', ''bounded'', ''traced'']) (fRequirements s)))"

definition routed :: "flow \<Rightarrow> val \<Rightarrow> bool" where
  "routed s c = (\<exists>g \<in> set (fGaps s). gapCap g = c \<and> (\<exists>e \<in> set (fExits s). xGap e = gapId g))"

definition gate_5 :: "flow \<Rightarrow> val" where
  "gate_5 s =
     (if fCapabilities s = [] then str ''unreached''
      else verdict_of (\<not> composed_paper s \<and>
        list_all (\<lambda>c. pId c \<in> wCap ` set (fOwners s) \<or> routed s (pId c)) (fCapabilities s)))"

definition gate_6 :: "flow \<Rightarrow> val" where
  "gate_6 s =
     (case map_of (fGates s) ''G6'' of
        Some z \<Rightarrow> eState z
      | None \<Rightarrow> (if list_ex (\<lambda>u. uInsert u = str ''architect-review'') (fUnvalidated s)
                 then str ''waived'' else str ''unreached''))"

definition gate_7 :: "flow \<Rightarrow> val" where
  "gate_7 s =
     (if fOptions s = [] then str ''unreached''
      else verdict_of (2 \<le> length (fOptions s) \<and>
        list_all (\<lambda>t. is_str (tTimeBasis t) BASES \<and> is_str (tTokensBasis t) BASES) (fOptions s)))"

definition stamped_or :: "flow \<Rightarrow> jstr \<Rightarrow> val \<Rightarrow> val" where
  "stamped_or s g v =
     (case map_of (fGates s) g of Some z \<Rightarrow> (if truthy (eState z) then eState z else v) | None \<Rightarrow> v)"

definition earlier_gates :: "flow \<Rightarrow> val list" where
  "earlier_gates s = [stamped_or s ''G1'' (gate_1 s), stamped_or s ''G2'' (gate_2 s), stamped_or s ''G3'' (gate_3 s),
     stamped_or s ''G4'' (gate_4 s), stamped_or s ''G5'' (gate_5 s), stamped_or s ''G7'' (gate_7 s)]"

definition gate_8 :: "flow \<Rightarrow> val" where
  "gate_8 s =
     (if list_all (\<lambda>v. v = str ''unreached'') (earlier_gates s) then str ''unreached''
      else verdict_of (\<not> has_items (hBlockedBy (fHandover s)) \<and> \<not> composed_paper s \<and>
        list_all (\<lambda>v. is_str v [''passed'', ''waived'']) (earlier_gates s)))"

definition gate_rule :: "flow \<Rightarrow> jstr \<Rightarrow> val" where
  "gate_rule s g =
     (if g = ''G1'' then gate_1 s else if g = ''G2'' then gate_2 s else if g = ''G3'' then gate_3 s
      else if g = ''G4'' then gate_4 s else if g = ''G5'' then gate_5 s else if g = ''G6'' then gate_6 s
      else if g = ''G7'' then gate_7 s else if g = ''G8'' then gate_8 s else str ''unreached'')"

definition gate_state :: "flow \<Rightarrow> jstr \<Rightarrow> val" where
  "gate_state s g = stamped_or s g (gate_rule s g)"

section \<open>Where the flow is\<close>

definition current_section :: "flow \<Rightarrow> jstr" where
  "current_section s =
     (if \<not> truthy (fDestination s) then ''01''
      else case next_question s of
          Some q \<Rightarrow> (case q of Ask_prerequisite p \<Rightarrow> ''04''
             | Ask_agent a \<Rightarrow> (if truthy (qPrerequisite a) then ''04'' else ''03'') | Ask_spec _ \<Rightarrow> ''03'')
        | None \<Rightarrow>
            if gate_state s ''G4'' \<noteq> str ''passed'' then ''05''
            else if fCapabilities s = [] then ''06''
            else if gate_state s ''G5'' \<noteq> str ''passed'' then (if fOwners s \<noteq> [] then ''09'' else ''07'')
            else if fOptions s = [] then ''11''
            else if gate_state s ''G7'' \<noteq> str ''passed'' then ''12'' else ''13'')"

record coverage_row =
  cvId :: jstr
  cvTitle :: jstr
  cvBlocking :: bool
  cvState :: val
  cvWhere :: val

definition coverage_rows :: "flow \<Rightarrow> coverage_row list" where
  "coverage_rows s =
     map (\<lambda>t. \<lparr>cvId = tpId t, cvTitle = tpTitle t,
         cvBlocking = (tpId t \<in> set (blocking_topics (the_destination s))),
         cvState = or_val (topic_state s (tpId t)) (str ''open''),
         cvWhere = (case map_of (fTopics s) (tpId t) of Some r \<Rightarrow> kWhere r | None \<Rightarrow> None)\<rparr>) TOPICS"

record prerequisite_row =
  pwId :: jstr
  pwTitle :: jstr
  pwRequired :: bool
  pwWhy :: jstr
  pwValue :: val

definition prerequisite_rows :: "flow \<Rightarrow> prerequisite_row list" where
  "prerequisite_rows s =
     map (\<lambda>p. \<lparr>pwId = prId p, pwTitle = prTitle p,
         pwRequired = (prId p \<in> set (destination_needs (the_destination s))), pwWhy = prWhy p,
         pwValue = (case map_of (fPrerequisites s) (prId p) of Some z \<Rightarrow> zValue z | None \<Rightarrow> None)\<rparr>) PREREQUISITES"

section \<open>Answering\<close>

text \<open>What the surfaces write to answer a question: the ask op of a scenario question, then the answer.\<close>

definition opt_field :: "jstr \<Rightarrow> val \<Rightarrow> (jstr \<times> json) list" where
  "opt_field k v = (case v of None \<Rightarrow> [] | Some j \<Rightarrow> [(k, j)])"

definition answer_op :: "val \<Rightarrow> json \<Rightarrow> json" where
  "answer_op i v = JObj ((''op'', JStr ''answer'') # opt_field ''q'' i @ [(''value'', v)])"

definition ask_entry :: "jstr \<Rightarrow> jstr \<Rightarrow> jstr option \<Rightarrow> json entry" where
  "ask_entry i body p =
     \<lparr>eOp = JObj ([(''op'', JStr ''ask''), (''q'', JStr i), (''text'', JStr body)] @
        opt_field ''prerequisite'' (map_option JStr p)),
      eFile = [], eParty = [], eLine = 0, eAt = []\<rparr>"

definition answer_asked :: "val \<Rightarrow> json \<Rightarrow> flow \<Rightarrow> flow" where
  "answer_asked i v s = say_kind (answer_op i v) s"

definition answer_next :: "json \<Rightarrow> flow \<Rightarrow> flow" where
  "answer_next v s =
     (case next_question s of
        None \<Rightarrow> s
      | Some (Ask_agent a) \<Rightarrow> answer_asked (qId a) v s
      | Some (Ask_spec q) \<Rightarrow>
          (if sqSets q = Some ''destination'' then say_kind (JObj [(''op'', JStr ''destination''), (''value'', v)]) s
           else answer_asked (str (sqId q)) v (create_step s (ask_entry (sqId q) (sqText q) None)))
      | Some (Ask_prerequisite p) \<Rightarrow>
          answer_asked (str (''q-'' @ prId p)) v
            (create_step s (ask_entry (''q-'' @ prId p) (prTitle p) (Some (prId p)))))"

section \<open>Data\<close>

lemma scenario_ids:
  "map sqId QUESTIONS = [''q-destination'', ''q-audience'', ''q-problem'', ''q-boundary'', ''q-success'']"
  "map sqTopic QUESTIONS = [None, Some ''audience'', Some ''problem'', Some ''boundary'', Some ''success'']"
  "map sqFor QUESTIONS = [None, None, None, None, Some [''internal-tool'', ''production'']]"
  "map sqSets QUESTIONS = [Some ''destination'', None, None, None, None]"
  "map prId PREREQUISITES = [''hosting'', ''scale'', ''country'', ''certification'']"
  "map prRequiredFor PREREQUISITES =
     [[''prototype'', ''internal-tool'', ''production''], [''internal-tool'', ''production''], [''production''], [''production'']]"
  by (simp_all only: QUESTIONS_def PREREQUISITES_def list.map spec_question.select_convs
      spec_prerequisite.select_convs)

lemma destination_needs_eval:
  "destination_needs (str ''prototype'') = [''hosting'']"
  "destination_needs (str ''internal-tool'') = [''hosting'', ''scale'']"
  "destination_needs (str ''production'') = [''hosting'', ''scale'', ''country'', ''certification'']"
  by (simp_all add: destination_needs_def known_destination_def DESTINATIONS_def PREREQUISITES_def)

section \<open>The questionnaire ends\<close>

lemma op_kind_answer [simp]: "op_kind (answer_op i v) = ''answer''" "get (answer_op i v) ''q'' = i"
  by (simp_all add: op_kind_def answer_op_def opt_field_def split: option.split)

lemma find_by_id: "List.find (\<lambda>a. qId a = i) = by_id qId i"
  by (rule ext) (simp add: by_id_def)

lemma closed_by_id:
  "distinct (map qId (fQuestions s)) \<Longrightarrow>
   closed_before s i \<longleftrightarrow> (\<exists>a. by_id qId (str i) (fQuestions s) = Some a \<and> qState a \<noteq> ''open'')"
proof -
  assume d: "distinct (map qId (fQuestions s))"
  have "by_id qId (qId a) (fQuestions s) = Some a" if "a \<in> set (fQuestions s)" for a
  proof (cases "by_id qId (qId a) (fQuestions s)")
    case None
    then show ?thesis using that by (simp add: by_id_None)
  next
    case (Some b)
    then show ?thesis
      using by_id_key [OF Some] that d by (simp add: distinct_map inj_on_def)
  qed
  then show ?thesis
    using by_id_key unfolding closed_before_def by metis
qed

lemma prerequisite_due_iff:
  "distinct (map qId (fQuestions s)) \<Longrightarrow>
   prerequisite_due s i \<longleftrightarrow> \<not> closed_before s (''q-'' @ i) \<and> map_of (fPrerequisites s) i = None"
  by (auto simp: prerequisite_due_def find_by_id closed_by_id split: option.splits)

text \<open>How much of the interview is left: open questions, and due entries of the scenario.\<close>

definition left_over :: "flow \<Rightarrow> nat" where
  "left_over s = length (open_questions s) + length (filter (question_due s) QUESTIONS) +
     length (filter (prerequisite_due s) (destination_needs (fDestination s)))"

lemma needs_found: "i \<in> set (destination_needs d) \<Longrightarrow> find_prerequisite i \<noteq> None"
  by (auto simp: destination_needs_def find_prerequisite_def find_None_iff)

lemma next_question_None:
  assumes "truthy (fDestination s)"
  shows "next_question s = None \<longleftrightarrow> left_over s = 0"
proof -
  have "List.find (\<lambda>i. find_prerequisite i \<noteq> None \<and> prerequisite_due s i) (destination_needs (fDestination s)) = None
      \<longleftrightarrow> filter (prerequisite_due s) (destination_needs (fDestination s)) = []"
    using needs_found [of _ "fDestination s"] by (fastforce simp: find_None_iff filter_empty_conv)
  moreover have "List.find (question_due s) QUESTIONS = None \<longleftrightarrow> filter (question_due s) QUESTIONS = []"
    by (auto simp: find_None_iff filter_empty_conv)
  moreover have "find_prerequisite i \<noteq> None" if
    "List.find (\<lambda>i. find_prerequisite i \<noteq> None \<and> prerequisite_due s i) (destination_needs (fDestination s)) = Some i" for i
    using that by (auto simp: find_Some_iff)
  ultimately show ?thesis
    using assms by (auto simp: next_question_def left_over_def split: option.splits list.splits)
qed

text \<open>One answer to a question that is in the state.\<close>

lemma answer_asked_state:
  "by_id qId j (fQuestions (answer_asked i v s)) =
     map_option (\<lambda>q. if j = i then tell i \<lparr>eOp = answer_op i v, eFile = [], eParty = [], eLine = 0, eAt = []\<rparr> q else q)
       (by_id qId j (fQuestions s)) \<and>
   map qId (fQuestions (answer_asked i v s)) = map qId (fQuestions s) \<and>
   fDestination (answer_asked i v s) = fDestination s \<and> fTopics (answer_asked i v s) = fTopics s"
proof -
  let ?e = "\<lparr>eOp = answer_op i v, eFile = [], eParty = [], eLine = 0, eAt = []\<rparr>"
  have "(tell j ?e :: question \<Rightarrow> question) = (\<lambda>q. if j = i then tell i ?e q else q)"
    by (rule ext) (simp add: tell_other(2) [of ?e j])
  then show ?thesis
    using say_kind_question [of j ?e s]
    by (auto simp: answer_asked_def say_kind_def on_answer_def Let_def)
qed

lemma length_filter_map: "map f xs = map f ys \<Longrightarrow> length (filter (P \<circ> f) xs) = length (filter (P \<circ> f) ys)"
  by (metis length_map filter_map)

lemma open_by_id:
  assumes "distinct (map qId (fQuestions s))"
  shows "map qId (open_questions s) =
    filter (\<lambda>i. \<exists>a. by_id qId i (fQuestions s) = Some a \<and> qState a = ''open'') (map qId (fQuestions s))"
proof -
  have b: "by_id qId (qId a) (fQuestions s) = Some a" if "a \<in> set (fQuestions s)" for a
  proof (cases "by_id qId (qId a) (fQuestions s)")
    case None
    then show ?thesis using that by (simp add: by_id_None)
  next
    case (Some b)
    then show ?thesis
      using by_id_key [OF Some] that assms by (simp add: distinct_map inj_on_def)
  qed
  then show ?thesis
    by (auto simp: open_questions_def filter_map o_def intro!: arg_cong [where f = "map qId"] filter_cong)
qed

lemma filter_fewer:
  assumes "\<And>x. P x \<Longrightarrow> Q x"
  shows "length (filter P xs) \<le> length (filter Q xs)"
    and "x \<in> set xs \<Longrightarrow> Q x \<Longrightarrow> \<not> P x \<Longrightarrow> length (filter P xs) < length (filter Q xs)"
proof -
  have f: "filter P xs = filter P (filter Q xs)"
    using assms by (auto intro: filter_cong)
  then show "length (filter P xs) \<le> length (filter Q xs)"
    by (metis length_filter_le)
  show "x \<in> set xs \<Longrightarrow> Q x \<Longrightarrow> \<not> P x \<Longrightarrow> length (filter P xs) < length (filter Q xs)"
    by (subst f) (rule length_filter_less [of x], simp_all)
qed

lemma filter_other_length:
  "distinct xs \<Longrightarrow> length (filter (\<lambda>j. j \<noteq> i) xs) = length xs - (if i \<in> set xs then 1 else 0)"
proof (induction xs)
  case (Cons x xs)
  then show ?case
    by (cases "x = i") (auto simp: length_greater_0_conv [symmetric] Suc_diff_le gr_implies_not0 simp del: length_greater_0_conv
        dest: length_pos_if_in_set)
qed simp

lemma question_due_step:
  assumes "fDestination s' = fDestination s" and "fTopics s' = fTopics s"
    and "closed_before s' (sqId q) \<longleftrightarrow> closed_before s (sqId q) \<or> X"
  shows "question_due s' q \<longleftrightarrow> question_due s q \<and> \<not> X"
proof -
  have "topic_settled s' t = topic_settled s t" for t
    using assms(2) by (simp add: topic_settled_def topic_state_def)
  then have "(case sqTopic q of None \<Rightarrow> True | Some t \<Rightarrow> \<not> topic_settled s' t) =
      (case sqTopic q of None \<Rightarrow> True | Some t \<Rightarrow> \<not> topic_settled s t)"
    by (simp split: option.split)
  then show ?thesis
    unfolding question_due_def assms(1,3) by blast
qed

lemma answer_asked_prerequisites:
  assumes "map_of (fPrerequisites (answer_asked i v s)) k = None"
  shows "map_of (fPrerequisites s) k = None"
proof -
  have a: "answer_asked i v s = on_answer (answer_op i v) s"
    by (simp add: answer_asked_def say_kind_def)
  obtain x z where "fPrerequisites (on_answer (answer_op i v) s) = fPrerequisites s \<or>
      fPrerequisites (on_answer (answer_op i v) s) = AList.update x z (fPrerequisites s)"
    unfolding on_answer_def Let_def by fastforce
  then show ?thesis
    using assms by (auto simp: a update_conv' split: if_splits)
qed

text \<open>The state an answer leaves, in the terms of what is due.\<close>

lemma answered:
  fixes v :: json
  assumes d: "distinct (map qId (fQuestions s))" and a: "by_id qId i (fQuestions s) = Some a"
  defines "s' \<equiv> answer_asked i v s"
  shows "distinct (map qId (fQuestions s'))" and "fDestination s' = fDestination s" and "fTopics s' = fTopics s"
    and "closed_before s' j \<longleftrightarrow> closed_before s j \<or> str j = i"
    and "length (open_questions s') = length (open_questions s) - (if qState a = ''open'' then 1 else 0)"
    and "map_of (fPrerequisites s') k = None \<Longrightarrow> map_of (fPrerequisites s) k = None"
proof -
  let ?e = "\<lparr>eOp = answer_op i v, eFile = [], eParty = [], eLine = 0, eAt = []\<rparr>"
  note st = answer_asked_state [of _ i v s, folded s'_def]
  show d': "distinct (map qId (fQuestions s'))" and "fDestination s' = fDestination s" and "fTopics s' = fTopics s"
    using st d by simp_all
  have t: "qState (tell i ?e q) = ''answered''" for q
    by (simp add: tell_state status_def status_name_def)
  have b: "(\<exists>x. by_id qId j (fQuestions s') = Some x \<and> P (qState x)) \<longleftrightarrow>
      (if j = i then P ''answered'' else \<exists>x. by_id qId j (fQuestions s) = Some x \<and> P (qState x))" for j and P :: "jstr \<Rightarrow> bool"
    using st [of j] a t by (cases "j = i") (auto simp: t)
  show "closed_before s' j \<longleftrightarrow> closed_before s j \<or> str j = i"
    unfolding closed_by_id [OF d] closed_by_id [OF d'] using b [of "str j" "\<lambda>x. x \<noteq> ''open''"] by auto
  have m: "map qId (fQuestions s') = map qId (fQuestions s)"
    using st by blast
  have e: "(\<lambda>j. \<exists>x. by_id qId j (fQuestions s') = Some x \<and> qState x = ''open'') =
      (\<lambda>j. (\<exists>x. by_id qId j (fQuestions s) = Some x \<and> qState x = ''open'') \<and> j \<noteq> i)"
    by (rule ext) (simp only: b [of _ "\<lambda>x. x = ''open''"], simp)
  have o: "map qId (open_questions s') = filter (\<lambda>j. j \<noteq> i) (map qId (open_questions s))"
    unfolding open_by_id [OF d] open_by_id [OF d'] m filter_filter e by (rule refl)
  have od: "distinct (map qId (open_questions s))"
    unfolding open_by_id [OF d] using d by (rule distinct_filter)
  have oi: "i \<in> set (map qId (open_questions s)) \<longleftrightarrow> qState a = ''open''"
    unfolding open_by_id [OF d] using a by_id_key [OF a] by auto
  show "length (open_questions s') = length (open_questions s) - (if qState a = ''open'' then 1 else 0)"
    using filter_other_length [OF od, of i] unfolding oi o [symmetric] by (simp only: length_map)
  show "map_of (fPrerequisites s') k = None \<Longrightarrow> map_of (fPrerequisites s) k = None"
    unfolding s'_def by (rule answer_asked_prerequisites)
qed

lemma answered_due:
  assumes "distinct (map qId (fQuestions s))" and "by_id qId i (fQuestions s) = Some a"
  shows "question_due (answer_asked i v s) q \<longleftrightarrow> question_due s q \<and> str (sqId q) \<noteq> i"
    and "prerequisite_due (answer_asked i v s) p \<Longrightarrow> prerequisite_due s p \<and> str (''q-'' @ p) \<noteq> i"
proof -
  note f = answered [OF assms, where v = v]
  show "question_due (answer_asked i v s) q \<longleftrightarrow> question_due s q \<and> str (sqId q) \<noteq> i"
    by (rule question_due_step [OF f(2,3,4)])
  show "prerequisite_due (answer_asked i v s) p \<Longrightarrow> prerequisite_due s p \<and> str (''q-'' @ p) \<noteq> i"
    using f(6) unfolding prerequisite_due_iff [OF assms(1)] prerequisite_due_iff [OF f(1)] f(4) by blast
qed

lemma answer_fewer:
  fixes v :: json
  assumes "distinct (map qId (fQuestions s))" and "by_id qId i (fQuestions s) = Some a"
  defines "s' \<equiv> answer_asked i v s"
  shows "length (filter (question_due s') QUESTIONS) \<le> length (filter (question_due s) QUESTIONS)"
    and "q \<in> set QUESTIONS \<Longrightarrow> question_due s q \<Longrightarrow> str (sqId q) = i \<Longrightarrow>
      length (filter (question_due s') QUESTIONS) < length (filter (question_due s) QUESTIONS)"
    and "length (filter (prerequisite_due s') ps) \<le> length (filter (prerequisite_due s) ps)"
    and "p \<in> set ps \<Longrightarrow> prerequisite_due s p \<Longrightarrow> str (''q-'' @ p) = i \<Longrightarrow>
      length (filter (prerequisite_due s') ps) < length (filter (prerequisite_due s) ps)"
proof -
  note due = answered_due [OF assms(1,2), where v = v, folded s'_def]
  show "length (filter (question_due s') QUESTIONS) \<le> length (filter (question_due s) QUESTIONS)"
    by (rule filter_fewer(1)) (simp add: due(1))
  show "length (filter (question_due s') QUESTIONS) < length (filter (question_due s) QUESTIONS)"
    if "q \<in> set QUESTIONS" "question_due s q" "str (sqId q) = i"
    by (rule filter_fewer(2) [of _ _ q]) (use that in \<open>simp_all add: due(1)\<close>)
  show "length (filter (prerequisite_due s') ps) \<le> length (filter (prerequisite_due s) ps)"
    by (rule filter_fewer(1)) (use due(2) in blast)
  show "length (filter (prerequisite_due s') ps) < length (filter (prerequisite_due s) ps)"
    if "p \<in> set ps" "prerequisite_due s p" "str (''q-'' @ p) = i"
    by (rule filter_fewer(2) [of _ _ p]) (use that due(2) in blast)+
qed

text \<open>Asking a scenario question that is not in the state yet.\<close>

lemma ask_entry_step:
  fixes body :: jstr and p :: "jstr option"
  assumes "by_id qId (str i) (fQuestions s) = None"
  defines "s' \<equiv> create_step s (ask_entry i body p)"
  shows "fQuestions s' = fQuestions s @ [asked_question (eOp (ask_entry i body p))]"
    and "s' = s\<lparr>fQuestions := fQuestions s'\<rparr>"
    and "qId (asked_question (eOp (ask_entry i body p))) = str i"
    and "qState (asked_question (eOp (ask_entry i body p))) = ''open''"
proof -
  have k: "op_kind (eOp (ask_entry i body p)) = ''ask''" "get (eOp (ask_entry i body p)) ''q'' = str i"
    by (simp_all add: ask_entry_def op_kind_def opt_field_def)
  show "fQuestions s' = fQuestions s @ [asked_question (eOp (ask_entry i body p))]"
    using assms(1) by (simp add: s'_def create_step_def Let_def k push_new_def by_id_None)
  show "s' = s\<lparr>fQuestions := fQuestions s'\<rparr>"
    by (simp add: s'_def create_step_def Let_def k)
  show "qId (asked_question (eOp (ask_entry i body p))) = str i"
    using k by simp
  show "qState (asked_question (eOp (ask_entry i body p))) = ''open''"
    by (simp add: asked_question_def)
qed

lemma ask_answer_less:
  fixes body :: jstr and p :: "jstr option"
  assumes d: "distinct (map qId (fQuestions s))" and o: "open_questions s = []" and h: "\<not> closed_before s i"
    and m: "(\<exists>q \<in> set QUESTIONS. question_due s q \<and> sqId q = i) \<or>
      (\<exists>k \<in> set (destination_needs (fDestination s)). prerequisite_due s k \<and> ''q-'' @ k = i)"
  defines "s1 \<equiv> create_step s (ask_entry i body p)"
  shows "left_over (answer_asked (str i) v s1) < left_over s \<and>
    distinct (map qId (fQuestions (answer_asked (str i) v s1))) \<and>
    fDestination (answer_asked (str i) v s1) = fDestination s"
proof -
  have n: "by_id qId (str i) (fQuestions s) = None"
  proof (rule ccontr)
    assume "by_id qId (str i) (fQuestions s) \<noteq> None"
    then obtain a where a: "a \<in> set (fQuestions s)" "qId a = str i"
      using by_id_key by (metis not_None_eq)
    then show False
      using o h by (auto simp: open_questions_def closed_before_def filter_empty_conv)
  qed
  let ?q = "asked_question (eOp (ask_entry i body p))"
  note ask = ask_entry_step [OF n, of body p, folded s1_def]
  have d1: "distinct (map qId (fQuestions s1))"
    using d n ask(1,3) by (simp add: by_id_None)
  have b: "by_id qId (str i) (fQuestions s1) = Some ?q"
    using n ask(1,3) by (simp add: by_id_append by_id_Cons)
  have o1: "length (open_questions s1) = 1"
    using o ask(1,4) by (simp add: open_questions_def)
  have h1: "closed_before s1 j = closed_before s j" for j
    using ask(1,4) by (auto simp: closed_before_def)
  have f1: "fDestination s1 = fDestination s" "fTopics s1 = fTopics s" "fPrerequisites s1 = fPrerequisites s"
    by (subst ask(2), simp)+
  have q1: "question_due s1 = question_due s"
    by (rule ext) (use question_due_step [OF f1(1,2), where X = False] h1 in simp)
  have p1: "prerequisite_due s1 = prerequisite_due s"
    by (rule ext) (simp add: prerequisite_due_iff [OF d] prerequisite_due_iff [OF d1] h1 f1)
  let ?s = "answer_asked (str i) v s1"
  have o2: "length (open_questions ?s) = 0"
    using answered(5) [OF d1 b, where v = v] o1 ask(4) by simp
  have dst: "fDestination ?s = fDestination s"
    using answered(2) [OF d1 b, where v = v] f1 by simp
  note less = answer_fewer [OF d1 b, where v = v, unfolded q1 p1]
  have "left_over ?s < left_over s"
    using m
  proof
    assume "\<exists>q \<in> set QUESTIONS. question_due s q \<and> sqId q = i"
    then have "length (filter (question_due ?s) QUESTIONS) < length (filter (question_due s) QUESTIONS)"
      using less(2) by blast
    then show ?thesis
      using less(3) [of "destination_needs (fDestination s)"] o o2 by (simp add: left_over_def dst)
  next
    assume "\<exists>k \<in> set (destination_needs (fDestination s)). prerequisite_due s k \<and> ''q-'' @ k = i"
    then have "length (filter (prerequisite_due ?s) (destination_needs (fDestination s))) <
        length (filter (prerequisite_due s) (destination_needs (fDestination s)))"
      using less(4) by blast
    then show ?thesis
      using less(1) o o2 by (simp add: left_over_def dst)
  qed
  then show ?thesis
    using answered(1) [OF d1 b, where v = v] dst by blast
qed

lemma sets_destination: "q \<in> set QUESTIONS \<Longrightarrow> sqSets q = Some ''destination'' \<Longrightarrow> sqId q = ''q-destination''"
  by (auto simp: QUESTIONS_def)

lemma answer_next_less:
  assumes d: "distinct (map qId (fQuestions s))" and t: "truthy (fDestination s)" and n: "next_question s \<noteq> None"
  shows "left_over (answer_next v s) < left_over s \<and> distinct (map qId (fQuestions (answer_next v s))) \<and>
    fDestination (answer_next v s) = fDestination s"
proof (cases "open_questions s")
  case (Cons a r)
  then have nq: "next_question s = Some (Ask_agent a)"
    using t by (simp add: next_question_def)
  have "a \<in> set (open_questions s)"
    using Cons by simp
  then have a: "a \<in> set (fQuestions s)" "qState a = ''open''"
    by (auto simp: open_questions_def)
  obtain b where b: "by_id qId (qId a) (fQuestions s) = Some b"
    using a(1) by (cases "by_id qId (qId a) (fQuestions s)") (auto simp: by_id_None)
  then have "b = a"
    using by_id_key [OF b] a(1) d by (simp add: distinct_map inj_on_def)
  with b have b: "by_id qId (qId a) (fQuestions s) = Some a"
    by simp
  note ans = answered [OF d b, where v = v] and less = answer_fewer [OF d b, where v = v]
  have "length (open_questions (answer_asked (qId a) v s)) < length (open_questions s)"
    using ans(5) a(2) Cons by simp
  then show ?thesis
    using ans(1,2) less(1) less(3) [of "destination_needs (fDestination s)"]
    by (simp add: answer_next_def nq left_over_def)
next
  case Nil
  show ?thesis
  proof (cases "List.find (question_due s) QUESTIONS")
    case (Some q)
    then have q: "q \<in> set QUESTIONS" "question_due s q"
      by (auto simp: find_Some_iff)
    then have "sqSets q \<noteq> Some ''destination''" "\<not> closed_before s (sqId q)"
      using sets_destination by (auto simp: question_due_def)
    then show ?thesis
      using ask_answer_less [OF d Nil, where i = "sqId q" and body = "sqText q" and p = None and v = v] q Some t Nil
      by (auto simp: answer_next_def next_question_def)
  next
    case None
    then obtain i where i: "List.find (\<lambda>i. find_prerequisite i \<noteq> None \<and> prerequisite_due s i)
        (destination_needs (fDestination s)) = Some i"
      using n t Nil by (auto simp: next_question_def split: option.splits)
    then have i': "i \<in> set (destination_needs (fDestination s))" "prerequisite_due s i"
      by (auto simp: find_Some_iff)
    obtain p where p: "find_prerequisite i = Some p"
      using needs_found [OF i'(1)] by blast
    then have "prId p = i"
      by (auto simp: find_prerequisite_def find_Some_iff)
    moreover have "\<not> closed_before s (''q-'' @ i)"
      using i'(2) by (simp add: prerequisite_due_iff [OF d])
    ultimately show ?thesis
      using ask_answer_less [OF d Nil, where i = "''q-'' @ i" and body = "prTitle p" and p = "Some i" and v = v] i i' p None t Nil
      by (auto simp: answer_next_def next_question_def)
  qed
qed

primrec interview :: "(nat \<Rightarrow> json) \<Rightarrow> nat \<Rightarrow> flow \<Rightarrow> flow" where
  "interview vs 0 s = s"
| "interview vs (Suc k) s = answer_next (vs k) (interview vs k s)"

lemma interview_ends:
  assumes "distinct (map qId (fQuestions s))" and "truthy (fDestination s)"
  shows "\<exists>k \<le> left_over s. next_question (interview vs k s) = None"
proof (rule ccontr)
  assume no: "\<not> ?thesis"
  have "distinct (map qId (fQuestions (interview vs k s))) \<and> fDestination (interview vs k s) = fDestination s \<and>
      left_over (interview vs k s) + k \<le> left_over s" if "k \<le> left_over s" for k
    using that
  proof (induction k)
    case (Suc k)
    then have "next_question (interview vs k s) \<noteq> None"
      using no by auto
    then show ?case
      using Suc answer_next_less [of "interview vs k s" "vs k"] assms(2) by fastforce
  qed (use assms in simp)
  from this [of "left_over s"] have "left_over (interview vs (left_over s) s) = 0"
    "fDestination (interview vs (left_over s) s) = fDestination s"
    by simp_all
  then have "next_question (interview vs (left_over s) s) = None"
    using next_question_None [of "interview vs (left_over s) s"] assms(2) by simp
  with no show False by auto
qed

lemma fold_flow_distinct: "distinct (map qId (fQuestions (fold_flow es)))"
proof -
  let ?es = "js_sort compare_ops es"
  have "distinct (map qId (fQuestions (created ?es)))"
    unfolding created_def by (rule created_distinct) (simp add: empty_state_def)
  then have "distinct (map qId (fQuestions (fst (said ?es))))"
    unfolding said_def using said_question [of None "(created ?es, [])" ?es] by simp
  then show ?thesis
    by (simp add: fold_flow_def withdraw_def Let_def keep_def distinct_map_filter)
qed

text \<open>The questions the scenario itself has for a destination.\<close>

definition budget :: "jstr \<Rightarrow> nat" where
  "budget d = (if d = ''prototype'' then 4 else if d = ''internal-tool'' then 6 else 8)"

lemma left_over_budget:
  assumes "fDestination s = str d" and "d \<in> set DESTINATIONS"
  shows "left_over s \<le> length (open_questions s) + budget d"
proof -
  have q: "length (filter (question_due s) QUESTIONS) \<le>
      length (filter (\<lambda>q. sqId q \<noteq> ''q-destination'' \<and> (case sqFor q of None \<Rightarrow> True | Some ds \<Rightarrow> d \<in> set ds)) QUESTIONS)"
    by (rule filter_fewer(1)) (auto simp: question_due_def assms(1) split: option.splits)
  have p: "length (filter (prerequisite_due s) (destination_needs (str d))) \<le> length (destination_needs (str d))"
    by (rule length_filter_le)
  have d: "d = ''prototype'' \<or> d = ''internal-tool'' \<or> d = ''production''"
    using assms(2) by (auto simp: DESTINATIONS_def)
  then have "length (filter (\<lambda>q. sqId q \<noteq> ''q-destination'' \<and>
        (case sqFor q of None \<Rightarrow> True | Some ds \<Rightarrow> d \<in> set ds)) QUESTIONS) + length (destination_needs (str d)) = budget d"
    by (elim disjE) (simp_all add: budget_def QUESTIONS_def destination_needs_eval)
  then show ?thesis
    using q p unfolding left_over_def assms(1) by linarith
qed

section \<open>Gates of a log\<close>

lemma fGates_create: "fGates (create_step s e) = fGates s"
  by (simp add: create_step_def Let_def)

lemma fGates_handlers:
  "fGates (on_answer op s) = fGates s" "fGates (on_unknown op s) = fGates s" "fGates (on_skip op s) = fGates s"
  "fGates (on_cover op s) = fGates s" "fGates (on_owner op s) = fGates s" "fGates (on_exit op s) = fGates s"
  "fGates (on_verdict op s) = fGates s"
  by (simp_all add: on_answer_def on_unknown_def on_skip_def on_cover_def on_owner_def on_exit_def on_verdict_def Let_def)

lemma fGates_other: "op_kind op \<noteq> ''gate'' \<Longrightarrow> fGates (say_kind op s) = fGates s"
  by (simp add: say_kind_def Let_def fGates_handlers)

lemma fGates_say:
  assumes "map_of (fGates (say_kind op s)) k = Some z"
  shows "map_of (fGates s) k = Some z \<or>
    op_kind op = ''gate'' \<and> k = key_string (get op ''id'') \<and> eState z = get op ''state''"
proof (cases "op_kind op = ''gate''")
  case True
  then have g: "say_kind op s = on_gate op s"
    by (simp add: say_kind_def)
  obtain z' where z': "fGates (on_gate op s) = AList.update (key_string (get op ''id'')) z' (fGates s)"
      "eState z' = get op ''state''"
    unfolding on_gate_def Let_def by fastforce
  show ?thesis
  proof (cases "k = key_string (get op ''id'')")
    case True
    then have "map_of (fGates (on_gate op s)) k = Some z'"
      by (simp add: z'(1) update_conv')
    with assms True z'(2) \<open>op_kind op = ''gate''\<close> show ?thesis
      by (simp add: g)
  next
    case False
    then have "map_of (fGates (on_gate op s)) k = map_of (fGates s) k"
      by (simp add: z'(1) update_conv')
    with assms show ?thesis
      by (simp add: g)
  qed
qed (use assms fGates_other in simp)

lemma fGates_step:
  "map_of (fGates (fst (flow_step sr e))) k = Some z \<Longrightarrow> map_of (fGates (fst sr)) k = Some z \<or>
   op_kind (eOp e) = ''gate'' \<and> k = key_string (get (eOp e) ''id'') \<and> eState z = get (eOp e) ''state''"
  using fGates_say [of "eOp e" "(fst sr)\<lparr>fOps := fOps (fst sr) + 1\<rparr>" k z]
  by (auto simp: flow_step_def Let_def split: if_splits)

lemma fGates_said:
  "map_of (fGates (fst (foldl flow_step sr es))) k = Some z \<Longrightarrow> map_of (fGates (fst sr)) k = Some z \<or>
   (\<exists>e \<in> set es. op_kind (eOp e) = ''gate'' \<and> k = key_string (get (eOp e) ''id'') \<and> eState z = get (eOp e) ''state'')"
proof (induction es arbitrary: sr)
  case (Cons e es)
  have "map_of (fGates (fst (foldl flow_step (flow_step sr e) es))) k = Some z"
    using Cons.prems by (simp only: foldl.simps)
  from Cons.IH [OF this] show ?case
    using fGates_step [of sr e k z] by (metis list.set_intros)
qed simp

lemma fold_gate:
  assumes "map_of (fGates (fold_flow es)) k = Some z"
  shows "\<exists>e \<in> set es. op_kind (eOp e) = ''gate'' \<and> k = key_string (get (eOp e) ''id'') \<and> eState z = get (eOp e) ''state''"
proof -
  have c: "fGates (created xs) = []" for xs
  proof -
    have "fGates (foldl create_step s xs) = fGates s" for s
      by (induction xs arbitrary: s) (simp_all add: fGates_create)
    then show ?thesis
      by (simp add: created_def empty_state_def)
  qed
  show ?thesis
    using assms fGates_said [of "(created (js_sort compare_ops es), [])" "js_sort compare_ops es" k z]
    by (simp add: fold_flow_def withdraw_def Let_def said_def c)
qed

text \<open>What an agent's validated gate ops leave: no stamp on G1 and G8, no waiver.\<close>

definition agent_log :: "json entry list \<Rightarrow> bool" where
  "agent_log es = (\<forall>e \<in> set es. validate_op (Some (eOp e)) ''agent'' = Pass \<and>
     (op_kind (eOp e) = ''gate'' \<longrightarrow> (case get (eOp e) ''id'' of Some (JStr i) \<Rightarrow> True | _ \<Rightarrow> False)))"

lemma agent_gate:
  assumes "agent_log es" and "map_of (fGates (fold_flow es)) k = Some z"
  shows "k \<noteq> ''G1'' \<and> k \<noteq> ''G8'' \<and> (eState z = str ''passed'' \<or> eState z = str ''failed'')"
proof -
  obtain e where e: "e \<in> set es" "op_kind (eOp e) = ''gate''" "k = key_string (get (eOp e) ''id'')"
      "eState z = get (eOp e) ''state''"
    using fold_gate [OF assms(2)] by blast
  then have v: "validate_op (Some (eOp e)) ''agent'' = Pass"
    "case get (eOp e) ''id'' of Some (JStr i) \<Rightarrow> True | _ \<Rightarrow> False"
    using assms(1) by (auto simp: agent_log_def)
  obtain i where i: "get (eOp e) ''id'' = str i"
    using v(2) by (auto split: option.splits json.splits)
  have "check_gate (eOp e) ''agent'' = Pass"
    using validated_kind(1) [OF v(1) e(2)] by simp
  then show ?thesis
    using gate_passes [of "eOp e" "''agent''"] e(3,4) i
    by (auto simp: key_string_def GATE_STATES_def)
qed

section \<open>Properties\<close>

definition sample_gate :: "jstr \<Rightarrow> jstr \<Rightarrow> json entry" where
  "sample_gate g st = \<lparr>eOp = JObj [(''op'', JStr ''gate''), (''id'', JStr g), (''state'', JStr st)],
     eFile = [], eParty = [], eLine = 0, eAt = []\<rparr>"

definition sample_destination :: "json entry" where
  "sample_destination = \<lparr>eOp = JObj [(''op'', JStr ''destination''), (''value'', JStr ''prototype'')],
     eFile = [], eParty = [], eLine = 0, eAt = []\<rparr>"


lemma fold_sample: "fDestination (fold_flow [sample_destination]) = str ''prototype''"
  "fQuestions (fold_flow [sample_destination]) = []"
  by (simp_all add: fold_flow_def said_def created_def sample_destination_def create_step_def flow_step_def
      say_kind_def op_kind_def withdraw_def keep_def CREATION_OPS_def empty_state_def)


lemma next_question_cases:
  assumes "truthy (fDestination s)" and "next_question s = Some n"
  obtains (agent) a where "n = Ask_agent a" "a \<in> set (fQuestions s)" "qState a = ''open''"
  | (spec) q where "n = Ask_spec q" "open_questions s = []" "q \<in> set QUESTIONS" "question_due s q"
  | (prerequisite) i p where "n = Ask_prerequisite p" "open_questions s = []" "\<forall>q \<in> set QUESTIONS. \<not> question_due s q"
      "i \<in> set (destination_needs (fDestination s))" "prerequisite_due s i" "find_prerequisite i = Some p"
proof (cases "open_questions s")
  case (Cons a r)
  then have "a \<in> set (open_questions s)"
    by simp
  then show ?thesis
    using Cons assms agent by (auto simp: next_question_def open_questions_def)
next
  case Nil
  show ?thesis
  proof (cases "List.find (question_due s) QUESTIONS")
    case (Some q)
    then have "n = Ask_spec q" "q \<in> set QUESTIONS" "question_due s q"
      using Nil assms by (simp add: next_question_def) (use Some in \<open>auto simp: find_Some_iff\<close>)
    then show ?thesis
      using spec Nil by blast
  next
    case None
    then have no: "\<forall>q \<in> set QUESTIONS. \<not> question_due s q"
      by (auto simp: find_None_iff)
    obtain i where i: "List.find (\<lambda>i. find_prerequisite i \<noteq> None \<and> prerequisite_due s i)
        (destination_needs (fDestination s)) = Some i"
      using assms None Nil by (auto simp: next_question_def split: option.splits)
    then have i': "i \<in> set (destination_needs (fDestination s))" "prerequisite_due s i"
      by (auto simp: find_Some_iff)
    obtain p where p: "find_prerequisite i = Some p"
      using needs_found [OF i'(1)] by blast
    then have "n = Ask_prerequisite p"
      using assms None Nil i by (simp add: next_question_def)
    then show ?thesis
      using prerequisite Nil no i' p by blast
  qed
qed

text \<open>
  Nothing is asked that the destination does not need, that was heard before or that the person has
  already settled: an agent's open question comes first, then a scenario question for this destination
  whose topic is unsettled, and a prerequisite only when this destination requires it, its question was
  never closed and no value is recorded, after every scenario question.
\<close>
theorem asks_only_what_is_needed:
  assumes "fDestination s = str d" and "d \<in> set DESTINATIONS" and "next_question s = Some n"
    and "distinct (map qId (fQuestions s))"
  shows "case n of
      Ask_agent a \<Rightarrow> a \<in> set (fQuestions s) \<and> qState a = ''open''
    | Ask_spec q \<Rightarrow> q \<in> set QUESTIONS \<and> sqId q \<noteq> ''q-destination'' \<and> open_questions s = [] \<and>
        (\<forall>ds. sqFor q = Some ds \<longrightarrow> d \<in> set ds) \<and> (\<forall>t. sqTopic q = Some t \<longrightarrow> \<not> topic_settled s t) \<and>
        \<not> closed_before s (sqId q)
    | Ask_prerequisite p \<Rightarrow> p \<in> set PREREQUISITES \<and> d \<in> set (prRequiredFor p) \<and> open_questions s = [] \<and>
        \<not> closed_before s (''q-'' @ prId p) \<and> map_of (fPrerequisites s) (prId p) = None \<and>
        (\<forall>q \<in> set QUESTIONS. \<not> question_due s q)"
proof -
  have t: "truthy (fDestination s)" and k: "known_destination (fDestination s) = d"
    using assms(1,2) by (auto simp: DESTINATIONS_def known_destination_def)
  have u: "p \<in> set PREREQUISITES \<and> d \<in> set (prRequiredFor p)"
    if f: "find_prerequisite i = Some p" and i: "i \<in> set (destination_needs (fDestination s))" for i p
  proof -
    have p: "p \<in> set PREREQUISITES" "prId p = i"
      using f by (auto simp: find_prerequisite_def find_Some_iff)
    obtain p' where "p' \<in> set PREREQUISITES" "prId p' = i" "d \<in> set (prRequiredFor p')"
      using i k by (auto simp: destination_needs_def)
    moreover have "distinct (map prId PREREQUISITES)"
      by (simp add: scenario_ids)
    ultimately show ?thesis
      using p by (auto simp: distinct_map inj_on_def)
  qed
  show ?thesis
    using t assms(3)
  proof (cases rule: next_question_cases)
    case (agent a)
    then show ?thesis by simp
  next
    case (spec q)
    then show ?thesis
      using assms(1) by (auto simp: question_due_def)
  next
    case (prerequisite i p)
    then have "prId p = i"
      by (auto simp: find_prerequisite_def find_Some_iff)
    then show ?thesis
      using prerequisite u [of i p] by (simp add: prerequisite_due_iff [OF assms(4)])
  qed
qed

text \<open>
  C15: What an agent alone cannot get past: in a flow folded from ops that all validate as an agent's,
  with gates named by strings, G1 and G8 stand as the record derives them and no gate but G6 is waived;
  G1 passes only with all four parts of the statement answered or assumed, and G8 only with that, with
  nothing composed that exists on paper and no blocker recorded at the handover.
\<close>
theorem agent_cannot_force_gates:
  assumes "agent_log es"
  defines "s \<equiv> fold_flow es"
  shows "gate_state s ''G1'' = gate_1 s \<and> gate_state s ''G8'' = gate_8 s \<and>
    (\<forall>g. g \<noteq> ''G6'' \<longrightarrow> gate_state s g \<noteq> str ''waived'') \<and>
    (gate_state s ''G8'' = str ''passed'' \<longrightarrow>
      (\<forall>i \<in> set STATEMENT_PARTS. is_str (topic_state s i) [''answered'', ''assumed'']) \<and>
      \<not> composed_paper s \<and> \<not> has_items (hBlockedBy (fHandover s)))"
proof -
  have none: "map_of (fGates s) ''G1'' = None" "map_of (fGates s) ''G8'' = None"
    using agent_gate [OF assms(1)] unfolding s_def by (metis not_None_eq)+
  have vd: "verdict_of b \<noteq> str ''waived''" "str ''unreached'' \<noteq> str ''waived''"
    "verdict_of b = str ''passed'' \<longleftrightarrow> b" "verdict_of b = str ''waived'' \<longleftrightarrow> False" for b
    by (simp_all add: verdict_of_def)
  have rule: "gate_rule s g \<noteq> str ''waived''" if "g \<noteq> ''G6''" for g
    using that vd(2)
    by (simp add: gate_rule_def gate_1_def gate_2_def gate_3_def gate_4_def gate_5_def gate_7_def gate_8_def Let_def vd)
  have st: "gate_state s g \<noteq> str ''waived''" if "g \<noteq> ''G6''" for g
  proof (cases "map_of (fGates s) g")
    case (Some z)
    have "eState z = str ''passed'' \<or> eState z = str ''failed''"
      using agent_gate [OF assms(1)] Some unfolding s_def by blast
    then show ?thesis
      using rule [OF that] Some by (auto simp: gate_state_def stamped_or_def)
  qed (use rule [OF that] in \<open>simp add: gate_state_def stamped_or_def\<close>)
  have g1: "gate_state s ''G1'' = gate_1 s" and g8: "gate_state s ''G8'' = gate_8 s"
    using none by (simp_all add: gate_state_def stamped_or_def gate_rule_def)
  have s1: "stamped_or s ''G1'' (gate_1 s) = gate_1 s"
    using none by (simp add: stamped_or_def)
  have w1: "gate_1 s \<noteq> str ''waived''"
    using st [of "''G1''"] g1 by simp
  have "(\<forall>i \<in> set STATEMENT_PARTS. is_str (topic_state s i) [''answered'', ''assumed'']) \<and>
      \<not> composed_paper s \<and> \<not> has_items (hBlockedBy (fHandover s))" if p: "gate_8 s = str ''passed''"
  proof -
    have "\<not> list_all (\<lambda>v. v = str ''unreached'') (earlier_gates s)"
      using p by (auto simp: gate_8_def)
    then have a: "\<not> has_items (hBlockedBy (fHandover s))" "\<not> composed_paper s"
        "list_all (\<lambda>v. is_str v [''passed'', ''waived'']) (earlier_gates s)"
      using p by (simp_all add: gate_8_def vd(3))
    then have "gate_1 s = str ''passed''"
      using s1 w1 by (simp add: earlier_gates_def)
    then have "list_all (\<lambda>i. is_str (topic_state s i) [''answered'', ''assumed'']) STATEMENT_PARTS"
      by (simp add: gate_1_def vd(3) split: if_splits)
    then show ?thesis
      using a by (simp add: list_all_iff)
  qed
  then show ?thesis
    using g1 g8 st by simp
qed

theorem agent_cannot_force_gates_witness:
  "gate_state (fold_flow [sample_gate ''G2'' ''passed'']) ''G1'' = gate_1 (fold_flow [sample_gate ''G2'' ''passed''])"
proof -
  have "agent_log [sample_gate ''G2'' ''passed'']"
    by (simp add: agent_log_def sample_gate_def validate_op_def op_kind_def OP_KINDS_def validate_kind_def
        check_gate_def GATE_STATES_def)
  then show ?thesis
    using agent_cannot_force_gates by blast
qed

section \<open>Where the gates are open\<close>

text \<open>The refusal to let an agent stamp G1 compares the id with a string; an array holding the
  string passes it and names the same gate as a property key.\<close>

definition array_stamp :: "json entry" where
  "array_stamp = \<lparr>eOp = JObj [(''op'', JStr ''gate''), (''id'', JArr [JStr ''G1'']), (''state'', JStr ''passed'')],
     eFile = [], eParty = [], eLine = 0, eAt = []\<rparr>"

lemma agent_array_stamps_G1:
  "validate_op (Some (eOp array_stamp)) ''agent'' = Pass \<and>
   gate_state (fold_flow [array_stamp]) ''G1'' = str ''passed''"
proof
  show "validate_op (Some (eOp array_stamp)) ''agent'' = Pass"
    by (simp add: array_stamp_def validate_op_def OP_KINDS_def validate_kind_def check_gate_def GATE_STATES_def)
  have "map_of (fGates (fold_flow [array_stamp])) ''G1'' =
      Some \<lparr>eState = str ''passed'', eWho = None, eReason = None, eWhen = None\<rparr>"
    by (simp add: fold_flow_def said_def created_def array_stamp_def create_step_def flow_step_def CREATION_OPS_def
        say_kind_def op_kind_def on_gate_def withdraw_def key_string_def or_val_def empty_state_def)
  then show "gate_state (fold_flow [array_stamp]) ''G1'' = str ''passed''"
    by (simp add: gate_state_def stamped_or_def)
qed

text \<open>A person's waiver of G1, which the scenario lets nobody waive, is valid and counts.\<close>

lemma person_waives_G1:
  "find_gate ''G1'' \<noteq> None \<and> map_option gtWaivableBy (find_gate ''G1'') = Some None \<and>
   validate_op (Some (JObj [(''op'', JStr ''gate''), (''id'', JStr ''G1''), (''state'', JStr ''waived''),
     (''reason'', JStr ''r'')])) ''person'' = Pass"
  by (simp add: find_gate_def GATES_def validate_op_def OP_KINDS_def validate_kind_def check_gate_def GATE_STATES_def
      js_trim_def is_space_def)

text \<open>G8 does not look at G6.\<close>

lemma G8_ignores_G6: "gate_8 (s\<lparr>fGates := AList.update ''G6'' z (fGates s)\<rparr>) = gate_8 s"
proof -
  let ?s = "s\<lparr>fGates := AList.update ''G6'' z (fGates s)\<rparr>"
  have t: "topic_state ?s = topic_state s" "topic_settled ?s = topic_settled s"
    "the_destination ?s = the_destination s" "prerequisite_answered ?s = prerequisite_answered s"
    "composed_paper ?s = composed_paper s" "routed ?s = routed s"
    by (simp_all add: topic_state_def [abs_def] topic_settled_def [abs_def] the_destination_def
        prerequisite_answered_def [abs_def] composed_paper_def routed_def [abs_def])
  have g: "gate_1 ?s = gate_1 s" "gate_2 ?s = gate_2 s" "gate_3 ?s = gate_3 s" "gate_4 ?s = gate_4 s"
    "gate_5 ?s = gate_5 s" "gate_7 ?s = gate_7 s"
    by (simp_all add: gate_1_def gate_2_def gate_3_def gate_4_def gate_5_def gate_7_def t Let_def)
  have "stamped_or ?s i v = stamped_or s i v" if "i \<noteq> ''G6''" for i v
    using that by (simp add: stamped_or_def update_conv')
  then have "earlier_gates ?s = earlier_gates s"
    by (simp add: earlier_gates_def g)
  then show ?thesis
    by (simp add: gate_8_def t)
qed

text \<open>An unknown destination needs what production needs, but its success signal neither blocks nor is asked.\<close>

lemma unknown_destination:
  "destination_needs (str ''pilot'') = destination_needs (str ''production'') \<and>
   ''success'' \<in> set (blocking_topics (str ''production'')) \<and> ''success'' \<notin> set (blocking_topics (str ''pilot''))"
  by (simp add: destination_needs_def known_destination_def DESTINATIONS_def blocking_topics_def TOPICS_def)

end
