(* ===== verification/Sha256.thy ===== *)
theory Sha256
  imports Studio_Prelude
begin

text \<open>
  The SHA-256 of browser/quality-identity.js, as the code computes it: a padded byte buffer
  with the length written by \<open>setUint32\<close>, a message schedule filled in place, 64 rounds
  over eight variables, shifts for the rotation. A 32-bit value is a \<open>32 word\<close>: the
  code takes \<open>>>> 0\<close> after every sum, and the sums stay far below \<open>2 ^ 53\<close>.
  A text is its Latin-1 code units, whose UTF-8 form is one or two bytes. The theorem is
  that the digest is the one FIPS 180-4 defines, stated here from the standard: padding by
  the least number of zeros, \<open>ROTR\<close>, the recurrence of the schedule and the chain of
  intermediate hash values.
\<close>

unbundle bit_operations_syntax

section \<open>The code\<close>

definition utf8_char :: "char \<Rightarrow> 8 word list" where
  "utf8_char c =
     (let code = (of_char c :: nat)
      in if code < 0x80 then [of_nat code]
         else [of_nat (0xC0 + code div 64), of_nat (0x80 + code mod 64)])"

definition utf8_bytes :: "jstr \<Rightarrow> 8 word list" where
  "utf8_bytes s = concat (map utf8_char s)"

definition round_constants :: "32 word list" where
  "round_constants = concat [
    [0x428a2f98, 0x71374491, 0xb5c0fbcf, 0xe9b5dba5, 0x3956c25b, 0x59f111f1, 0x923f82a4, 0xab1c5ed5],
    [0xd807aa98, 0x12835b01, 0x243185be, 0x550c7dc3, 0x72be5d74, 0x80deb1fe, 0x9bdc06a7, 0xc19bf174],
    [0xe49b69c1, 0xefbe4786, 0x0fc19dc6, 0x240ca1cc, 0x2de92c6f, 0x4a7484aa, 0x5cb0a9dc, 0x76f988da],
    [0x983e5152, 0xa831c66d, 0xb00327c8, 0xbf597fc7, 0xc6e00bf3, 0xd5a79147, 0x06ca6351, 0x14292967],
    [0x27b70a85, 0x2e1b2138, 0x4d2c6dfc, 0x53380d13, 0x650a7354, 0x766a0abb, 0x81c2c92e, 0x92722c85],
    [0xa2bfe8a1, 0xa81a664b, 0xc24b8b70, 0xc76c51a3, 0xd192e819, 0xd6990624, 0xf40e3585, 0x106aa070],
    [0x19a4c116, 0x1e376c08, 0x2748774c, 0x34b0bcb5, 0x391c0cb3, 0x4ed8aa4a, 0x5b9cca4f, 0x682e6ff3],
    [0x748f82ee, 0x78a5636f, 0x84c87814, 0x8cc70208, 0x90befffa, 0xa4506ceb, 0xbef9a3f7, 0xc67178f2]]"

text \<open>\<open>view.setUint32(at, v)\<close> and \<open>view.getUint32(at)\<close>, big-endian.\<close>

definition be_bytes :: "32 word \<Rightarrow> 8 word list" where
  "be_bytes v = [ucast (drop_bit 24 v), ucast (drop_bit 16 v), ucast (drop_bit 8 v), ucast v]"

definition set_uint32 :: "nat \<Rightarrow> 32 word \<Rightarrow> 8 word list \<Rightarrow> 8 word list" where
  "set_uint32 at v buf = take at buf @ be_bytes v @ drop (at + 4) buf"

definition get_uint32 :: "8 word list \<Rightarrow> nat \<Rightarrow> 32 word" where
  "get_uint32 buf at =
     push_bit 24 (ucast (buf ! at)) OR push_bit 16 (ucast (buf ! (at + 1))) OR
     push_bit 8 (ucast (buf ! (at + 2))) OR ucast (buf ! (at + 3))"

definition padded_length :: "nat \<Rightarrow> nat" where
  "padded_length n = push_bit 6 (drop_bit 6 (n + 9 + 63))"

definition padded_buffer :: "8 word list \<Rightarrow> 8 word list" where
  "padded_buffer bytes =
     (let n = length bytes; len = padded_length n; bitLength = n * 8;
          buf = (bytes @ replicate (len - n) 0)[n := 0x80]
      in set_uint32 (len - 4) (of_nat (bitLength mod 2 ^ 32))
           (set_uint32 (len - 8) (of_nat (bitLength div 0x100000000)) buf))"

definition rotr :: "32 word \<Rightarrow> nat \<Rightarrow> 32 word" where
  "rotr x n = drop_bit n x OR push_bit (32 - n) x"

definition schedule_step :: "32 word list \<Rightarrow> nat \<Rightarrow> 32 word list" where
  "schedule_step w i =
     (let x = w ! (i - 15); y = w ! (i - 2);
          s0 = rotr x 7 XOR rotr x 18 XOR drop_bit 3 x;
          s1 = rotr y 17 XOR rotr y 19 XOR drop_bit 10 y
      in w[i := w ! (i - 16) + s0 + w ! (i - 7) + s1])"

definition fill_words :: "8 word list \<Rightarrow> nat \<Rightarrow> 32 word list \<Rightarrow> 32 word list" where
  "fill_words buf block w = foldl (\<lambda>w i. w[i := get_uint32 buf (block + i * 4)]) w [0..<16]"

definition message_schedule :: "8 word list \<Rightarrow> nat \<Rightarrow> 32 word list \<Rightarrow> 32 word list" where
  "message_schedule buf block w = foldl schedule_step (fill_words buf block w) [16..<64]"

type_synonym eight = "32 word \<times> 32 word \<times> 32 word \<times> 32 word \<times> 32 word \<times> 32 word \<times> 32 word \<times> 32 word"

fun round_step :: "32 word list \<Rightarrow> eight \<Rightarrow> nat \<Rightarrow> eight" where
  "round_step w (a, b, c, d, e, f, g, h) i =
     (let S1 = rotr e 6 XOR rotr e 11 XOR rotr e 25;
          ch = (e AND f) XOR (NOT e AND g);
          t1 = h + S1 + ch + round_constants ! i + w ! i;
          S0 = rotr a 2 XOR rotr a 13 XOR rotr a 22;
          maj = (a AND b) XOR (a AND c) XOR (b AND c);
          t2 = S0 + maj
      in (t1 + t2, a, b, c, d + t1, e, f, g))"

fun add_eight :: "eight \<Rightarrow> eight \<Rightarrow> eight" where
  "add_eight (h0, h1, h2, h3, h4, h5, h6, h7) (a, b, c, d, e, f, g, h) =
     (h0 + a, h1 + b, h2 + c, h3 + d, h4 + e, h5 + f, h6 + g, h7 + h)"

definition initial_hash :: eight where
  "initial_hash = (0x6a09e667, 0xbb67ae85, 0x3c6ef372, 0xa54ff53a, 0x510e527f, 0x9b05688c, 0x1f83d9ab, 0x5be0cd19)"

definition block_step :: "8 word list \<Rightarrow> 32 word list \<times> eight \<Rightarrow> nat \<Rightarrow> 32 word list \<times> eight" where
  "block_step buf wh k =
     (let w = message_schedule buf (64 * k) (fst wh)
      in (w, add_eight (snd wh) (foldl (round_step w) (snd wh) [0..<64])))"

definition sha256_words :: "8 word list \<Rightarrow> eight" where
  "sha256_words bytes =
     (let buf = padded_buffer bytes
      in snd (foldl (block_step buf) (replicate 64 0, initial_hash) [0..<length buf div 64]))"

definition hex8 :: "32 word \<Rightarrow> jstr" where
  "hex8 w = (let t = to_radix 16 (unat w) in replicate (8 - length t) (CHR ''0'') @ t)"

definition sha256_hex :: "jstr \<Rightarrow> jstr" where
  "sha256_hex s =
     (case sha256_words (utf8_bytes s) of (h0, h1, h2, h3, h4, h5, h6, h7) \<Rightarrow>
        concat (map hex8 [h0, h1, h2, h3, h4, h5, h6, h7]))"

section \<open>The standard\<close>

definition zero_bytes :: "nat \<Rightarrow> nat" where
  "zero_bytes n = (LEAST k. (n + 1 + k) mod 64 = 56)"

definition be64 :: "nat \<Rightarrow> 8 word list" where
  "be64 n = map (\<lambda>i. of_nat (n div 256 ^ i)) [7, 6, 5, 4, 3, 2, 1, 0]"

definition fips_padded :: "8 word list \<Rightarrow> 8 word list" where
  "fips_padded m = m @ [0x80] @ replicate (zero_bytes (length m)) 0 @ be64 (8 * length m)"

definition Ch :: "32 word \<Rightarrow> 32 word \<Rightarrow> 32 word \<Rightarrow> 32 word" where
  "Ch x y z = (x AND y) XOR (NOT x AND z)"
definition Maj :: "32 word \<Rightarrow> 32 word \<Rightarrow> 32 word \<Rightarrow> 32 word" where
  "Maj x y z = (x AND y) XOR (x AND z) XOR (y AND z)"
definition Sigma0 :: "32 word \<Rightarrow> 32 word" where
  "Sigma0 x = word_rotr 2 x XOR word_rotr 13 x XOR word_rotr 22 x"
definition Sigma1 :: "32 word \<Rightarrow> 32 word" where
  "Sigma1 x = word_rotr 6 x XOR word_rotr 11 x XOR word_rotr 25 x"
definition sigma0 :: "32 word \<Rightarrow> 32 word" where
  "sigma0 x = word_rotr 7 x XOR word_rotr 18 x XOR drop_bit 3 x"
definition sigma1 :: "32 word \<Rightarrow> 32 word" where
  "sigma1 x = word_rotr 17 x XOR word_rotr 19 x XOR drop_bit 10 x"

text \<open>The words of block \<open>k\<close> of a padded message, and the schedule they start.\<close>

definition block_word :: "8 word list \<Rightarrow> nat \<Rightarrow> nat \<Rightarrow> 32 word" where
  "block_word m k t =
     (let b = map unat (take 4 (drop (64 * k + 4 * t) m))
      in of_nat (256 ^ 3 * b ! 0 + 256 ^ 2 * b ! 1 + 256 * b ! 2 + b ! 3))"

fun W :: "(nat \<Rightarrow> 32 word) \<Rightarrow> nat \<Rightarrow> 32 word" where
  "W M t = (if t < 16 then M t else sigma1 (W M (t - 2)) + W M (t - 7) + sigma0 (W M (t - 15)) + W M (t - 16))"

declare W.simps [simp del]

primrec fips_rounds :: "(nat \<Rightarrow> 32 word) \<Rightarrow> eight \<Rightarrow> nat \<Rightarrow> eight" where
  "fips_rounds w s 0 = s"
| "fips_rounds w s (Suc t) =
     (case fips_rounds w s t of (a, b, c, d, e, f, g, h) \<Rightarrow>
        let T1 = h + Sigma1 e + Ch e f g + round_constants ! t + w t; T2 = Sigma0 a + Maj a b c
        in (T1 + T2, a, b, c, d + T1, e, f, g))"

primrec fips_hash :: "8 word list \<Rightarrow> nat \<Rightarrow> eight" where
  "fips_hash m 0 = initial_hash"
| "fips_hash m (Suc k) = add_eight (fips_hash m k) (fips_rounds (W (block_word m k)) (fips_hash m k) 64)"

definition fips_digest :: "8 word list \<Rightarrow> eight" where
  "fips_digest m = fips_hash (fips_padded m) (length (fips_padded m) div 64)"

section \<open>Rotation and words\<close>

lemma rotr_word_rotr: "n < 32 \<Longrightarrow> rotr x n = word_rotr n x"
proof (rule bit_word_eqI)
  fix i
  assume n: "n < 32" and i: "i < LENGTH(32)"
  have m: "(i + n) mod 32 = (if i + n < 32 then i + n else i + n - 32)"
    using n i by (simp add: mod_if)
  have "i + n < 32 \<or> \<not> bit x (i + n)"
    using bit_imp_le_length [of x "i + n"] by auto
  then show "bit (rotr x n) i = bit (word_rotr n x) i"
    using n i by (auto simp: rotr_def bit_word_rotr_iff bit_or_iff bit_drop_bit_eq bit_push_bit_iff m add.commute)
qed

lemma get_uint32_value:
  assumes "p + 4 \<le> length buf"
  shows "get_uint32 buf p = (let b = map unat (take 4 (drop p buf))
     in of_nat (256 ^ 3 * b ! 0 + 256 ^ 2 * b ! 1 + 256 * b ! 2 + b ! 3))"
proof -
  have small: "\<not> bit (ucast (b :: 8 word) :: 32 word) i" if "8 \<le> i" for b i
    using that by (auto simp: bit_ucast_iff dest: bit_imp_le_length)
  have u: "of_nat (unat (b :: 8 word)) = (ucast b :: 32 word)" for b
    by simp
  have four: "push_bit 24 x + push_bit 16 y + push_bit 8 z + v = push_bit 24 x OR push_bit 16 y OR push_bit 8 z OR v"
    if s: "\<And>i. 8 \<le> i \<Longrightarrow> \<not> bit x i \<and> \<not> bit y i \<and> \<not> bit z i \<and> \<not> bit v i" for x y z v :: "32 word"
  proof -
    have 1: "push_bit 24 x + push_bit 16 y = push_bit 24 x OR push_bit 16 y"
      by (rule disjunctive_add_eq_or, rule bit_word_eqI) (use s in \<open>auto simp: bit_simps\<close>)
    have 2: "(push_bit 24 x OR push_bit 16 y) + push_bit 8 z = push_bit 24 x OR push_bit 16 y OR push_bit 8 z"
      by (subst disjunctive_add_eq_or, rule bit_word_eqI) (use s in \<open>auto simp: bit_simps or.assoc\<close>)
    have 3: "(push_bit 24 x OR push_bit 16 y OR push_bit 8 z) + v = push_bit 24 x OR push_bit 16 y OR push_bit 8 z OR v"
      by (subst disjunctive_add_eq_or, rule bit_word_eqI) (use s in \<open>auto simp: bit_simps or.assoc\<close>)
    show ?thesis
      by (simp only: 1 2 3)
  qed
  have "of_nat (256 ^ 3 * unat b0 + 256 ^ 2 * unat b1 + 256 * unat b2 + unat b3) =
      (push_bit 24 (ucast b0) + push_bit 16 (ucast b1) + push_bit 8 (ucast b2) + ucast b3 :: 32 word)"
    for b0 b1 b2 b3 :: "8 word"
    by (simp add: push_bit_eq_mult algebra_simps)
  also have "\<dots> b0 b1 b2 b3 = push_bit 24 (ucast b0) OR push_bit 16 (ucast b1) OR push_bit 8 (ucast b2) OR ucast b3"
    for b0 b1 b2 b3
    by (rule four) (simp add: small)
  finally show ?thesis
    using assms by (simp add: get_uint32_def Let_def)
qed

section \<open>Schedule and rounds\<close>

lemma fill_words_prefix:
  assumes "length w = 64" and "n \<le> 16"
  shows "length (foldl (\<lambda>w i. w[i := get_uint32 buf (p + i * 4)]) w [0..<n]) = 64 \<and>
    (\<forall>t < n. foldl (\<lambda>w i. w[i := get_uint32 buf (p + i * 4)]) w [0..<n] ! t = get_uint32 buf (p + t * 4))"
  using assms(2)
proof (induction n)
  case (Suc n)
  then show ?case
    by (auto simp: nth_list_update less_Suc_eq)
qed (simp add: assms(1))

lemma schedule_prefix:
  assumes "length w = 64" and "64 * k + 64 \<le> length buf" and "16 \<le> n" and "n \<le> 64"
  shows "length (foldl schedule_step (fill_words buf (64 * k) w) [16..<n]) = 64 \<and>
    (\<forall>t < n. foldl schedule_step (fill_words buf (64 * k) w) [16..<n] ! t = W (block_word buf k) t)"
  using assms(3,4)
proof (induction n rule: nat_induct_at_least)
  case base
  have "get_uint32 buf (64 * k + t * 4) = W (block_word buf k) t" if "t < 16" for t
    using that assms(2) get_uint32_value [of "64 * k + t * 4" buf]
    by (simp add: W.simps [of _ t] block_word_def mult.commute)
  then show ?case
    using fill_words_prefix [OF assms(1), of 16 buf "64 * k"] by (simp add: fill_words_def)
next
  case (Suc n)
  let ?w = "foldl schedule_step (fill_words buf (64 * k) w) [16..<n]"
  let ?W = "W (block_word buf k)"
  have IH: "length ?w = 64" "\<forall>t < n. ?w ! t = ?W t"
    using Suc by simp_all
  have st: "schedule_step ?w n = ?w[n := ?W n]"
  proof -
    have n: "?w ! (n - 15) = ?W (n - 15)" "?w ! (n - 2) = ?W (n - 2)" "?w ! (n - 16) = ?W (n - 16)" "?w ! (n - 7) = ?W (n - 7)"
      using Suc.hyps IH(2) by auto
    have "?W n = sigma1 (?W (n - 2)) + ?W (n - 7) + sigma0 (?W (n - 15)) + ?W (n - 16)"
      using Suc.hyps by (subst W.simps) simp
    then show ?thesis
      unfolding schedule_step_def n Let_def by (simp add: sigma0_def sigma1_def rotr_word_rotr algebra_simps)
  qed
  have "foldl schedule_step (fill_words buf (64 * k) w) [16..<Suc n] = ?w[n := ?W n]"
    using Suc.hyps st by simp
  then show ?case
    using IH Suc by (auto simp: nth_list_update less_Suc_eq)
qed

lemma message_schedule_W:
  assumes "length w = 64" and "64 * k + 64 \<le> length buf"
  shows "length (message_schedule buf (64 * k) w) = 64"
    and "t < 64 \<Longrightarrow> message_schedule buf (64 * k) w ! t = W (block_word buf k) t"
  using schedule_prefix [OF assms, of 64] by (simp_all add: message_schedule_def)

lemma rounds_fold:
  "(\<And>t. t < n \<Longrightarrow> w ! t = v t) \<Longrightarrow> foldl (round_step w) s [0..<n] = fips_rounds v s n"
proof (induction n)
  case (Suc n)
  obtain a b c d e f gh where gh: "fips_rounds v s n = (a, b, c, d, e, f, gh)"
    by (cases "fips_rounds v s n")
  obtain g h where s: "fips_rounds v s n = (a, b, c, d, e, f, g, h)"
    using gh by (cases gh) simp
  have "foldl (round_step w) s [0..<n] = (a, b, c, d, e, f, g, h)"
    using Suc s by simp
  then show ?case
    using Suc.prems [of n]
    by (simp add: s Let_def rotr_word_rotr Sigma0_def Sigma1_def Ch_def Maj_def)
qed simp

lemma blocks_fold:
  assumes "64 * n \<le> length buf" and "length w = 64"
  shows "length (fst (foldl (block_step buf) (w, initial_hash) [0..<n])) = 64 \<and>
    snd (foldl (block_step buf) (w, initial_hash) [0..<n]) = fips_hash buf n"
  using assms(1)
proof (induction n)
  case (Suc n)
  let ?s = "foldl (block_step buf) (w, initial_hash) [0..<n]"
  have IH: "length (fst ?s) = 64" "snd ?s = fips_hash buf n" and b: "64 * n + 64 \<le> length buf"
    using Suc by simp_all
  note m = message_schedule_W [OF IH(1) b]
  have f: "foldl (block_step buf) (w, initial_hash) [0..<Suc n] = block_step buf ?s n"
    by simp
  show ?case
    unfolding f block_step_def [of buf ?s n] Let_def
    using m(1) rounds_fold [of 64, OF m(2)] IH(2) by simp
qed (simp add: assms(2))

section \<open>Padding\<close>

lemma padded_length_props:
  "padded_length n mod 64 = 0" "n + 9 \<le> padded_length n" "padded_length n < n + 73"
proof -
  have p: "padded_length n = 64 * ((n + 72) div 64)"
    by (simp add: padded_length_def push_bit_eq_mult drop_bit_eq_div)
  have d: "(n + 72) div 64 * 64 + (n + 72) mod 64 = n + 72" "(n + 72) mod 64 < 64"
    by (simp_all add: div_mult_mod_eq)
  show "padded_length n mod 64 = 0"
    by (simp add: p)
  show "n + 9 \<le> padded_length n" "padded_length n < n + 73"
    using d unfolding p by linarith+
qed

lemma zero_bytes_padded: "zero_bytes n = padded_length n - n - 9"
proof -
  let ?k = "padded_length n - n - 9"
  note p = padded_length_props [of n]
  have e: "n + 1 + ?k + 8 = padded_length n"
    using p by simp
  have "(n + 1 + ?k) mod 64 = 56"
  proof -
    obtain q where q: "padded_length n = 64 * q"
      using p(1) by auto
    then have "n + 1 + ?k = 56 + 64 * (q - 1)"
      using e p(2) by (cases q) auto
    then show ?thesis
      by simp
  qed
  moreover have "?k \<le> k" if "(n + 1 + k) mod 64 = 56" for k
  proof (rule ccontr)
    assume "\<not> ?k \<le> k"
    then have l: "k < ?k" "?k < 64"
      using p by auto
    have "n + 1 + k = 56 + 64 * ((n + 1 + k) div 64)"
      using that div_mult_mod_eq [of "n + 1 + k" 64] by linarith
    then obtain m where m: "n + 1 + k = 56 + 64 * m" ..
    obtain q where q: "padded_length n = 64 * q"
      using p(1) by auto
    have "n + 1 + k + 8 < padded_length n" "padded_length n < n + 1 + k + 8 + 64"
      using e l by linarith+
    then have "64 * (m + 1) < 64 * q" "64 * q < 64 * (m + 2)"
      unfolding m q by simp_all
    then have "m + 1 < q" "q < m + 2"
      by (simp_all only: mult_less_cancel1)
    then show False
      by simp
  qed
  ultimately show ?thesis
    unfolding zero_bytes_def by (intro Least_equality) auto
qed

lemma be_byte:
  assumes "k + 8 \<le> 32"
  shows "(ucast (drop_bit k (of_nat x :: 32 word)) :: 8 word) = of_nat (x div 2 ^ k)"
proof (rule bit_word_eqI)
  fix i
  assume i: "i < LENGTH(8)"
  show "bit (ucast (drop_bit k (of_nat x :: 32 word)) :: 8 word) i = bit (of_nat (x div 2 ^ k) :: 8 word) i"
    using i assms by (simp add: bit_simps drop_bit_eq_div [symmetric])
qed

lemma be_bytes_of_nat:
  "be_bytes (of_nat x) = [of_nat (x div 2 ^ 24), of_nat (x div 2 ^ 16), of_nat (x div 2 ^ 8), of_nat x]"
  using be_byte [of 24 x] be_byte [of 16 x] be_byte [of 8 x] be_byte [of 0 x] by (simp add: be_bytes_def)

lemma of_nat_mod_div:
  assumes "k + 8 \<le> 32"
  shows "(of_nat (x mod 2 ^ 32 div 2 ^ k) :: 8 word) = of_nat (x div 2 ^ k)"
proof -
  have "(of_nat (x mod 2 ^ 32 div 2 ^ k) :: 8 word) = ucast (drop_bit k (of_nat (x mod 2 ^ 32) :: 32 word))"
    using be_byte [OF assms] by simp
  also have "(of_nat (x mod 2 ^ 32) :: 32 word) = of_nat x"
  proof (rule bit_word_eqI)
    fix i
    assume "i < LENGTH(32)"
    have "x mod 4294967296 = take_bit 32 x"
      by (simp add: take_bit_eq_mod)
    then show "bit (of_nat (x mod 2 ^ 32) :: 32 word) i = bit (of_nat x :: 32 word) i"
      by (simp add: bit_simps)
  qed
  finally show ?thesis
    using be_byte [OF assms] by simp
qed

lemma length_bytes_be64:
  "be_bytes (of_nat (x div 0x100000000)) @ be_bytes (of_nat (x mod 2 ^ 32)) = be64 x"
proof -
  have "be_bytes (of_nat (x mod 2 ^ 32)) = [of_nat (x div 2 ^ 24), of_nat (x div 2 ^ 16), of_nat (x div 2 ^ 8), of_nat x]"
    using of_nat_mod_div [of 24 x] of_nat_mod_div [of 16 x] of_nat_mod_div [of 8 x] of_nat_mod_div [of 0 x]
    by (simp add: be_bytes_of_nat)
  then show ?thesis
    by (simp add: be_bytes_of_nat be64_def div_mult2_eq [symmetric])
qed

lemma padded_fips: "padded_buffer bytes = fips_padded bytes"
proof -
  let ?n = "length bytes" and ?len = "padded_length (length bytes)"
  let ?hi = "be_bytes (of_nat (?n * 8 div 0x100000000))" and ?lo = "be_bytes (of_nat (?n * 8 mod 2 ^ 32))"
  note p = padded_length_props [of ?n]
  have l4: "length (be_bytes v) = 4" for v
    by (simp add: be_bytes_def)
  let ?z = "zero_bytes ?n"
  have len: "?len = ?n + 1 + ?z + 8"
    using p zero_bytes_padded [of ?n] by simp
  have z: "?len - ?n = Suc (?z + 8)"
    using len by linarith
  have r: "replicate (?len - ?n) (0 :: 8 word) = 0 # replicate ?z 0 @ replicate 8 0"
    unfolding z replicate_Suc replicate_add by (rule refl)
  have b: "(bytes @ replicate (?len - ?n) 0)[?n := 0x80] = (bytes @ 0x80 # replicate ?z 0) @ replicate 8 0"
    unfolding r by (simp add: list_update_append)
  let ?pre = "bytes @ 0x80 # replicate ?z (0 :: 8 word)"
  have lp: "length ?pre = ?len - 8"
    using len by simp
  have s1: "set_uint32 (?len - 8) v (?pre @ replicate 8 0) = ?pre @ be_bytes v @ replicate 4 0" for v
  proof -
    have t: "take (length ?pre) (?pre @ replicate 8 0) = ?pre"
      by simp
    have "drop (length ?pre + 4) (?pre @ replicate 8 (0 :: 8 word)) = drop 4 (drop (length ?pre) (?pre @ replicate 8 0))"
      by (simp only: drop_drop add.commute)
    also have "\<dots> = replicate 4 0"
      by (simp only: append_eq_conv_conj [THEN iffD1, OF refl, THEN conjunct2, symmetric] drop_replicate) simp
    finally show ?thesis
      unfolding set_uint32_def lp [symmetric] t by simp
  qed
  have s2: "set_uint32 (?len - 4) v (?pre @ be_bytes u @ replicate 4 0) = ?pre @ be_bytes u @ be_bytes v" for u v
  proof -
    have e: "?len - 4 = length (?pre @ be_bytes u)"
      using len l4 [of u] by simp
    show ?thesis
      unfolding set_uint32_def e by simp
  qed
  have "padded_buffer bytes = ?pre @ ?hi @ ?lo"
    by (simp only: padded_buffer_def Let_def b s1 s2)
  also have "\<dots> = fips_padded bytes"
    by (simp only: length_bytes_be64) (simp add: fips_padded_def mult.commute)
  finally show ?thesis .
qed

lemma fips_padded_length: "length (fips_padded bytes) = padded_length (length bytes)"
  using padded_length_props [of "length bytes"] zero_bytes_padded [of "length bytes"]
  by (simp add: fips_padded_def be64_def)

section \<open>Properties\<close>

text \<open>
  C27: The code's sha256 is the one of the standard: for every text, the digest words are those
  FIPS 180-4 defines on its UTF-8 bytes, padding, message schedule and compression included, and each
  is printed as eight hexadecimal digits.
\<close>
theorem sha256_is_fips:
  "sha256_words (utf8_bytes s) = fips_digest (utf8_bytes s)"
proof -
  let ?m = "fips_padded (utf8_bytes s)"
  have "64 * (length ?m div 64) \<le> length ?m"
    by simp
  then have "snd (foldl (block_step ?m) (replicate 64 0, initial_hash) [0..<length ?m div 64]) = fips_hash ?m (length ?m div 64)"
    using blocks_fold [of "length ?m div 64" ?m "replicate 64 0"] by simp
  then show ?thesis
    by (simp add: sha256_words_def Let_def padded_fips fips_digest_def)
qed

end
