(* ===== verification/Quality_Identity.thy ===== *)
theory Quality_Identity
  imports Sha256 Collab_Registry
begin

text \<open>
  browser/quality-identity.js: what a finding is across runs. The fingerprint over the
  normalised anchors, the reconciliation of a run with the previous one and the stored
  judgments, and staleness. Texts are Latin-1, so \<open>normalize('NFC')\<close> is the identity and
  the letters and numbers of \<open>\p{L}\p{N}\<close> are listed; an absent string and the empty
  one are both falsy to the code and both the empty list. A judgment is its status and
  whatever else it carries (the extension of the record). The theorems are what changes of
  a finding keep its fingerprint and what its payload pins down, that reconciling loses no
  judgment and sorts every finding into one case, and when a finding is stale.
\<close>

section \<open>Keys\<close>

definition UNIT :: char where "UNIT = CHR 0x1F"
definition RECORD :: char where "RECORD = CHR 0x1E"

definition is_word_char :: "char \<Rightarrow> bool" where
  "is_word_char c =
     (let n = (of_char c :: nat)
      in (48 \<le> n \<and> n \<le> 57) \<or> (65 \<le> n \<and> n \<le> 90) \<or> (97 \<le> n \<and> n \<le> 122) \<or>
         n \<in> {0xAA, 0xB2, 0xB3, 0xB5, 0xB9, 0xBA, 0xBC, 0xBD, 0xBE} \<or>
         (0xC0 \<le> n \<and> n \<noteq> 0xD7 \<and> n \<noteq> 0xF7))"

text \<open>\<open>replace(/[^\p{L}\p{N}]+/gu, ' ')\<close>; the flag says that the previous character was replaced.\<close>

fun blank_runs :: "bool \<Rightarrow> jstr \<Rightarrow> jstr" where
  "blank_runs inRun [] = []"
| "blank_runs inRun (c # r) =
     (if is_word_char c then c # blank_runs False r
      else if inRun then blank_runs True r else CHR '' '' # blank_runs True r)"

definition normalize_text :: "jstr \<Rightarrow> jstr" where
  "normalize_text s = js_trim (blank_runs False (map js_lower s))"

record anchor =
  anFile :: jstr
  anSection :: jstr
  anText :: jstr

definition anchor_texts :: "anchor list \<Rightarrow> jstr list" where
  "anchor_texts ans = sort (filter (\<lambda>t. t \<noteq> []) (map (\<lambda>a. normalize_text (anText a)) ans))"

definition anchor_key :: "anchor list \<Rightarrow> jstr" where
  "anchor_key ans = join [UNIT] (anchor_texts ans)"

definition structure_lines :: "anchor list \<Rightarrow> jstr list" where
  "structure_lines ans = sort (map (\<lambda>a. anFile a @ ''#'' @ normalize_text (anSection a)) ans)"

definition structural_key :: "anchor list \<Rightarrow> jstr" where
  "structural_key ans = join [UNIT] (structure_lines ans)"

record triage =
  jStatus :: jstr

record 'j finding =
  fdRule :: "jstr option"
  fdVersion :: jstr
  fdAnchors :: "anchor list"
  fdPrint :: jstr
  fdStatus :: jstr
  fdJudgment :: "'j triage_scheme option"
  fdSupersedes :: "jstr option"
  fdIsNew :: bool
  fdHashes :: "(jstr \<times> jstr) list"

definition rule_name :: "'j finding \<Rightarrow> jstr" where
  "rule_name f = (case fdRule f of Some r \<Rightarrow> (if r = [] then ''unknown'' else r) | None \<Rightarrow> ''unknown'')"

definition version_name :: "'j finding \<Rightarrow> jstr" where
  "version_name f = (if fdVersion f = [] then ''1'' else fdVersion f)"

definition payload :: "'j finding \<Rightarrow> jstr" where
  "payload f =
     join [RECORD] [rule_name f, version_name f, anchor_key (fdAnchors f), structural_key (fdAnchors f)]"

definition fingerprint :: "'j finding \<Rightarrow> jstr" where
  "fingerprint f = ''q1-'' @ take 16 (sha256_hex (payload f))"

section \<open>reconcile\<close>

type_synonym 'j judgments = "(jstr \<times> 'j triage_scheme) list"

text \<open>\<open>finding.rule + RECORD + structuralKey\<close>: a missing rule reads as \<open>undefined\<close> here.\<close>

definition structure_of :: "'j finding \<Rightarrow> jstr" where
  "structure_of f =
     (case fdRule f of Some r \<Rightarrow> r | None \<Rightarrow> ''undefined'') @ [RECORD] @ structural_key (fdAnchors f)"

definition key_texts :: "anchor list \<Rightarrow> jstr list" where
  "key_texts ans = filter (\<lambda>t. t \<noteq> []) (split_on UNIT (anchor_key ans))"

definition status_of :: "'j triage_scheme option \<Rightarrow> jstr" where
  "status_of j = (case j of Some x \<Rightarrow> jStatus x | None \<Rightarrow> [])"

definition first_status :: "jstr list \<Rightarrow> jstr" where
  "first_status ss = (case filter (\<lambda>s. s \<noteq> []) ss of s # _ \<Rightarrow> s | [] \<Rightarrow> ''open'')"

definition or_judgment :: "'j triage_scheme option \<Rightarrow> 'j triage_scheme option \<Rightarrow> 'j triage_scheme option" where
  "or_judgment a b = (if a = None then b else a)"

definition resolved_now :: "'j finding list \<Rightarrow> 'j finding list \<Rightarrow> 'j finding list" where
  "resolved_now previous now = filter (\<lambda>f. fdPrint f \<notin> fdPrint ` set now) previous"

definition ancestor_of :: "'j finding list \<Rightarrow> 'j finding \<Rightarrow> 'j finding option" where
  "ancestor_of resolved f =
     List.find (\<lambda>c. \<exists>t \<in> set (key_texts (fdAnchors c)). t \<in> set (key_texts (fdAnchors f)))
       (filter (\<lambda>c. structure_of c = structure_of f) resolved)"

datatype 'j outcome = Carried "'j finding" | Superseded "'j finding" | Appeared "'j finding"

definition reconcile_one :: "'j finding list \<Rightarrow> 'j finding list \<Rightarrow> 'j judgments \<Rightarrow> 'j finding \<Rightarrow> 'j outcome" where
  "reconcile_one previous resolved js f =
     (let stored = map_of js (fdPrint f)
      in case map_of (rev (map (\<lambda>p. (fdPrint p, p)) previous)) (fdPrint f) of
           Some c \<Rightarrow> Carried (f\<lparr>fdStatus := first_status [status_of stored, fdStatus c],
               fdJudgment := or_judgment stored (fdJudgment c), fdIsNew := False\<rparr>)
         | None \<Rightarrow>
             (case ancestor_of resolved f of
                Some a \<Rightarrow>
                  (let inherited = or_judgment (map_of js (fdPrint a)) (fdJudgment a)
                   in Superseded (f\<lparr>fdStatus := first_status [status_of stored, status_of inherited, fdStatus a],
                        fdJudgment := or_judgment stored inherited, fdSupersedes := Some (fdPrint a), fdIsNew := True\<rparr>))
              | None \<Rightarrow> Appeared (f\<lparr>fdStatus := first_status [status_of stored], fdJudgment := stored, fdIsNew := True\<rparr>)))"

fun the_finding :: "'j outcome \<Rightarrow> 'j finding" where
  "the_finding (Carried f) = f"
| "the_finding (Superseded f) = f"
| "the_finding (Appeared f) = f"

fun superseded_part :: "'j outcome \<Rightarrow> 'j finding list" where
  "superseded_part (Superseded f) = [f]"
| "superseded_part v = []"

fun appeared_part :: "'j outcome \<Rightarrow> 'j finding list" where
  "appeared_part (Appeared f) = [f]"
| "appeared_part v = []"

record 'j reconciled =
  rcFindings :: "'j finding list"
  rcResolved :: "'j finding list"
  rcAppeared :: "'j finding list"
  rcSuperseded :: "'j finding list"

definition reconcile :: "'j finding list \<Rightarrow> 'j finding list \<Rightarrow> 'j judgments \<Rightarrow> 'j reconciled" where
  "reconcile previous now js =
     (let resolved = resolved_now previous now;
          outcomes = map (reconcile_one previous resolved js) now;
          superseded = concat (map superseded_part outcomes)
      in \<lparr>rcFindings = map the_finding outcomes,
          rcResolved = filter (\<lambda>f. Some (fdPrint f) \<notin> fdSupersedes ` set superseded) resolved,
          rcAppeared = concat (map appeared_part outcomes),
          rcSuperseded = superseded\<rparr>)"

section \<open>Staleness\<close>

definition content_step :: "32 word \<Rightarrow> char \<Rightarrow> 32 word" where
  "content_step h c = (h XOR of_char c) * 0x01000193"

definition content_hash :: "jstr \<Rightarrow> jstr" where
  "content_hash s = ''h'' @ to_radix 16 (unat (foldl content_step 0x811c9dc5 s)) @ ''-'' @ to_radix 16 (length s)"

definition is_stale :: "'j finding \<Rightarrow> (jstr \<times> jstr) list option \<Rightarrow> bool" where
  "is_stale f hashesNow =
     (case hashesNow of None \<Rightarrow> False
      | Some now \<Rightarrow> \<exists>k \<in> fst ` set (fdHashes f). map_of now k \<noteq> None \<and> map_of now k \<noteq> map_of (fdHashes f) k)"

section \<open>Normalised texts\<close>

lemma lower_word_char: "\<not> is_word_char c \<Longrightarrow> js_lower c = c"
  by (auto simp: is_word_char_def js_lower_def Let_def)

lemma lower_keeps_word: "is_word_char c \<Longrightarrow> is_word_char (js_lower c)"
  by (auto simp: is_word_char_def js_lower_def Let_def)

lemma blank_runs_append:
  "blank_runs b (u @ v) = blank_runs b u @ blank_runs (if u = [] then b else \<not> is_word_char (last u)) v"
  by (induction b u rule: blank_runs.induct) auto

lemma blank_runs_chars: "c \<in> set (blank_runs b s) \<Longrightarrow> is_word_char c \<or> c = CHR '' ''"
  by (induction b s rule: blank_runs.induct) (auto split: if_splits)

lemma set_js_trim: "set (js_trim s) \<subseteq> set s"
  by (auto simp: js_trim_def dest!: set_dropWhileD)

lemma normalize_chars: "c \<in> set (normalize_text s) \<Longrightarrow> is_word_char c \<or> c = CHR '' ''"
  using blank_runs_chars set_js_trim unfolding normalize_text_def by blast

lemma separators_blank: "\<not> is_word_char UNIT" "\<not> is_word_char RECORD" "UNIT \<noteq> CHR '' ''" "RECORD \<noteq> CHR '' ''" "UNIT \<noteq> RECORD"
  by (simp_all add: UNIT_def RECORD_def is_word_char_def)

lemma normalize_free: "UNIT \<notin> set (normalize_text s)" "RECORD \<notin> set (normalize_text s)"
  using normalize_chars separators_blank by blast+

lemma trim_trailing: "js_trim (s @ '' '') = js_trim s"
proof (cases "dropWhile is_space s")
  case Nil
  then have "dropWhile is_space (s @ '' '') = []"
    unfolding dropWhile_eq_Nil_conv by (auto simp: is_space_def)
  then show ?thesis
    by (simp only: js_trim_def Nil)
next
  case (Cons x r)
  then have "dropWhile is_space s \<noteq> []"
    by (simp only: list.distinct not_False_eq_True)
  then obtain y where "y \<in> set s" "\<not> is_space y"
    unfolding dropWhile_eq_Nil_conv by blast
  then have "dropWhile is_space (s @ '' '') = dropWhile is_space s @ '' ''"
    by (rule dropWhile_append1)
  then show ?thesis
    by (simp add: js_trim_def is_space_def)
qed

text \<open>A comma or any other sign after a sentence, or beside another sign, does not change the text.\<close>

lemma normalize_sign_end:
  assumes "\<not> is_word_char c"
  shows "normalize_text (u @ [c]) = normalize_text u"
proof -
  have "blank_runs b [c] = [] \<or> blank_runs b [c] = '' ''" for b
    using assms by simp
  then show ?thesis
    using trim_trailing by (auto simp: normalize_text_def blank_runs_append lower_word_char [OF assms])
qed

lemma normalize_sign_beside:
  assumes "\<not> is_word_char c" and "\<not> is_word_char d"
  shows "normalize_text (u @ c # d # v) = normalize_text (u @ d # v)"
  using assms by (simp add: normalize_text_def blank_runs_append lower_word_char)

section \<open>What the payload pins down\<close>

lemma join_free_inj:
  assumes "\<forall>x \<in> set xs \<union> set ys. x \<noteq> [] \<and> c \<notin> set x" and "join [c] xs = join [c] ys"
  shows "xs = ys"
proof (cases "xs = [] \<or> ys = []")
  case True
  have "join [c] zs \<noteq> []" if "zs \<noteq> []" "\<forall>z \<in> set zs. z \<noteq> []" for zs
    using that by (cases zs rule: list.exhaust) (auto simp: join_Cons [of "tl zs"] elim: join.elims)
  then show ?thesis
    using True assms by (cases xs; cases ys) (metis UnI1 UnI2 join.simps(1) list.distinct(1))+
next
  case False
  then show ?thesis
    using assms split_on_join [of xs c] split_on_join [of ys c] by (metis UnI1 UnI2)
qed

lemma set_join: "set (join sep xs) \<subseteq> (\<Union>x \<in> set xs. set x) \<union> set sep"
  by (induction sep xs rule: join.induct) auto

definition clean_finding :: "'j finding \<Rightarrow> bool" where
  "clean_finding f = (RECORD \<notin> set (rule_name f) \<and> RECORD \<notin> set (version_name f) \<and>
     (\<forall>a \<in> set (fdAnchors f). RECORD \<notin> set (anFile a) \<and> UNIT \<notin> set (anFile a)))"

lemma anchor_texts_free: "t \<in> set (anchor_texts ans) \<Longrightarrow> t \<noteq> [] \<and> UNIT \<notin> set t \<and> RECORD \<notin> set t"
  using normalize_free by (auto simp: anchor_texts_def)

lemma structure_lines_free:
  assumes "clean_finding f" and "l \<in> set (structure_lines (fdAnchors f))"
  shows "l \<noteq> [] \<and> UNIT \<notin> set l \<and> RECORD \<notin> set l"
proof -
  obtain a where a: "a \<in> set (fdAnchors f)" "l = anFile a @ ''#'' @ normalize_text (anSection a)"
    using assms(2) by (auto simp: structure_lines_def)
  have "UNIT \<noteq> CHR ''#''" "RECORD \<noteq> CHR ''#''"
    by (simp_all add: UNIT_def RECORD_def)
  then show ?thesis
    using a assms(1) normalize_free [of "anSection a"] by (auto simp: clean_finding_def)
qed

lemma payload_parts:
  assumes "clean_finding f"
  shows "split_on RECORD (payload f) =
    [rule_name f, version_name f, anchor_key (fdAnchors f), structural_key (fdAnchors f)]"
proof -
  have "RECORD \<notin> set (anchor_key (fdAnchors f))"
    using set_join [of "[UNIT]" "anchor_texts (fdAnchors f)"] anchor_texts_free separators_blank(5)
    unfolding anchor_key_def by fastforce
  moreover have "RECORD \<notin> set (structural_key (fdAnchors f))"
    using set_join [of "[UNIT]" "structure_lines (fdAnchors f)"] structure_lines_free [OF assms] separators_blank(5)
    unfolding structural_key_def by fastforce
  ultimately show ?thesis
    unfolding payload_def by (intro split_on_join) (use assms in \<open>auto simp: clean_finding_def\<close>)
qed

lemma sort_eq_mset: "sort xs = sort ys \<longleftrightarrow> mset xs = mset (ys :: jstr list)"
  by (metis mset_sort properties_for_sort sorted_sort)

text \<open>Two findings the code treats as one: order, case and punctuation of the anchors aside.\<close>

definition same_finding :: "'j finding \<Rightarrow> 'j finding \<Rightarrow> bool" where
  "same_finding f g =
     (rule_name f = rule_name g \<and> version_name f = version_name g \<and>
      mset (filter (\<lambda>t. t \<noteq> []) (map (\<lambda>a. normalize_text (anText a)) (fdAnchors f))) =
        mset (filter (\<lambda>t. t \<noteq> []) (map (\<lambda>a. normalize_text (anText a)) (fdAnchors g))) \<and>
      mset (map (\<lambda>a. anFile a @ ''#'' @ normalize_text (anSection a)) (fdAnchors f)) =
        mset (map (\<lambda>a. anFile a @ ''#'' @ normalize_text (anSection a)) (fdAnchors g)))"

lemma same_finding_keys:
  "same_finding f g \<longleftrightarrow> rule_name f = rule_name g \<and> version_name f = version_name g \<and>
     anchor_texts (fdAnchors f) = anchor_texts (fdAnchors g) \<and>
     structure_lines (fdAnchors f) = structure_lines (fdAnchors g)"
  by (simp only: same_finding_def anchor_texts_def structure_lines_def sort_eq_mset)

section \<open>One finding through reconcile\<close>

lemma first_status_head: "s \<noteq> [] \<Longrightarrow> first_status (s # ss) = s"
  by (simp add: first_status_def)

lemma reconcile_one_print: "fdPrint (the_finding (reconcile_one p r js f)) = fdPrint f"
  by (simp add: reconcile_one_def Let_def split: option.split)

lemma reconcile_one_stored:
  assumes "map_of js (fdPrint f) = Some j"
  shows "fdJudgment (the_finding (reconcile_one p r js f)) = Some j \<and>
    (jStatus j \<noteq> [] \<longrightarrow> fdStatus (the_finding (reconcile_one p r js f)) = jStatus j)"
  using assms by (auto simp: reconcile_one_def Let_def or_judgment_def status_of_def first_status_head split: option.split)

lemma previous_lookup:
  "map_of (rev (map (\<lambda>p. (fdPrint p, p)) previous)) k = None \<longleftrightarrow> k \<notin> fdPrint ` set previous"
  "map_of (rev (map (\<lambda>p. (fdPrint p, p)) previous)) k = Some c \<Longrightarrow> c \<in> set previous \<and> fdPrint c = k"
proof -
  show "map_of (rev (map (\<lambda>p. (fdPrint p, p)) previous)) k = None \<longleftrightarrow> k \<notin> fdPrint ` set previous"
    by (force simp: map_of_eq_None_iff)
  show "map_of (rev (map (\<lambda>p. (fdPrint p, p)) previous)) k = Some c \<Longrightarrow> c \<in> set previous \<and> fdPrint c = k"
    by (drule map_of_SomeD) auto
qed

lemma reconcile_one_carried:
  assumes "fdPrint f \<in> fdPrint ` set previous"
  shows "\<exists>c \<in> set previous. fdPrint c = fdPrint f \<and> superseded_part (reconcile_one previous r js f) = [] \<and>
    appeared_part (reconcile_one previous r js f) = [] \<and> \<not> fdIsNew (the_finding (reconcile_one previous r js f)) \<and>
    (map_of js (fdPrint f) = None \<longrightarrow> fdJudgment (the_finding (reconcile_one previous r js f)) = fdJudgment c)"
proof -
  have "map_of (rev (map (\<lambda>p. (fdPrint p, p)) previous)) (fdPrint f) \<noteq> None"
    unfolding previous_lookup(1) using assms by blast
  then obtain c where c: "map_of (rev (map (\<lambda>p. (fdPrint p, p)) previous)) (fdPrint f) = Some c"
    by blast
  then have "reconcile_one previous r js f = Carried (f\<lparr>fdStatus := first_status [status_of (map_of js (fdPrint f)), fdStatus c],
      fdJudgment := or_judgment (map_of js (fdPrint f)) (fdJudgment c), fdIsNew := False\<rparr>)"
    by (simp add: reconcile_one_def Let_def)
  then show ?thesis
    using previous_lookup(2) [OF c] by (intro bexI [of _ c]) (simp_all add: or_judgment_def)
qed

lemma reconcile_one_new:
  assumes "fdPrint f \<notin> fdPrint ` set previous"
  shows "reconcile_one previous r js f =
    (case ancestor_of r f of
       Some a \<Rightarrow> Superseded (f\<lparr>fdStatus := first_status [status_of (map_of js (fdPrint f)),
           status_of (or_judgment (map_of js (fdPrint a)) (fdJudgment a)), fdStatus a],
         fdJudgment := or_judgment (map_of js (fdPrint f)) (or_judgment (map_of js (fdPrint a)) (fdJudgment a)),
         fdSupersedes := Some (fdPrint a), fdIsNew := True\<rparr>)
     | None \<Rightarrow> Appeared (f\<lparr>fdStatus := first_status [status_of (map_of js (fdPrint f))],
         fdJudgment := map_of js (fdPrint f), fdIsNew := True\<rparr>))"
proof -
  have "map_of (rev (map (\<lambda>p. (fdPrint p, p)) previous)) (fdPrint f) = None"
    using assms previous_lookup(1) by blast
  then show ?thesis
    by (simp add: reconcile_one_def Let_def split: option.split)
qed

definition shares_text :: "'j finding \<Rightarrow> 'j finding \<Rightarrow> bool" where
  "shares_text c f = (structure_of c = structure_of f \<and>
     (\<exists>t. t \<in> set (key_texts (fdAnchors c)) \<and> t \<in> set (key_texts (fdAnchors f))))"

lemma ancestor_shares:
  "ancestor_of r f = Some a \<Longrightarrow> a \<in> set r \<and> shares_text a f"
  "ancestor_of r f = None \<longleftrightarrow> (\<forall>c \<in> set r. \<not> shares_text c f)"
proof -
  assume "ancestor_of r f = Some a"
  then obtain i where i: "i < length (filter (\<lambda>c. structure_of c = structure_of f) r)"
      "a = filter (\<lambda>c. structure_of c = structure_of f) r ! i"
      "\<exists>t \<in> set (key_texts (fdAnchors a)). t \<in> set (key_texts (fdAnchors f))"
    unfolding ancestor_of_def find_Some_iff by blast
  then have "a \<in> set (filter (\<lambda>c. structure_of c = structure_of f) r)"
    by (metis nth_mem)
  with i(3) show "a \<in> set r \<and> shares_text a f"
    by (auto simp: shares_text_def)
next
  show "ancestor_of r f = None \<longleftrightarrow> (\<forall>c \<in> set r. \<not> shares_text c f)"
    by (auto simp: ancestor_of_def find_None_iff shares_text_def)
qed

lemma part_counts:
  "length (concat (map appeared_part os)) + length (concat (map superseded_part os)) +
   length (filter (\<lambda>v. case v of Carried f \<Rightarrow> True | _ \<Rightarrow> False) os) = length os"
  by (induction os) (auto split: outcome.splits)

lemma carried_iff:
  "(case reconcile_one previous r js f of Carried f \<Rightarrow> True | _ \<Rightarrow> False) \<longleftrightarrow> fdPrint f \<in> fdPrint ` set previous"
  by (auto simp: reconcile_one_def Let_def previous_lookup(1) dest!: previous_lookup(2) intro: rev_image_eqI
      split: option.splits)

section \<open>Properties\<close>

definition sample_finding :: "jstr \<Rightarrow> jstr \<Rightarrow> unit finding" where
  "sample_finding p t = \<lparr>fdRule = Some ''dup'', fdVersion = ''2'', fdAnchors = [\<lparr>anFile = ''a.md'', anSection = ''Scope'', anText = t\<rparr>],
     fdPrint = p, fdStatus = [], fdJudgment = None, fdSupersedes = None, fdIsNew = False, fdHashes = [(''a.md'', content_hash ''one'')]\<rparr>"

text \<open>
  A fingerprint is of the finding, not of its wording: the payload it digests is the same for two
  findings exactly when rule, version, the non-empty anchor texts and the places agree up to order,
  case and punctuation (rule, version and file names holding no separator), so such findings have one
  fingerprint; and a sign put after a sentence or beside another sign changes no text.
\<close>
theorem fingerprint_of_finding:
  assumes "clean_finding f" and "clean_finding g"
  shows "(payload f = payload g \<longleftrightarrow> same_finding f g) \<and> (same_finding f g \<longrightarrow> fingerprint f = fingerprint g) \<and>
    (\<not> is_word_char c \<longrightarrow> normalize_text (u @ [c]) = normalize_text u \<and>
      (\<not> is_word_char d \<longrightarrow> normalize_text (u @ c # d # v) = normalize_text (u @ d # v)))"
proof -
  have 1: "same_finding f g" if p: "payload f = payload g"
  proof -
    have e: "rule_name f = rule_name g" "version_name f = version_name g"
      "anchor_key (fdAnchors f) = anchor_key (fdAnchors g)" "structural_key (fdAnchors f) = structural_key (fdAnchors g)"
      using payload_parts [OF assms(1)] payload_parts [OF assms(2)] p by simp_all
    have "anchor_texts (fdAnchors f) = anchor_texts (fdAnchors g)"
      by (rule join_free_inj [of _ _ UNIT]) (use e(3) anchor_texts_free in \<open>auto simp: anchor_key_def\<close>)
    moreover have "structure_lines (fdAnchors f) = structure_lines (fdAnchors g)"
      by (rule join_free_inj [of _ _ UNIT])
        (use e(4) structure_lines_free [OF assms(1)] structure_lines_free [OF assms(2)] in \<open>auto simp: structural_key_def\<close>)
    ultimately show ?thesis
      using e by (simp add: same_finding_keys)
  qed
  have 2: "payload f = payload g" if "same_finding f g"
    using that by (simp add: same_finding_keys payload_def anchor_key_def structural_key_def)
  show ?thesis
    using 1 2 normalize_sign_end normalize_sign_beside by (auto simp: fingerprint_def)
qed

text \<open>
  C28: Reconciling a run loses no judgment and puts every finding in one case: the findings come back in
  order with their fingerprints; a stored judgment is kept with its status; a finding of the previous
  run is not new and keeps its judgment; a new one that shares a text and its place with one that has
  just gone takes over that one's judgment and names it, and is new with nothing but its stored
  judgment otherwise; appeared, superseding and known findings add up, and a gone finding is reported
  resolved unless one names it.
\<close>
theorem reconcile_keeps_judgments:
  assumes "i < length now"
  shows "let r = reconcile previous now js; f = now ! i; g = rcFindings r ! i; gone = resolved_now previous now
    in map fdPrint (rcFindings r) = map fdPrint now \<and>
      (\<forall>j. map_of js (fdPrint f) = Some j \<longrightarrow> fdJudgment g = Some j \<and> (jStatus j \<noteq> [] \<longrightarrow> fdStatus g = jStatus j)) \<and>
      (fdPrint f \<in> fdPrint ` set previous \<longrightarrow> \<not> fdIsNew g \<and>
        (map_of js (fdPrint f) = None \<longrightarrow>
          (\<exists>c \<in> set previous. fdPrint c = fdPrint f \<and> fdJudgment g = fdJudgment c))) \<and>
      (fdPrint f \<notin> fdPrint ` set previous \<longrightarrow> fdIsNew g \<and>
        (if \<exists>c \<in> set gone. shares_text c f
         then \<exists>a \<in> set gone. shares_text a f \<and> fdSupersedes g = Some (fdPrint a) \<and>
           (map_of js (fdPrint f) = None \<longrightarrow> fdJudgment g = or_judgment (map_of js (fdPrint a)) (fdJudgment a))
         else fdJudgment g = map_of js (fdPrint f))) \<and>
      length (rcAppeared r) + length (rcSuperseded r) +
        length (filter (\<lambda>f. fdPrint f \<in> fdPrint ` set previous) now) = length now \<and>
      (\<forall>c \<in> set gone. c \<in> set (rcResolved r) \<or> (\<exists>s \<in> set (rcSuperseded r). fdSupersedes s = Some (fdPrint c)))"
proof -
  let ?gone = "resolved_now previous now" and ?f = "now ! i"
  let ?one = "reconcile_one previous (resolved_now previous now) js"
  have g: "rcFindings (reconcile previous now js) ! i = the_finding (?one ?f)"
    using assms by (simp add: reconcile_def Let_def)
  have prints: "map fdPrint (rcFindings (reconcile previous now js)) = map fdPrint now"
    by (simp add: reconcile_def Let_def reconcile_one_print)
  have new: "fdIsNew (the_finding (?one ?f)) \<and>
      (if \<exists>c \<in> set ?gone. shares_text c ?f
       then \<exists>a \<in> set ?gone. shares_text a ?f \<and> fdSupersedes (the_finding (?one ?f)) = Some (fdPrint a) \<and>
         (map_of js (fdPrint ?f) = None \<longrightarrow>
           fdJudgment (the_finding (?one ?f)) = or_judgment (map_of js (fdPrint a)) (fdJudgment a))
       else fdJudgment (the_finding (?one ?f)) = map_of js (fdPrint ?f))"
    if n: "fdPrint ?f \<notin> fdPrint ` set previous"
  proof (cases "ancestor_of ?gone ?f")
    case None
    then have "\<not> (\<exists>c \<in> set ?gone. shares_text c ?f)"
      using ancestor_shares(2) by blast
    then show ?thesis
      using None by (simp add: reconcile_one_new [OF n])
  next
    case (Some a)
    then have a: "a \<in> set ?gone" "shares_text a ?f"
      using ancestor_shares(1) by blast+
    then have "\<exists>c \<in> set ?gone. shares_text c ?f"
      by blast
    then show ?thesis
      using Some a by (auto simp: reconcile_one_new [OF n] or_judgment_def)
  qed
  have carried: "map_of js (fdPrint ?f) = None \<longrightarrow>
      (\<exists>c \<in> set previous. fdPrint c = fdPrint ?f \<and> fdJudgment (the_finding (?one ?f)) = fdJudgment c)"
    "\<not> fdIsNew (the_finding (?one ?f))" if "fdPrint ?f \<in> fdPrint ` set previous"
    using reconcile_one_carried [OF that] by blast+
  have counts: "length (rcAppeared (reconcile previous now js)) + length (rcSuperseded (reconcile previous now js)) +
      length (filter (\<lambda>f. fdPrint f \<in> fdPrint ` set previous) now) = length now"
    using part_counts [of "map ?one now"]
    by (simp add: reconcile_def Let_def filter_map o_def carried_iff)
  have gone: "c \<in> set (rcResolved (reconcile previous now js)) \<or>
      (\<exists>s \<in> set (rcSuperseded (reconcile previous now js)). fdSupersedes s = Some (fdPrint c))"
    if "c \<in> set ?gone" for c
  proof (cases "Some (fdPrint c) \<in> fdSupersedes ` set (rcSuperseded (reconcile previous now js))")
    case False
    with that show ?thesis by (simp add: reconcile_def Let_def)
  qed (auto dest: sym)
  show ?thesis
    unfolding Let_def g using prints reconcile_one_stored [of js ?f] carried new counts gone by blast
qed

theorem reconcile_keeps_judgments_witness:
  "fdSupersedes (rcFindings (reconcile [sample_finding ''p1'' ''must allow'', sample_finding ''p2'' ''other'']
     [sample_finding ''p2'' ''other'', sample_finding ''p3'' ''must allow''] [(''p1'', \<lparr>jStatus = ''dismissed''\<rparr>)]) ! 1) = Some ''p1''"
proof -
  let ?p = "[sample_finding ''p1'' ''must allow'', sample_finding ''p2'' ''other'']"
  let ?n = "[sample_finding ''p2'' ''other'', sample_finding ''p3'' ''must allow'']"
  have g: "resolved_now ?p ?n = [sample_finding ''p1'' ''must allow'']"
    by (simp add: resolved_now_def sample_finding_def)
  have t: "key_texts (fdAnchors (sample_finding q ''must allow'')) = [''must allow'']" for q
  proof -
    have "key_texts [\<lparr>anFile = ''a.md'', anSection = ''Scope'', anText = ''must allow''\<rparr>] = [''must allow'']"
      by code_simp
    then show ?thesis by (simp add: sample_finding_def)
  qed
  have "shares_text (sample_finding ''p1'' ''must allow'') (sample_finding ''p3'' ''must allow'')"
    unfolding shares_text_def t by (simp add: structure_of_def sample_finding_def)
  then show ?thesis
    using reconcile_keeps_judgments [of 1 ?n ?p "[(''p1'', \<lparr>jStatus = ''dismissed''\<rparr>)]"]
    by (simp add: Let_def g) (simp add: sample_finding_def)
qed

text \<open>
  A finding goes stale with the file it was read from: recorded against a text, it is stale
  against any other whose length differs, or that differs in one character, and it is not stale on
  account of a file with the recorded content or one that is not known now; the content hash is FNV-1a
  with the length, and merges no two texts of different length.
\<close>
theorem edit_makes_stale:
  "(content_hash s = content_hash t \<longleftrightarrow> length s = length t \<and> fnv s = fnv t) \<and>
   (map_of (fdHashes f) k = Some (content_hash s) \<and> map_of now k = Some (content_hash t) \<and>
     (length s \<noteq> length t \<or> (\<exists>u c d v. s = u @ c # v \<and> t = u @ d # v \<and> c \<noteq> d)) \<longrightarrow> is_stale f (Some now)) \<and>
   ((\<forall>k h. map_of (fdHashes f) k = Some h \<longrightarrow> map_of now k = None \<or> map_of now k = Some h) \<longrightarrow> \<not> is_stale f (Some now))"
proof (intro conjI impI)
  have step: "content_step = fnv_step"
    by (rule ext)+ (simp add: content_step_def fnv_step_prime mult.commute)
  have hash: "content_hash s = content_hash t \<longleftrightarrow> length s = length t \<and> fnv s = fnv t" for s t
  proof
    assume "content_hash s = content_hash t"
    then have e: "to_radix 16 (unat (fnv s)) @ CHR ''-'' # to_radix 16 (length s) =
        to_radix 16 (unat (fnv t)) @ CHR ''-'' # to_radix 16 (length t)"
      by (simp add: content_hash_def step fnv_def)
    show "length s = length t \<and> fnv s = fnv t"
      using append_sep_inj [OF dash_free dash_free e] to_radix_inj [of 16] by (auto simp: word_unat_eq_iff)
  qed (simp add: content_hash_def step fnv_def)
  then show "content_hash s = content_hash t \<longleftrightarrow> length s = length t \<and> fnv s = fnv t" .
  assume a: "map_of (fdHashes f) k = Some (content_hash s) \<and> map_of now k = Some (content_hash t) \<and>
     (length s \<noteq> length t \<or> (\<exists>u c d v. s = u @ c # v \<and> t = u @ d # v \<and> c \<noteq> d))"
  then have "content_hash s \<noteq> content_hash t"
    unfolding hash using fnv_one_unit by blast
  moreover have "k \<in> fst ` set (fdHashes f)"
    using a map_of_SomeD by force
  ultimately show "is_stale f (Some now)"
    using a by (auto simp: is_stale_def)
next
  assume a: "\<forall>k h. map_of (fdHashes f) k = Some h \<longrightarrow> map_of now k = None \<or> map_of now k = Some h"
  have "map_of now k = None \<or> map_of now k = map_of (fdHashes f) k" if "k \<in> fst ` set (fdHashes f)" for k
    using a that by (metis map_of_eq_None_iff not_None_eq)
  then show "\<not> is_stale f (Some now)"
    by (auto simp: is_stale_def)
qed

end
