(* ===== verification/Changes_Store.thy ===== *)
theory Changes_Store
  imports Change_Log History_Store
begin

text \<open>
  browser/changes-store.js: the proposals awaiting review of one document, the index of
  documents that have any, and the resolution of one file or of a linked group. The file
  service is a record of functions over an abstract state, any of which may throw (None);
  what a file holds is decoded (a document, a sidecar, an index, or something else), so the
  JSON of a file that does not parse is a read that throws. A URI is its text. The clock,
  the fresh id, \<open>localeCompare\<close>, the two frontmatter functions and the history store are
  arguments, as they are in the code. A computation returns the state it leaves and, unless
  it throws, a result. The theorems are the round trip of save and load with the index, what
  resolving one file writes, and that a group is refused whole.
\<close>

section \<open>Files and their service\<close>



record change =
  cpId :: jstr
  cpTitle :: jstr
  cpOrigin :: jstr
  cpInstruction :: jstr
  cpCommentId :: "jstr option"
  cpAuthor :: jstr
  cpCreatedAt :: jstr
  cpBase :: jstr
  cpProposed :: jstr
  cpDecisions :: decisions
  cpStatus :: jstr
  cpGroup :: "jstr option"
  cpMembers :: "jstr list option"

record index_row =
  ixPending :: nat
  ixProposals :: nat
  ixUpdatedAt :: jstr

datatype content = Document jstr | Sidecar "change list" | Index int "(jstr \<times> index_row) list" | Other

text \<open>What \<open>resolve\<close> answers of a path: whether it is a directory, and its children by name.\<close>

record stat =
  stDir :: bool
  stChildren :: "(jstr \<times> bool) list"

record 's service =
  svExists :: "'s \<Rightarrow> jstr \<Rightarrow> bool option"
  svRead :: "'s \<Rightarrow> jstr \<Rightarrow> content option"
  svWrite :: "'s \<Rightarrow> jstr \<Rightarrow> content \<Rightarrow> 's option"
  svCreate :: "'s \<Rightarrow> jstr \<Rightarrow> content \<Rightarrow> 's option"
  svMove :: "'s \<Rightarrow> jstr \<Rightarrow> jstr \<Rightarrow> 's option"
  svStat :: "'s \<Rightarrow> jstr \<Rightarrow> stat option"

text \<open>A computation that may throw, and its continuation.\<close>

type_synonym ('s, 'a) run = "'s \<times> 'a option"

definition and_then :: "('s, 'a) run \<Rightarrow> ('a \<Rightarrow> 's \<Rightarrow> ('s, 'b) run) \<Rightarrow> ('s, 'b) run" where
  "and_then r f = (case snd r of None \<Rightarrow> (fst r, None) | Some a \<Rightarrow> f a (fst r))"

definition read_json :: "'s service \<Rightarrow> 's \<Rightarrow> jstr \<Rightarrow> content option \<Rightarrow> content option" where
  "read_json sv s p fallback =
     (if svExists sv s p = Some True then (case svRead sv s p of Some c \<Rightarrow> Some c | None \<Rightarrow> fallback)
      else fallback)"

definition write_json :: "'s service \<Rightarrow> jstr \<Rightarrow> content \<Rightarrow> 's \<Rightarrow> ('s, unit) run" where
  "write_json sv p c s =
     (case svWrite sv s p c of
        Some s' \<Rightarrow> (s', Some ())
      | None \<Rightarrow> (case svCreate sv s p c of Some s' \<Rightarrow> (s', Some ()) | None \<Rightarrow> (s, None)))"

section \<open>Paths\<close>

definition base_name :: "jstr \<Rightarrow> jstr" where
  "base_name t = last (split_on (CHR ''/'') t)"

definition uri_of :: "jstr \<Rightarrow> uri" where
  "uri_of t = \<lparr>uText = t, uBase = base_name t\<rparr>"

definition parent_of :: "jstr \<Rightarrow> jstr" where
  "parent_of t = join [CHR ''/''] (butlast (split_on (CHR ''/'') t))"

definition root_of :: "jstr list \<Rightarrow> jstr \<Rightarrow> jstr" where
  "root_of roots doc = uText (root_for (map uri_of roots) (uri_of doc) (uri_of (parent_of doc)))"

definition rel_path :: "jstr \<Rightarrow> jstr \<Rightarrow> jstr" where
  "rel_path root doc = relative_path (uri_of root) (uri_of doc)"

definition sidecar_path :: "jstr \<Rightarrow> jstr \<Rightarrow> jstr" where
  "sidecar_path root doc = root @ ''/'' @ CHANGES_DIR @ ''/'' @ rel_path root doc @ ''.json''"

definition index_path :: "jstr \<Rightarrow> jstr" where
  "index_path root = root @ ''/'' @ CHANGES_DIR @ ''/index.json''"

section \<open>Proposals and the index\<close>

definition is_unresolved :: "change \<Rightarrow> bool" where
  "is_unresolved p = (cpStatus p \<noteq> ''resolved'')"

definition load_changes_of :: "'s service \<Rightarrow> jstr list \<Rightarrow> jstr \<Rightarrow> 's \<Rightarrow> change list" where
  "load_changes_of sv roots doc s =
     (case read_json sv s (sidecar_path (root_of roots doc) doc) None of
        Some (Sidecar ps) \<Rightarrow> filter is_unresolved ps | _ \<Rightarrow> [])"

definition changes_pending :: "change list \<Rightarrow> nat" where
  "changes_pending ps =
     foldl (\<lambda>n p. n + count_pending (diff_hunks (cpBase p) (cpProposed p)) (Some (cpDecisions p))) 0 ps"

definition index_rows :: "content option \<Rightarrow> int \<times> (jstr \<times> index_row) list" where
  "index_rows c = (case c of Some (Index v rows) \<Rightarrow> (v, rows) | _ \<Rightarrow> (1, []))"

definition update_index :: "'s service \<Rightarrow> jstr \<Rightarrow> jstr \<Rightarrow> jstr \<Rightarrow> change list \<Rightarrow> 's \<Rightarrow> ('s, unit) run" where
  "update_index sv now root doc ps s =
     (let (v, rows) = index_rows (read_json sv s (index_path root) (Some (Index 1 [])));
          k = rel_path root doc; n = changes_pending ps;
          rows' = (if n > 0
            then AList.update k \<lparr>ixPending = n, ixProposals = length ps, ixUpdatedAt = now\<rparr> rows
            else AList.delete k rows)
      in write_json sv (index_path root) (Index v rows') s)"

definition save_changes :: "'s service \<Rightarrow> jstr list \<Rightarrow> jstr \<Rightarrow> jstr \<Rightarrow> change list \<Rightarrow> 's \<Rightarrow> ('s, unit) run" where
  "save_changes sv roots now doc ps s =
     (let root = root_of roots doc; unresolved = filter is_unresolved ps
      in and_then (write_json sv (sidecar_path root doc) (Sidecar unresolved) s)
           (\<lambda>_. update_index sv now root doc unresolved))"

text \<open>An argument that is absent or falsy takes the default.\<close>

record change_args =
  arTitle :: jstr
  arOrigin :: jstr
  arInstruction :: jstr
  arCommentId :: jstr
  arBase :: jstr
  arProposed :: jstr
  arAuthor :: jstr
  arGroup :: "jstr option"
  arMembers :: "jstr list option"

definition new_change :: "jstr \<Rightarrow> jstr \<Rightarrow> change_args \<Rightarrow> change" where
  "new_change i now q =
     \<lparr>cpId = i, cpTitle = or_else (arTitle q) ''Proposed change'', cpOrigin = or_else (arOrigin q) ''manual'',
      cpInstruction = arInstruction q, cpCommentId = some_text (arCommentId q),
      cpAuthor = or_else (arAuthor q) ''assistant'', cpCreatedAt = now, cpBase = arBase q,
      cpProposed = arProposed q, cpDecisions = [], cpStatus = ''open'', cpGroup = arGroup q,
      cpMembers = (case arGroup q of Some g \<Rightarrow> (if g = [] then None else arMembers q) | None \<Rightarrow> None)\<rparr>"

section \<open>The queue\<close>

record pending_row =
  pdPath :: jstr
  pdPending :: nat
  pdProposals :: nat
  pdUri :: jstr

definition listed_rows :: "jstr \<Rightarrow> (jstr \<times> index_row) list \<Rightarrow> pending_row list" where
  "listed_rows root rows =
     map (\<lambda>(k, r). \<lparr>pdPath = k, pdPending = ixPending r, pdProposals = ixProposals r, pdUri = root @ ''/'' @ k\<rparr>)
       (filter (\<lambda>(k, r). ixPending r > 0) rows)"

text \<open>Only a definite \<open>false\<close> of \<open>exists\<close> is evidence that the document is gone.\<close>

definition is_gone :: "'s service \<Rightarrow> 's \<Rightarrow> pending_row \<Rightarrow> bool" where
  "is_gone sv s r = (svExists sv s (pdUri r) = Some False)"

definition pending_files_status ::
  "'s service \<Rightarrow> (jstr \<Rightarrow> jstr \<Rightarrow> int) \<Rightarrow> jstr list \<Rightarrow> jstr \<Rightarrow> bool \<Rightarrow> 's \<Rightarrow> 's \<times> bool \<times> pending_row list" where
  "pending_files_status sv cmp roots doc prune s =
     (let root = root_of roots doc; by_path = js_sort (\<lambda>a b. cmp (pdPath a) (pdPath b))
      in if svExists sv s (index_path root) = Some False then (s, True, [])
         else case read_json sv s (index_path root) None of
             Some (Index v rows) \<Rightarrow>
               if v \<noteq> 1 then (s, False, [])
               else if \<not> prune then (s, True, by_path (listed_rows root rows))
               else
                 let gone = filter (is_gone sv s) (listed_rows root rows);
                     files = filter (\<lambda>r. \<not> is_gone sv s r) (listed_rows root rows);
                     rows' = foldl (\<lambda>m r. AList.delete (pdPath r) m) rows gone;
                     s' = (if gone = [] then s else fst (write_json sv (index_path root) (Index v rows') s))
                 in (s', True, by_path files)
           | _ \<Rightarrow> (s, False, []))"

record group =
  grMembers :: "(jstr \<times> change) list"
  grExpected :: nat
  grPartial :: bool

definition proposals_in_group ::
  "'s service \<Rightarrow> (jstr \<Rightarrow> jstr \<Rightarrow> int) \<Rightarrow> jstr list \<Rightarrow> jstr \<Rightarrow> jstr option \<Rightarrow> 's \<Rightarrow> group" where
  "proposals_in_group sv cmp roots anyUri g s =
     (case g of
        None \<Rightarrow> \<lparr>grMembers = [], grExpected = 0, grPartial = False\<rparr>
      | Some i \<Rightarrow>
          (let files = snd (snd (pending_files_status sv cmp roots anyUri False s));
               members = concat (map (\<lambda>r. map (Pair (pdUri r))
                 (filter (\<lambda>p. cpGroup p = Some i) (load_changes_of sv roots (pdUri r) s))) files);
               expected = foldl (\<lambda>n m. max n (case cpMembers (snd m) of Some xs \<Rightarrow> length xs | None \<Rightarrow> 0)) 0 members
           in \<lparr>grMembers = members, grExpected = expected, grPartial = (members \<noteq> [] \<and> expected > length members)\<rparr>))"

section \<open>Resolving\<close>

definition undecided :: "change \<Rightarrow> hunk list" where
  "undecided p = filter (\<lambda>h. \<not> decided (cpDecisions p) (hid h)) (diff_hunks (cpBase p) (cpProposed p))"

definition all_decided :: "jstr \<Rightarrow> change \<Rightarrow> decisions" where
  "all_decided verdict p = foldl (\<lambda>d h. AList.update (hid h) verdict d) (cpDecisions p) (undecided p)"

definition resolved_body :: "jstr \<Rightarrow> change \<Rightarrow> jstr" where
  "resolved_body verdict p =
     (let hunks = diff_hunks (cpBase p) (cpProposed p)
      in apply_hunks (cpBase p) hunks
           (map hid (filter (\<lambda>h. map_of (all_decided verdict p) (hid h) = Some ''accepted'') hunks)))"

definition resolve_change :: "jstr \<Rightarrow> change \<Rightarrow> change" where
  "resolve_change verdict p = p\<lparr>cpDecisions := all_decided verdict p, cpStatus := ''resolved''\<rparr>"

type_synonym 's history = "(jstr \<Rightarrow> event \<Rightarrow> 's \<Rightarrow> ('s, unit) run) option"

definition verdict_event :: "jstr \<Rightarrow> jstr \<Rightarrow> jstr \<Rightarrow> jstr \<Rightarrow> event" where
  "verdict_event verdict what detail body =
     \<lparr>vKind = (if verdict = ''accepted'' then ''accept'' else ''reject''),
      vTitle = (if verdict = ''accepted'' then ''Accepted'' else ''Rejected'') @ what, vDetail = detail,
      vBody = Some body, vAuthor = [], vAuthorKey = [], vProposal = None, vComment = None, vHunk = None\<rparr>"

definition note_event :: "'s history \<Rightarrow> jstr \<Rightarrow> event \<Rightarrow> 's \<Rightarrow> ('s, unit) run" where
  "note_event h doc v s = (case h of None \<Rightarrow> (s, Some ()) | Some f \<Rightarrow> f doc v s)"

definition write_document :: "'s service \<Rightarrow> jstr \<Rightarrow> jstr \<Rightarrow> 's \<Rightarrow> ('s, unit) run" where
  "write_document sv doc t s = (case svWrite sv s doc (Document t) of Some s' \<Rightarrow> (s', Some ()) | None \<Rightarrow> (s, None))"

definition read_document :: "'s service \<Rightarrow> 's \<Rightarrow> jstr \<Rightarrow> jstr option" where
  "read_document sv s doc = (case svRead sv s doc of Some (Document t) \<Rightarrow> Some t | _ \<Rightarrow> None)"

record file_result =
  frChanged :: bool
  frHunks :: nat
  frMissing :: bool
  frBody :: "jstr option"

definition resolve_file ::
  "'s service \<Rightarrow> jstr list \<Rightarrow> jstr \<Rightarrow> 's history \<Rightarrow> (jstr \<Rightarrow> jstr \<times> jstr) \<Rightarrow> (jstr \<Rightarrow> jstr \<Rightarrow> jstr) \<Rightarrow>
   jstr \<Rightarrow> jstr \<Rightarrow> 's \<Rightarrow> ('s, file_result) run" where
  "resolve_file sv roots now h split_front join_front doc verdict s =
     (let ps = load_changes_of sv roots doc s
      in if ps = [] then (s, Some \<lparr>frChanged = False, frHunks = 0, frMissing = False, frBody = None\<rparr>)
         else case svExists sv s doc of
             None \<Rightarrow> (s, None)
           | Some False \<Rightarrow>
               and_then (save_changes sv roots now doc [] s)
                 (\<lambda>_ s. (s, Some \<lparr>frChanged = False, frHunks = 0, frMissing = True, frBody = None\<rparr>))
           | Some True \<Rightarrow>
               (case read_document sv s doc of
                  None \<Rightarrow> (s, None)
                | Some t \<Rightarrow>
                    let front = fst (split_front t); body = resolved_body verdict (last ps);
                        n = foldl (\<lambda>n p. n + length (undecided p)) 0 ps;
                        v = verdict_event verdict ('' '' @ to_dec n @ '' pending change'' @ (if n = 1 then [] else ''s''))
                          ''Resolved in bulk across files'' body
                    in and_then (write_document sv doc (join_front front body) s)
                         (\<lambda>_ s. and_then (save_changes sv roots now doc (map (resolve_change verdict) ps) s)
                           (\<lambda>_ s. and_then (note_event h doc v s)
                             (\<lambda>_ s. (s, Some \<lparr>frChanged = True, frHunks = n, frMissing = False, frBody = Some body\<rparr>))))))"

datatype group_result = Refused_unreadable jstr | Refused_changed jstr | Nothing_open | Resolved_group "jstr list"

text \<open>The first member that cannot be read, or whose document is no longer what its proposal was made on.\<close>

fun group_conflict :: "'s service \<Rightarrow> (jstr \<Rightarrow> jstr \<times> jstr) \<Rightarrow> 's \<Rightarrow> (jstr \<times> change) list \<Rightarrow> group_result option" where
  "group_conflict sv split_front s [] = None"
| "group_conflict sv split_front s ((doc, p) # ms) =
     (if svExists sv s doc \<noteq> Some True then Some (Refused_unreadable doc)
      else case read_document sv s doc of
          None \<Rightarrow> Some (Refused_unreadable doc)
        | Some t \<Rightarrow> if snd (split_front t) \<noteq> cpBase p then Some (Refused_changed doc)
                   else group_conflict sv split_front s ms)"

fun update_group_first :: "jstr \<Rightarrow> jstr \<Rightarrow> change list \<Rightarrow> change list" where
  "update_group_first verdict g [] = []"
| "update_group_first verdict g (p # ps) =
     (if cpGroup p = Some g then resolve_change verdict p # ps else p # update_group_first verdict g ps)"

definition resolve_member ::
  "'s service \<Rightarrow> jstr list \<Rightarrow> jstr \<Rightarrow> 's history \<Rightarrow> (jstr \<Rightarrow> jstr \<times> jstr) \<Rightarrow> (jstr \<Rightarrow> jstr \<Rightarrow> jstr) \<Rightarrow>
   jstr \<Rightarrow> jstr \<Rightarrow> jstr \<Rightarrow> 's \<Rightarrow> ('s, jstr list) run" where
  "resolve_member sv roots now h split_front join_front g verdict doc s =
     (let ps = load_changes_of sv roots doc s
      in case List.find (\<lambda>p. cpGroup p = Some g) ps of
           None \<Rightarrow> (s, Some [])
         | Some p \<Rightarrow>
             (case read_document sv s doc of
                None \<Rightarrow> (s, None)
              | Some t \<Rightarrow>
                  let body = resolved_body verdict p;
                      v = verdict_event verdict '' a linked change''
                        ''Resolved together with its linked proposal in another document'' body
                  in and_then (write_document sv doc (join_front (fst (split_front t)) body) s)
                       (\<lambda>_ s. and_then (save_changes sv roots now doc (update_group_first verdict g ps) s)
                         (\<lambda>_ s. and_then (note_event h doc v s) (\<lambda>_ s. (s, Some [doc]))))))"

fun resolve_members ::
  "(jstr \<Rightarrow> 's \<Rightarrow> ('s, jstr list) run) \<Rightarrow> jstr list \<Rightarrow> 's \<Rightarrow> ('s, jstr list) run" where
  "resolve_members one [] s = (s, Some [])"
| "resolve_members one (doc # docs) s =
     and_then (one doc s) (\<lambda>r s. and_then (resolve_members one docs s) (\<lambda>rs s. (s, Some (r @ rs))))"

definition resolve_group ::
  "'s service \<Rightarrow> (jstr \<Rightarrow> jstr \<Rightarrow> int) \<Rightarrow> jstr list \<Rightarrow> jstr \<Rightarrow> 's history \<Rightarrow> (jstr \<Rightarrow> jstr \<times> jstr) \<Rightarrow> (jstr \<Rightarrow> jstr \<Rightarrow> jstr) \<Rightarrow>
   jstr \<Rightarrow> jstr \<Rightarrow> jstr \<Rightarrow> 's \<Rightarrow> ('s, group_result) run" where
  "resolve_group sv cmp roots now h split_front join_front anyUri g verdict s =
     (let members = grMembers (proposals_in_group sv cmp roots anyUri (Some g) s)
      in if members = [] then (s, Some Nothing_open)
         else case group_conflict sv split_front s members of
             Some r \<Rightarrow> (s, Some r)
           | None \<Rightarrow>
               and_then (resolve_members (resolve_member sv roots now h split_front join_front g verdict) (map fst members) s)
                 (\<lambda>docs s. (s, Some (Resolved_group docs))))"

section \<open>What a verdict decides\<close>

lemma map_of_decide_all:
  "map_of (foldl (\<lambda>d h. AList.update (hid h) v d) d0 hs) i = (if i \<in> hid ` set hs then Some v else map_of d0 i)"
  by (induction hs arbitrary: d0) (auto simp: update_conv')

lemma map_of_all_decided:
  "map_of (all_decided v p) i =
     (if i \<in> hid ` set (undecided p) then Some v else map_of (cpDecisions p) i)"
  by (simp add: all_decided_def map_of_decide_all)

text \<open>The hunks of a proposal that go in: those accepted before, and on an acceptance the undecided ones.\<close>

definition goes_in :: "jstr \<Rightarrow> change \<Rightarrow> hunk \<Rightarrow> bool" where
  "goes_in verdict p h =
     (if decided (cpDecisions p) (hid h) then map_of (cpDecisions p) (hid h) = Some ''accepted''
      else verdict = ''accepted'')"

lemma verdict_of_hunk:
  assumes "h \<in> set (diff_hunks (cpBase p) (cpProposed p))"
  shows "map_of (all_decided v p) (hid h) = Some ''accepted'' \<longleftrightarrow> goes_in v p h"
proof (cases "decided (cpDecisions p) (hid h)")
  case True
  then have "hid h \<notin> hid ` set (undecided p)"
    by (auto simp: undecided_def)
  with True show ?thesis
    by (simp add: map_of_all_decided goes_in_def)
next
  case False
  with assms have "h \<in> set (undecided p)"
    by (simp add: undecided_def)
  with False show ?thesis
    by (simp add: map_of_all_decided goes_in_def)
qed

lemma resolved_body_goes_in:
  "resolved_body v p =
     apply_hunks (cpBase p) (diff_hunks (cpBase p) (cpProposed p))
       (map hid (filter (goes_in v p) (diff_hunks (cpBase p) (cpProposed p))))"
proof -
  have "filter (\<lambda>h. map_of (all_decided v p) (hid h) = Some ''accepted'') (diff_hunks (cpBase p) (cpProposed p))
      = filter (goes_in v p) (diff_hunks (cpBase p) (cpProposed p))"
    by (rule filter_cong) (simp_all add: verdict_of_hunk)
  then show ?thesis
    by (simp only: resolved_body_def Let_def)
qed

lemma resolved_body_in_full:
  assumes "\<forall>h\<in>set (diff_hunks (cpBase p) (cpProposed p)). goes_in v p h"
  shows "resolved_body v p = unify_crlf (cpProposed p)"
  unfolding resolved_body_goes_in by (rule apply_all_accepted) (use assms in auto)

lemma resolved_body_not_at_all:
  assumes "\<forall>h\<in>set (diff_hunks (cpBase p) (cpProposed p)). \<not> goes_in v p h"
  shows "resolved_body v p = unify_crlf (cpBase p)"
  unfolding resolved_body_goes_in by (rule apply_none_accepted) (use assms in auto)

lemma resolved_body_fresh:
  assumes "cpDecisions p = []"
  shows "resolved_body v p = (if v = ''accepted'' then unify_crlf (cpProposed p) else unify_crlf (cpBase p))"
proof -
  have "goes_in v p h \<longleftrightarrow> v = ''accepted''" for h
    by (simp add: goes_in_def decided_def assms)
  then show ?thesis
    using resolved_body_in_full [of p v] resolved_body_not_at_all [of p v] by auto
qed

text \<open>A history store that records, and leaves the named files alone.\<close>

definition quiet_history :: "('s \<Rightarrow> jstr \<Rightarrow> content option) \<Rightarrow> 's history \<Rightarrow> jstr set \<Rightarrow> bool" where
  "quiet_history view h P =
     (case h of None \<Rightarrow> True
      | Some f \<Rightarrow> \<forall>doc v s. \<exists>s'. f doc v s = (s', Some ()) \<and> (\<forall>p\<in>P. view s' p = view s p))"

lemma quiet_note:
  assumes "quiet_history view h P"
  shows "\<exists>s'. note_event h doc v s = (s', Some ()) \<and> (\<forall>p\<in>P. view s' p = view s p)"
  using assms by (cases h) (simp_all add: quiet_history_def note_event_def)

lemma all_resolved [simp]: "filter is_unresolved (map (resolve_change v) ps) = []"
  by (induction ps) (simp_all add: is_unresolved_def resolve_change_def)

lemma changes_pending_none [simp]: "changes_pending [] = 0"
  by (simp add: changes_pending_def)

text \<open>One member settled between two states: its document composed, its proposal gone from its sidecar.\<close>

definition settled ::
  "('s \<Rightarrow> jstr \<Rightarrow> content option) \<Rightarrow> 's service \<Rightarrow> jstr list \<Rightarrow> (jstr \<Rightarrow> jstr \<times> jstr) \<Rightarrow> (jstr \<Rightarrow> jstr \<Rightarrow> jstr) \<Rightarrow>
   jstr \<Rightarrow> jstr \<Rightarrow> 's \<Rightarrow> 's \<Rightarrow> jstr \<Rightarrow> bool" where
  "settled view sv roots split_front join_front g verdict s s' doc =
     (case (List.find (\<lambda>p. cpGroup p = Some g) (load_changes_of sv roots doc s), view s doc) of
        (Some p, Some (Document t)) \<Rightarrow>
          view s' doc = Some (Document (join_front (fst (split_front t)) (resolved_body verdict p))) \<and>
          load_changes_of sv roots doc s' =
            filter is_unresolved (update_group_first verdict g (load_changes_of sv roots doc s))
      | _ \<Rightarrow> False)"

section \<open>A file service that keeps what it is given\<close>

text \<open>
  What the theorems assume of the file service: it reads what was written, a write changes
  one file, and an ordinary disk takes every write.
\<close>

locale sound_files =
  fixes sv :: "'s service" and view :: "'s \<Rightarrow> jstr \<Rightarrow> content option"
  assumes read: "svRead sv s p = view s p"
    and exists_file: "view s p \<noteq> None \<Longrightarrow> svExists sv s p = Some True"
    and written: "svWrite sv s p c = Some s' \<Longrightarrow> view s' = (view s)(p \<mapsto> c)"
    and created: "svCreate sv s p c = Some s' \<Longrightarrow> view s' = (view s)(p \<mapsto> c)"
    and write_over: "view s p \<noteq> None \<Longrightarrow> svWrite sv s p c \<noteq> None"
    and create_new: "svWrite sv s p c = None \<Longrightarrow> svCreate sv s p c \<noteq> None"
begin

lemma read_json_file: "view s p = Some c \<Longrightarrow> read_json sv s p d = Some c"
  by (simp add: read_json_def read exists_file)

lemma read_json_none: "view s p = None \<Longrightarrow> read_json sv s p d = d"
  by (simp add: read_json_def read)

lemma read_json_view: "read_json sv s p None = view s p"
  by (cases "view s p") (simp_all add: read_json_file read_json_none)

lemma write_json_ok: "\<exists>s'. write_json sv p c s = (s', Some ()) \<and> view s' = (view s)(p \<mapsto> c)"
proof (cases "svWrite sv s p c")
  case None
  then show ?thesis
    using create_new [OF None] created [of s p c] by (auto simp: write_json_def)
next
  case (Some s')
  then show ?thesis
    using written [OF Some] by (simp add: write_json_def)
qed

lemma write_document_ok:
  "view s p \<noteq> None \<Longrightarrow> \<exists>s'. write_document sv p t s = (s', Some ()) \<and> view s' = (view s)(p \<mapsto> Document t)"
  using write_over [of s p "Document t"] written [of s p "Document t"] by (auto simp: write_document_def)

lemma read_document_view: "read_document sv s p = Some t \<longleftrightarrow> view s p = Some (Document t)"
  by (auto simp: read_document_def read split: option.splits content.splits)

lemma load_view:
  "load_changes_of sv roots doc s =
     (case view s (sidecar_path (root_of roots doc) doc) of Some (Sidecar ps) \<Rightarrow> filter is_unresolved ps | _ \<Rightarrow> [])"
  by (simp add: load_changes_of_def read_json_view)

lemma update_index_ok:
  assumes ix: "k = index_path root"
  shows "\<exists>s'. update_index sv now root doc ps s = (s', Some ()) \<and>
     view s' = (view s)(k \<mapsto> Index (fst (index_rows (view s k)))
       (if changes_pending ps > 0
        then AList.update (rel_path root doc)
               \<lparr>ixPending = changes_pending ps, ixProposals = length ps, ixUpdatedAt = now\<rparr>
               (snd (index_rows (view s k)))
        else AList.delete (rel_path root doc) (snd (index_rows (view s k)))))"
proof -
  have rd: "index_rows (read_json sv s k (Some (Index 1 []))) = index_rows (view s k)"
    by (cases "view s k") (simp_all add: read_json_file read_json_none index_rows_def)
  show ?thesis
    using write_json_ok [of k _ s] by (simp only: update_index_def Let_def ix [symmetric] rd split_beta)
qed

lemma save_changes_ok:
  assumes "side = sidecar_path (root_of roots doc) doc" "k = index_path (root_of roots doc)" "side \<noteq> k"
    "unres = filter is_unresolved ps"
  shows "\<exists>s'. save_changes sv roots now doc ps s = (s', Some ()) \<and>
     view s' = (view s)(side \<mapsto> Sidecar unres, k \<mapsto> Index (fst (index_rows (view s k)))
       (if changes_pending unres > 0
        then AList.update (rel_path (root_of roots doc) doc)
               \<lparr>ixPending = changes_pending unres, ixProposals = length unres, ixUpdatedAt = now\<rparr>
               (snd (index_rows (view s k)))
        else AList.delete (rel_path (root_of roots doc) doc) (snd (index_rows (view s k)))))"
proof -
  obtain s1 where s1: "write_json sv side (Sidecar unres) s = (s1, Some ())"
    "view s1 = (view s)(side \<mapsto> Sidecar unres)"
    using write_json_ok by blast
  obtain s2 where s2: "update_index sv now (root_of roots doc) doc unres s1 = (s2, Some ())"
    "view s2 = (view s1)(k \<mapsto> Index (fst (index_rows (view s1 k)))
       (if changes_pending unres > 0
        then AList.update (rel_path (root_of roots doc) doc)
               \<lparr>ixPending = changes_pending unres, ixProposals = length unres, ixUpdatedAt = now\<rparr>
               (snd (index_rows (view s1 k)))
        else AList.delete (rel_path (root_of roots doc) doc) (snd (index_rows (view s1 k)))))"
    using update_index_ok [OF assms(2), where ps = unres and s = s1 and doc = doc and now = now] by blast
  have "view s1 k = view s k"
    using assms(3) by (simp add: s1(2))
  then have "save_changes sv roots now doc ps s = (s2, Some ())"
    using s1(1) s2(1) by (simp add: save_changes_def and_then_def Let_def assms(1,4))
  then show ?thesis
    using s2(2) s1(2) \<open>view s1 k = view s k\<close> by simp
qed

text \<open>What saving no open proposal leaves: an empty sidecar, and no row for the document.\<close>

lemma save_nothing_open:
  assumes "side = sidecar_path (root_of roots doc) doc" "k = index_path (root_of roots doc)" "side \<noteq> k"
    "filter is_unresolved ps = []"
  shows "\<exists>s'. save_changes sv roots now doc ps s = (s', Some ()) \<and>
     view s' = (view s)(side \<mapsto> Sidecar [], k \<mapsto> Index (fst (index_rows (view s k)))
       (AList.delete (rel_path (root_of roots doc) doc) (snd (index_rows (view s k)))))"
  using save_changes_ok [OF assms(1-3) assms(4) [symmetric], of now s]
  by (simp only: changes_pending_none less_irrefl if_False)

lemma then_note:
  assumes "a = (s1, Some ())" "quiet_history view h P"
  shows "\<exists>s2. and_then a (\<lambda>_ s. and_then (note_event h doc v s) (\<lambda>_ s. (s, Some r))) = (s2, Some r) \<and>
    (\<forall>p\<in>P. view s2 p = view s1 p)"
  using quiet_note [OF assms(2), of doc v s1] by (auto simp: and_then_def assms(1))

lemma resolve_file_ok:
  assumes ps: "load_changes_of sv roots doc s = ps" "ps \<noteq> []"
    and doc: "view s doc = Some (Document t)"
    and paths: "side = sidecar_path (root_of roots doc) doc" "k = index_path (root_of roots doc)" "distinct [doc, side, k]"
    and hist: "quiet_history view h P" "{doc, side, k} \<subseteq> P"
    and r: "r = \<lparr>frChanged = True, frHunks = foldl (\<lambda>n p. n + length (undecided p)) 0 ps, frMissing = False,
                 frBody = Some (resolved_body verdict (last ps))\<rparr>"
  shows "\<exists>s'. resolve_file sv roots now h split_front join_front doc verdict s = (s', Some r) \<and>
    view s' doc = Some (Document (join_front (fst (split_front t)) (resolved_body verdict (last ps)))) \<and>
    view s' side = Some (Sidecar []) \<and>
    map_of (snd (index_rows (view s' k))) =
      (map_of (snd (index_rows (view s k))))(rel_path (root_of roots doc) doc := None) \<and>
    (\<forall>q\<in>P - {doc, side, k}. view s' q = view s q)"
proof -
  define body where "body = resolved_body verdict (last ps)"
  define n where "n = foldl (\<lambda>n p. n + length (undecided p)) 0 ps"
  define v where "v = verdict_event verdict ('' '' @ to_dec n @ '' pending change'' @ (if n = 1 then [] else ''s''))
                          ''Resolved in bulk across files'' body"
  define w where "w = Document (join_front (fst (split_front t)) body)"
  obtain s1 where s1: "write_document sv doc (join_front (fst (split_front t)) body) s = (s1, Some ())"
    "view s1 = (view s)(doc \<mapsto> w)"
    using write_document_ok doc unfolding w_def by blast
  have ne: "side \<noteq> k" "doc \<noteq> side" "doc \<noteq> k"
    using paths(3) by simp_all
  obtain s2 where s2: "save_changes sv roots now doc (map (resolve_change verdict) ps) s1 = (s2, Some ())"
    "view s2 = (view s1)(side \<mapsto> Sidecar [], k \<mapsto> Index (fst (index_rows (view s1 k)))
       (AList.delete (rel_path (root_of roots doc) doc) (snd (index_rows (view s1 k)))))"
    using save_nothing_open [OF paths(1,2) ne(1) all_resolved] by blast
  obtain s3 where s3: "and_then (save_changes sv roots now doc (map (resolve_change verdict) ps) s1)
      (\<lambda>_ s. and_then (note_event h doc v s) (\<lambda>_ s. (s, Some r))) = (s3, Some r)"
    "\<forall>p\<in>P. view s3 p = view s2 p"
    using then_note [OF s2(1) hist(1), of doc v r] by (elim exE conjE) (rule that)
  have ex: "svExists sv s doc = Some True" and rd: "read_document sv s doc = Some t"
    using doc by (simp_all add: exists_file read_document_view)
  have r': "\<lparr>frChanged = True, frHunks = n, frMissing = False, frBody = Some body\<rparr> = r"
    by (simp only: r n_def body_def)
  have "resolve_file sv roots now h split_front join_front doc verdict s =
    and_then (write_document sv doc (join_front (fst (split_front t)) body) s)
      (\<lambda>_ s. and_then (save_changes sv roots now doc (map (resolve_change verdict) ps) s)
         (\<lambda>_ s. and_then (note_event h doc v s) (\<lambda>_ s. (s, Some r))))"
    unfolding resolve_file_def Let_def ps(1) ex rd option.case bool.case if_not_P [OF ps(2)]
      body_def [symmetric] n_def [symmetric] v_def [symmetric] r' by (rule refl)
  also have "\<dots> = (s3, Some r)"
    unfolding s1(1) and_then_def [of "(s1, Some ())"] fst_conv snd_conv option.case by (rule s3(1))
  finally have done1: "resolve_file sv roots now h split_front join_front doc verdict s = (s3, Some r)" .
  have "view s3 q = view s2 q" if "q \<in> P" for q
    using s3(2) that by blast
  then have "view s3 doc = Some w" "view s3 side = Some (Sidecar [])" "view s3 k = view s2 k"
    "\<forall>q\<in>P - {doc, side, k}. view s3 q = view s q"
    using hist(2) ne by (auto simp: s2(2) s1(2))
  then show ?thesis
    using done1 ne by (simp add: index_rows_def delete_conv' w_def body_def s2(2) s1(2))
qed

lemma load_same:
  assumes "view s' (sidecar_path (root_of roots doc) doc) = view s (sidecar_path (root_of roots doc) doc)"
  shows "load_changes_of sv roots doc s' = load_changes_of sv roots doc s"
  by (simp only: load_view assms)

lemma resolve_member_ok:
  assumes find: "List.find (\<lambda>p. cpGroup p = Some g) (load_changes_of sv roots doc s) = Some p"
    and doc: "view s doc = Some (Document t)"
    and paths: "side = sidecar_path (root_of roots doc) doc" "k = index_path (root_of roots doc)"
    and ne: "side \<noteq> k" "doc \<noteq> side" "doc \<noteq> k"
    and hist: "quiet_history view h P" "{doc, side, k} \<subseteq> P"
  shows "\<exists>s'. resolve_member sv roots now h split_front join_front g verdict doc s = (s', Some [doc]) \<and>
    settled view sv roots split_front join_front g verdict s s' doc \<and>
    (\<forall>q\<in>P - {doc, side, k}. view s' q = view s q)"
proof -
  define body where "body = resolved_body verdict p"
  define w where "w = Document (join_front (fst (split_front t)) body)"
  define v where "v = verdict_event verdict '' a linked change''
                        ''Resolved together with its linked proposal in another document'' body"
  define ps where "ps = update_group_first verdict g (load_changes_of sv roots doc s)"
  obtain s1 where s1: "write_document sv doc (join_front (fst (split_front t)) body) s = (s1, Some ())"
    "view s1 = (view s)(doc \<mapsto> w)"
    using write_document_ok doc unfolding w_def by blast
  obtain s2 ix where s2: "save_changes sv roots now doc ps s1 = (s2, Some ())"
    "view s2 = (view s1)(side \<mapsto> Sidecar (filter is_unresolved ps), k \<mapsto> ix)"
    using save_changes_ok [OF paths ne(1) refl] by blast
  obtain s3 where s3: "and_then (save_changes sv roots now doc ps s1)
      (\<lambda>_ s. and_then (note_event h doc v s) (\<lambda>_ s. (s, Some [doc]))) = (s3, Some [doc])"
    "\<forall>p\<in>P. view s3 p = view s2 p"
    using then_note [OF s2(1) hist(1), of doc v "[doc]"] by (elim exE conjE) (rule that)
  have rd: "read_document sv s doc = Some t"
    using doc by (simp add: read_document_view)
  have "resolve_member sv roots now h split_front join_front g verdict doc s =
    and_then (write_document sv doc (join_front (fst (split_front t)) body) s)
      (\<lambda>_ s. and_then (save_changes sv roots now doc ps s)
         (\<lambda>_ s. and_then (note_event h doc v s) (\<lambda>_ s. (s, Some [doc]))))"
    unfolding resolve_member_def Let_def find rd option.case body_def [symmetric] v_def [symmetric] ps_def [symmetric]
    by (rule refl)
  also have "\<dots> = (s3, Some [doc])"
    unfolding s1(1) and_then_def [of "(s1, Some ())"] fst_conv snd_conv option.case by (rule s3(1))
  finally have run: "resolve_member sv roots now h split_front join_front g verdict doc s = (s3, Some [doc])" .
  have at: "view s3 q = ((view s)(doc \<mapsto> w, side \<mapsto> Sidecar (filter is_unresolved ps), k \<mapsto> ix)) q" if "q \<in> P" for q
    using s3(2) that by (simp add: s2(2) s1(2))
  have "view s3 doc = Some w" "view s3 side = Some (Sidecar (filter is_unresolved ps))"
    using at [of doc] at [of side] hist(2) ne by auto
  moreover from this(2) have "load_changes_of sv roots doc s3 = filter is_unresolved ps"
    by (simp add: load_view paths(1) [symmetric])
  ultimately have "settled view sv roots split_front join_front g verdict s s3 doc"
    by (simp add: settled_def find doc w_def body_def ps_def)
  moreover have "\<forall>q\<in>P - {doc, side, k}. view s3 q = view s q"
    using at by auto
  ultimately show ?thesis
    using run by blast
qed

lemma settled_frame:
  assumes "settled view sv roots split_front join_front g verdict s s' doc"
    "side = sidecar_path (root_of roots doc) doc"
    "view t side = view s side" "view t doc = view s doc" "view t' side = view s' side" "view t' doc = view s' doc"
  shows "settled view sv roots split_front join_front g verdict t t' doc"
proof -
  have "load_changes_of sv roots doc t = load_changes_of sv roots doc s"
    "load_changes_of sv roots doc t' = load_changes_of sv roots doc s'"
    using assms(2-6) by (auto intro: load_same)
  with assms(1) show ?thesis
    by (simp only: settled_def assms(4,6))
qed

lemma resolve_members_ok:
  assumes "distinct (docs @ map side docs @ [k])"
    and "\<forall>d\<in>set docs. side d = sidecar_path (root_of roots d) d \<and> k = index_path (root_of roots d)"
    and "\<forall>d\<in>set docs. \<exists>p t. List.find (\<lambda>p. cpGroup p = Some g) (load_changes_of sv roots d s) = Some p \<and>
           view s d = Some (Document t)"
    and hist: "quiet_history view h P" and P: "set docs \<union> side ` set docs \<union> {k} \<subseteq> P"
  shows "\<exists>s'. resolve_members (resolve_member sv roots now h split_front join_front g verdict) docs s = (s', Some docs) \<and>
    (\<forall>d\<in>set docs. settled view sv roots split_front join_front g verdict s s' d) \<and>
    (\<forall>q\<in>P - (set docs \<union> side ` set docs \<union> {k}). view s' q = view s q)"
  using assms(1-3) P
proof (induction docs arbitrary: s)
  case Nil
  then show ?case by simp
next
  case (Cons d ds)
  define one where "one = resolve_member sv roots now h split_front join_front g verdict"
  have d: "side d = sidecar_path (root_of roots d) d" "k = index_path (root_of roots d)"
    and ne: "side d \<noteq> k" "d \<noteq> side d" "d \<noteq> k" and sub: "{d, side d, k} \<subseteq> P"
    using Cons.prems by auto
  obtain p t where pt: "List.find (\<lambda>p. cpGroup p = Some g) (load_changes_of sv roots d s) = Some p"
    "view s d = Some (Document t)"
    using Cons.prems(3) by auto
  obtain s1 where s1: "one d s = (s1, Some [d])"
    "settled view sv roots split_front join_front g verdict s s1 d"
    "\<forall>q\<in>P - {d, side d, k}. view s1 q = view s q"
    using resolve_member_ok [OF pt d ne hist sub] unfolding one_def by blast
  have same: "view s1 e = view s e" "view s1 (side e) = view s (side e)" if "e \<in> set ds" for e
  proof -
    define M where "M = set ds \<union> side ` set ds"
    have "d \<notin> M" "side d \<notin> M" "k \<notin> M" "M \<subseteq> P"
      using Cons.prems(1,4) by (simp_all add: M_def)
    then have "M \<subseteq> P - {d, side d, k}" by blast
    then have "e \<in> P - {d, side d, k} \<and> side e \<in> P - {d, side d, k}"
      using that by (simp only: M_def) blast
    then show "view s1 e = view s e" "view s1 (side e) = view s (side e)"
      using s1(3) by simp_all
  qed
  have rest: "\<forall>e\<in>set ds. \<exists>p t. List.find (\<lambda>p. cpGroup p = Some g) (load_changes_of sv roots e s1) = Some p \<and>
      view s1 e = Some (Document t)"
  proof
    fix e assume e: "e \<in> set ds"
    then have "load_changes_of sv roots e s1 = load_changes_of sv roots e s"
      using same(2) [OF e] Cons.prems(2) by (intro load_same) auto
    then show "\<exists>p t. List.find (\<lambda>p. cpGroup p = Some g) (load_changes_of sv roots e s1) = Some p \<and>
        view s1 e = Some (Document t)"
      using Cons.prems(3) same(1) [OF e] e by auto
  qed
  obtain s2 where s2: "resolve_members one ds s1 = (s2, Some ds)"
    "\<forall>e\<in>set ds. settled view sv roots split_front join_front g verdict s1 s2 e"
    "\<forall>q\<in>P - (set ds \<union> side ` set ds \<union> {k}). view s2 q = view s1 q"
    using Cons.IH [OF _ _ rest] Cons.prems(1,2,4) unfolding one_def by auto
  have run: "resolve_members one (d # ds) s = (s2, Some (d # ds))"
    by (simp add: s1(1) s2(1) and_then_def)
  have "view s2 d = view s1 d" "view s2 (side d) = view s1 (side d)"
    using s2(3) Cons.prems(1,4) by auto
  then have "settled view sv roots split_front join_front g verdict s s2 d"
    using settled_frame [OF s1(2) d(1) refl refl] by simp
  moreover have "settled view sv roots split_front join_front g verdict s s2 e" if e: "e \<in> set ds" for e
    using settled_frame [OF bspec [OF s2(2) e], of "side e" s s2] same [OF e] Cons.prems(2) e by simp
  moreover have "\<forall>q\<in>P - (set (d # ds) \<union> side ` set (d # ds) \<union> {k}). view s2 q = view s q"
    using s2(3) s1(3) by auto
  ultimately show ?case
    using run unfolding one_def by auto
qed

end

section \<open>A disk\<close>

text \<open>
  The service on an association list of files, on which its laws hold; a directory is what
  has a file below it, and a move takes everything below along.
\<close>

definition at_or_below :: "jstr \<Rightarrow> jstr \<Rightarrow> bool" where
  "at_or_below p q = (q = p \<or> starts_with q (p @ ''/''))"

definition relocated :: "jstr \<Rightarrow> jstr \<Rightarrow> jstr \<Rightarrow> jstr" where
  "relocated p q x = (if at_or_below p x then q @ drop (length p) x else x)"

type_synonym disk = "(jstr \<times> content) list"

definition disk_service :: "disk service" where
  "disk_service =
     \<lparr>svExists = (\<lambda>s p. Some (list_ex (\<lambda>f. at_or_below p (fst f)) s)), svRead = map_of,
      svWrite = (\<lambda>s p c. if map_of s p = None then None else Some (AList.update p c s)),
      svCreate = (\<lambda>s p c. Some (AList.update p c s)),
      svMove = (\<lambda>s p q. if at_or_below p q \<or> list_ex (\<lambda>f. at_or_below q (fst f)) s then None
         else Some (map (\<lambda>f. (relocated p q (fst f), snd f)) s)),
      svStat = (\<lambda>s p. if list_ex (\<lambda>f. at_or_below p (fst f)) s
         then Some \<lparr>stDir = (map_of s p = None),
           stChildren = remdups (map (\<lambda>f. let r = drop (length p + 1) (fst f) in (hd (split_on (CHR ''/'') r), CHR ''/'' \<in> set r))
             (filter (\<lambda>f. fst f \<noteq> p \<and> at_or_below p (fst f)) s))\<rparr>
         else None)\<rparr>"

lemma at_or_below_refl [simp]: "at_or_below p p"
  by (simp add: at_or_below_def)

interpretation disk: sound_files disk_service map_of
  by unfold_locales
    (auto simp: disk_service_def update_conv' list_ex_iff split: if_splits dest!: map_of_SomeD intro: bexI [rotated])

section \<open>Groups\<close>

lemma distinct_part:
  "distinct (map f (concat xss)) \<Longrightarrow> xs \<in> set xss \<Longrightarrow> distinct (map f xs)"
  by (induction xss) auto

lemma distinct_constant: "distinct (map (\<lambda>x. d) xs) \<Longrightarrow> x \<in> set xs \<Longrightarrow> xs = [x]"
  by (cases xs rule: list.exhaust; cases "tl xs") auto

lemma find_of_filter: "filter P xs = [x] \<Longrightarrow> List.find P xs = Some x"
  by (induction xs) (auto split: if_splits)

lemma update_group_drops:
  assumes "filter (\<lambda>p. cpGroup p = Some g) ps = [p]" "\<forall>p\<in>set ps. is_unresolved p"
  shows "filter is_unresolved (update_group_first v g ps) = filter (\<lambda>p. cpGroup p \<noteq> Some g) ps"
  using assms
proof (induction ps)
  case (Cons q ps)
  show ?case
  proof (cases "cpGroup q = Some g")
    case True
    then have none: "filter (\<lambda>p. cpGroup p = Some g) ps = []"
      using Cons.prems(1) by simp
    then have "filter (\<lambda>p. cpGroup p \<noteq> Some g) ps = ps" "filter is_unresolved ps = ps"
      using Cons.prems(2) by (simp_all add: filter_empty_conv filter_id_conv)
    moreover have "\<not> is_unresolved (resolve_change v q)"
      by (simp add: is_unresolved_def resolve_change_def)
    ultimately show ?thesis
      using True by simp
  qed (use Cons in simp)
qed simp

lemma load_unresolved: "p \<in> set (load_changes_of sv roots doc s) \<Longrightarrow> is_unresolved p"
  by (auto simp: load_changes_of_def split: option.splits content.splits)

lemma group_member_alone:
  assumes mem: "(d, p) \<in> set (grMembers (proposals_in_group sv cmp roots anyUri (Some g) s))"
    and dist: "distinct (map fst (grMembers (proposals_in_group sv cmp roots anyUri (Some g) s)))"
  shows "filter (\<lambda>p. cpGroup p = Some g) (load_changes_of sv roots d s) = [p]"
proof -
  define part where "part r = map (Pair (pdUri r)) (filter (\<lambda>p. cpGroup p = Some g) (load_changes_of sv roots (pdUri r) s))" for r :: pending_row
  define files where "files = snd (snd (pending_files_status sv cmp roots anyUri False s))"
  have all: "grMembers (proposals_in_group sv cmp roots anyUri (Some g) s) = concat (map part files)"
    by (simp add: proposals_in_group_def Let_def part_def [abs_def] files_def)
  obtain r where r: "r \<in> set files" "(d, p) \<in> set (part r)"
    using mem unfolding all by auto
  have "distinct (map fst (part r))"
    using distinct_part [OF dist [unfolded all], of "part r"] r(1) by simp
  then have "distinct (map (\<lambda>x. pdUri r) (filter (\<lambda>p. cpGroup p = Some g) (load_changes_of sv roots (pdUri r) s)))"
    by (simp add: part_def comp_def)
  moreover have "d = pdUri r" "p \<in> set (filter (\<lambda>p. cpGroup p = Some g) (load_changes_of sv roots (pdUri r) s))"
    using r(2) by (auto simp: part_def)
  ultimately show ?thesis
    using distinct_constant by metis
qed

lemma group_conflict_none:
  assumes "sound_files sv view"
    "\<forall>(d, p)\<in>set ms. \<exists>t. view s d = Some (Document t) \<and> snd (split_front t) = cpBase p"
  shows "group_conflict sv split_front s ms = None"
  using assms(2)
proof (induction ms)
  case (Cons m ms)
  obtain d p where m: "m = (d, p)" by (cases m)
  obtain t where t: "view s d = Some (Document t)" "snd (split_front t) = cpBase p"
    using Cons.prems m by auto
  have "read_document sv s d = Some t" "svExists sv s d = Some True"
    using sound_files.read_document_view [OF assms(1)] sound_files.exists_file [OF assms(1)] t(1) by auto
  then show ?case
    using Cons t(2) m by simp
qed simp

lemma group_conflict_some:
  assumes "(d, p) \<in> set ms"
    "\<nexists>t. svExists sv s d = Some True \<and> read_document sv s d = Some t \<and> snd (split_front t) = cpBase p"
  shows "\<exists>r. group_conflict sv split_front s ms = Some r \<and> (\<exists>e. r = Refused_unreadable e \<or> r = Refused_changed e)"
  using assms
proof (induction ms)
  case (Cons m ms)
  then show ?case
    by (cases m) (auto split: option.splits)
qed simp

section \<open>Properties\<close>

text \<open>
  Saving the proposals of a document and loading it again returns the unresolved ones;
  the index has a row of the document exactly when hunks are undecided, with their number;
  and no other row of the index and no other file changes.
\<close>

theorem load_after_save:
  assumes files: "sound_files sv view"
    and paths: "side = sidecar_path (root_of roots doc) doc" "k = index_path (root_of roots doc)" "side \<noteq> k"
    and run: "save_changes sv roots now doc ps s = (s', r)"
  shows "r = Some () \<and>
    load_changes_of sv roots doc s' = filter is_unresolved ps \<and>
    map_of (snd (index_rows (view s' k))) x =
       (if x \<noteq> rel_path (root_of roots doc) doc then map_of (snd (index_rows (view s k))) x
        else if changes_pending (filter is_unresolved ps) = 0 then None
        else Some \<lparr>ixPending = changes_pending (filter is_unresolved ps),
                   ixProposals = length (filter is_unresolved ps), ixUpdatedAt = now\<rparr>) \<and>
    (q = side \<or> q = k \<or> view s' q = view s q)"
proof -
  obtain s1 where s1: "save_changes sv roots now doc ps s = (s1, Some ())"
    "view s1 = (view s)(side \<mapsto> Sidecar (filter is_unresolved ps), k \<mapsto> Index (fst (index_rows (view s k)))
       (if changes_pending (filter is_unresolved ps) > 0
        then AList.update (rel_path (root_of roots doc) doc)
               \<lparr>ixPending = changes_pending (filter is_unresolved ps),
                ixProposals = length (filter is_unresolved ps), ixUpdatedAt = now\<rparr>
               (snd (index_rows (view s k)))
        else AList.delete (rel_path (root_of roots doc) doc) (snd (index_rows (view s k)))))"
    using sound_files.save_changes_ok [OF files paths refl] by blast
  have s': "s' = s1" "r = Some ()"
    using run s1(1) by simp_all
  have "load_changes_of sv roots doc s' = filter is_unresolved ps"
    using paths(3) by (simp add: sound_files.load_view [OF files] paths(1) [symmetric] s'(1) s1(2))
  then show ?thesis
    by (simp add: s' s1(2) index_rows_def update_conv' delete_conv')
qed

text \<open>
  C22: resolving the proposals of a document that is there writes the base of the last one
  with exactly the hunks that go in (those accepted before, and on an acceptance those left
  undecided), so an untouched proposal gives its proposed text when accepted and its base when
  rejected, up to CRLF; afterwards no proposal is open and the index has no row of the document.
\<close>

theorem resolve_file_settles:
  assumes files: "sound_files sv view"
    and ps: "load_changes_of sv roots doc s = ps @ [p]"
    and doc: "view s doc = Some (Document t)"
    and paths: "side = sidecar_path (root_of roots doc) doc" "k = index_path (root_of roots doc)" "distinct [doc, side, k]"
    and hist: "quiet_history view h {doc, side, k}"
    and hs: "hs = diff_hunks (cpBase p) (cpProposed p)"
    and run: "resolve_file sv roots now h split_front join_front doc verdict s = (s', r)"
  shows "(\<exists>res body. r = Some res \<and> frChanged res \<and> frBody res = Some body \<and>
      view s' doc = Some (Document (join_front (fst (split_front t)) body)) \<and>
      body = apply_hunks (cpBase p) hs (map hid (filter (goes_in verdict p) hs)) \<and>
      (cpDecisions p = [] \<longrightarrow>
         body = (if verdict = ''accepted'' then unify_crlf (cpProposed p) else unify_crlf (cpBase p)))) \<and>
    load_changes_of sv roots doc s' = [] \<and>
    map_of (snd (index_rows (view s' k))) (rel_path (root_of roots doc) doc) = None"
proof -
  define body where "body = resolved_body verdict p"
  obtain s1 r1 where s1: "resolve_file sv roots now h split_front join_front doc verdict s = (s1, Some r1)"
    "view s1 doc = Some (Document (join_front (fst (split_front t)) body))"
    "view s1 side = Some (Sidecar [])"
    "map_of (snd (index_rows (view s1 k))) (rel_path (root_of roots doc) doc) = None"
    "frChanged r1" "frBody r1 = Some body"
    using sound_files.resolve_file_ok [OF files ps _ doc paths hist subset_refl refl,
        where verdict = verdict and now = now and split_front = split_front and join_front = join_front]
    by (auto simp: body_def)
  have s': "s' = s1" "r = Some r1"
    using run s1(1) by simp_all
  have "body = apply_hunks (cpBase p) hs (map hid (filter (goes_in verdict p) hs))"
    by (simp add: body_def resolved_body_goes_in hs)
  moreover have "load_changes_of sv roots doc s1 = []"
    by (simp add: sound_files.load_view [OF files] paths(1) [symmetric] s1(3))
  ultimately show ?thesis
    using s' s1(2,4-6) resolved_body_fresh [of p verdict] unfolding body_def by blast
qed

text \<open>The two documents of the examples: a section cut from one and put into the other.\<close>

definition demo_part :: "jstr \<Rightarrow> jstr \<Rightarrow> jstr \<Rightarrow> change" where
  "demo_part i base proposed =
     new_change i ''t'' \<lparr>arTitle = ''Move'', arOrigin = [], arInstruction = [], arCommentId = [], arBase = base,
       arProposed = proposed, arAuthor = [], arGroup = Some ''g'', arMembers = Some [''a'', ''b'']\<rparr>"

definition demo_disk :: disk where
  "demo_disk =
     [(''/w/a'', Document ''x''), (''/w/b'', Document ''y''),
      (''/w/.studio/changes/a.json'', Sidecar [demo_part ''p'' ''x'' ''z'']),
      (''/w/.studio/changes/b.json'', Sidecar [demo_part ''q'' ''y'' ''w'']),
      (''/w/.studio/changes/index.json'',
         Index 1 [(''a'', \<lparr>ixPending = 1, ixProposals = 1, ixUpdatedAt = ''t''\<rparr>),
                  (''b'', \<lparr>ixPending = 1, ixProposals = 1, ixUpdatedAt = ''t''\<rparr>),
                  (''c'', \<lparr>ixPending = 2, ixProposals = 1, ixUpdatedAt = ''t''\<rparr>)])]"

lemma demo_paths:
  "sidecar_path (root_of [''/w''] ''/w/a'') ''/w/a'' = ''/w/.studio/changes/a.json''"
  "sidecar_path (root_of [''/w''] ''/w/b'') ''/w/b'' = ''/w/.studio/changes/b.json''"
  "index_path (root_of [''/w''] ''/w/a'') = ''/w/.studio/changes/index.json''"
  "index_path (root_of [''/w''] ''/w/b'') = ''/w/.studio/changes/index.json''"
  by code_simp+

lemma demo_loads:
  "load_changes_of disk_service [''/w''] ''/w/a'' demo_disk = [demo_part ''p'' ''x'' ''z'']"
  by code_simp

lemma resolve_file_settles_witness:
  "load_changes_of disk_service [''/w''] ''/w/a''
     (fst (resolve_file disk_service [''/w''] ''u'' None (Pair []) (@) ''/w/a'' ''accepted'' demo_disk)) = []"
proof -
  have doc: "map_of demo_disk ''/w/a'' = Some (Document ''x'')"
    by (simp add: demo_disk_def)
  have ps: "load_changes_of disk_service [''/w''] ''/w/a'' demo_disk = [] @ [demo_part ''p'' ''x'' ''z'']"
    by (simp add: demo_loads)
  obtain s r where run:
    "resolve_file disk_service [''/w''] ''u'' None (Pair []) (@) ''/w/a'' ''accepted'' demo_disk = (s, r)"
    by (rule prod.exhaust)
  have "load_changes_of disk_service [''/w''] ''/w/a'' s = []"
    using resolve_file_settles [OF disk.sound_files_axioms ps doc refl refl _ _ refl run]
    by (simp only: demo_paths quiet_history_def) simp
  then show ?thesis
    by (simp add: run)
qed

text \<open>
  C20: resolving a linked group whose documents are all there and unchanged resolves every
  member: each document gets its composed body, each sidecar loses exactly its member of the
  group, and the result names the documents in order.
\<close>

theorem group_resolves_together:
  assumes files: "sound_files sv view"
    and ms: "ms = grMembers (proposals_in_group sv cmp roots anyUri (Some g) s)" "ms \<noteq> []" "docs = map fst ms"
    and paths: "distinct (docs @ map (\<lambda>d. sidecar_path (root_of roots d) d) docs @ [k])"
      "\<forall>d\<in>set docs. k = index_path (root_of roots d)"
    and unchanged: "\<forall>(d, p)\<in>set ms. \<exists>t. view s d = Some (Document t) \<and> snd (split_front t) = cpBase p"
    and hist: "quiet_history view h (set docs \<union> (\<lambda>d. sidecar_path (root_of roots d) d) ` set docs \<union> {k})"
  shows "\<exists>s'. resolve_group sv cmp roots now h split_front join_front anyUri g verdict s = (s', Some (Resolved_group docs)) \<and>
    (\<forall>(d, p)\<in>set ms. \<exists>t. view s d = Some (Document t) \<and>
       view s' d = Some (Document (join_front (fst (split_front t)) (resolved_body verdict p))) \<and>
       load_changes_of sv roots d s' = filter (\<lambda>q. cpGroup q \<noteq> Some g) (load_changes_of sv roots d s))"
proof -
  have alone: "filter (\<lambda>p. cpGroup p = Some g) (load_changes_of sv roots d s) = [p]" if "(d, p) \<in> set ms" for d p
    using group_member_alone [of d p sv cmp roots anyUri g s] that paths(1) unfolding ms(1,3) by simp
  have ready: "\<forall>d\<in>set docs. \<exists>p t. List.find (\<lambda>p. cpGroup p = Some g) (load_changes_of sv roots d s) = Some p \<and>
      view s d = Some (Document t)"
    using find_of_filter [OF alone] unchanged unfolding ms(3) by fastforce
  have none: "group_conflict sv split_front s ms = None"
    by (rule group_conflict_none [OF files unchanged])
  obtain s' where run: "resolve_members (resolve_member sv roots now h split_front join_front g verdict) docs s = (s', Some docs)"
    and done1: "\<forall>d\<in>set docs. settled view sv roots split_front join_front g verdict s s' d"
    using sound_files.resolve_members_ok [OF files paths(1) _ ready hist subset_refl,
        where now = now and split_front = split_front and join_front = join_front and verdict = verdict]
      paths(2) by auto
  have "resolve_group sv cmp roots now h split_front join_front anyUri g verdict s = (s', Some (Resolved_group docs))"
    unfolding resolve_group_def Let_def ms(1) [symmetric] none option.case if_not_P [OF ms(2)] ms(3) [symmetric] run
      and_then_def fst_conv snd_conv by (rule refl)
  moreover have "\<exists>t. view s d = Some (Document t) \<and>
       view s' d = Some (Document (join_front (fst (split_front t)) (resolved_body verdict p))) \<and>
       load_changes_of sv roots d s' = filter (\<lambda>q. cpGroup q \<noteq> Some g) (load_changes_of sv roots d s)"
    if m: "(d, p) \<in> set ms" for d p
  proof -
    obtain t where t: "view s d = Some (Document t)"
      using unchanged m by auto
    have "d \<in> set docs"
      using m by (force simp: ms(3))
    then have "settled view sv roots split_front join_front g verdict s s' d"
      using done1 by blast
    then show ?thesis
      using t update_group_drops [OF alone [OF m], of verdict] load_unresolved [of _ sv roots d s]
      by (simp add: settled_def find_of_filter [OF alone [OF m]])
  qed
  ultimately show ?thesis
    by blast
qed

lemma group_resolves_together_witness:
  "snd (resolve_group disk_service (\<lambda>a b. if a < b then -1 else 1) [''/w''] ''u'' None (Pair []) (@) ''/w/a'' ''g'' ''accepted'' demo_disk)
   = Some (Resolved_group [''/w/a'', ''/w/b''])"
proof -
  have ms: "[(''/w/a'', demo_part ''p'' ''x'' ''z''), (''/w/b'', demo_part ''q'' ''y'' ''w'')] =
      grMembers (proposals_in_group disk_service (\<lambda>a b. if a < b then -1 else 1) [''/w''] ''/w/a'' (Some ''g'') demo_disk)"
    by code_simp
  have docs: "[''/w/a'', ''/w/b''] = map fst [(''/w/a'', demo_part ''p'' ''x'' ''z''), (''/w/b'', demo_part ''q'' ''y'' ''w'')]"
    by simp
  have ne: "[(''/w/a'', demo_part ''p'' ''x'' ''z''), (''/w/b'', demo_part ''q'' ''y'' ''w'')] \<noteq> []"
    by simp
  have paths: "distinct ([''/w/a'', ''/w/b''] @
      map (\<lambda>d. sidecar_path (root_of [''/w''] d) d) [''/w/a'', ''/w/b''] @ [''/w/.studio/changes/index.json''])"
    "\<forall>d\<in>set [''/w/a'', ''/w/b'']. ''/w/.studio/changes/index.json'' = index_path (root_of [''/w''] d)"
    by (simp_all add: demo_paths)
  have same: "\<forall>(d, p)\<in>set [(''/w/a'', demo_part ''p'' ''x'' ''z''), (''/w/b'', demo_part ''q'' ''y'' ''w'')].
      \<exists>t. map_of demo_disk d = Some (Document t) \<and> snd (([] :: jstr), t) = cpBase p"
    by (simp add: demo_disk_def demo_part_def new_change_def)
  have quiet: "quiet_history map_of (None :: disk history) P" for P
    by (simp add: quiet_history_def)
  show ?thesis
    using group_resolves_together [OF disk.sound_files_axioms ms ne docs paths same quiet,
        where now = "''u''" and join_front = "(@)" and verdict = "''accepted''"]
    by (elim exE conjE) (simp only: snd_conv)
qed

text \<open>
  C21: a linked group with a member whose document is missing, cannot be read, or is no longer
  the text the proposal was made on is refused whole: nothing is written.
\<close>

theorem group_refused_whole:
  assumes "(d, p) \<in> set (grMembers (proposals_in_group sv cmp roots anyUri (Some g) s))"
    "\<nexists>t. svExists sv s d = Some True \<and> read_document sv s d = Some t \<and> snd (split_front t) = cpBase p"
  shows "\<exists>e r. resolve_group sv cmp roots now h split_front join_front anyUri g verdict s = (s, Some r) \<and>
    (r = Refused_unreadable e \<or> r = Refused_changed e)"
proof -
  obtain r e where "group_conflict sv split_front s (grMembers (proposals_in_group sv cmp roots anyUri (Some g) s)) = Some r"
    "r = Refused_unreadable e \<or> r = Refused_changed e"
    using group_conflict_some [OF assms] by blast
  moreover have "grMembers (proposals_in_group sv cmp roots anyUri (Some g) s) \<noteq> []"
    using assms(1) by auto
  ultimately show ?thesis
    by (auto simp: resolve_group_def Let_def)
qed

lemma group_refused_whole_witness:
  "fst (resolve_group disk_service (\<lambda>a b. if a < b then -1 else 1) [''/w''] ''u'' None (Pair []) (@) ''/w/a'' ''g'' ''accepted''
     (AList.update ''/w/b'' (Document ''edited'') demo_disk))
   = AList.update ''/w/b'' (Document ''edited'') demo_disk"
proof -
  have mem: "(''/w/b'', demo_part ''q'' ''y'' ''w'') \<in> set (grMembers (proposals_in_group disk_service
      (\<lambda>a b. if a < b then -1 else 1) [''/w''] ''/w/a'' (Some ''g'') (AList.update ''/w/b'' (Document ''edited'') demo_disk)))"
    by code_simp
  have edited: "\<nexists>t. svExists disk_service (AList.update ''/w/b'' (Document ''edited'') demo_disk) ''/w/b'' = Some True \<and>
      read_document disk_service (AList.update ''/w/b'' (Document ''edited'') demo_disk) ''/w/b'' = Some t \<and>
      snd (([] :: jstr), t) = cpBase (demo_part ''q'' ''y'' ''w'')"
    by (simp add: read_document_def disk_service_def update_conv' demo_part_def new_change_def)
  show ?thesis
    using group_refused_whole [OF mem edited, where now = "''u''" and h = None and join_front = "(@)" and verdict = "''accepted''"]
    by (elim exE conjE) (simp only: fst_conv)
qed

lemma map_of_delete_rows:
  "map_of (foldl (\<lambda>m r. AList.delete (pdPath r) m) rows gone) x =
     (if x \<in> pdPath ` set gone then None else map_of rows x)"
  by (induction gone arbitrary: rows) (auto simp: delete_conv')

lemma listed_path:
  assumes "distinct (map fst rows)"
  shows "x \<in> pdPath ` set (filter (is_gone sv s) (listed_rows root rows)) \<longleftrightarrow>
    (\<exists>r. map_of rows x = Some r \<and> ixPending r > 0 \<and> svExists sv s (root @ ''/'' @ x) = Some False)"
proof -
  have "x \<in> pdPath ` set (filter (is_gone sv s) (listed_rows root rows)) \<longleftrightarrow>
    (\<exists>r. (x, r) \<in> set rows \<and> ixPending r > 0 \<and> svExists sv s (root @ ''/'' @ x) = Some False)"
    by (force simp: listed_rows_def is_gone_def)
  then show ?thesis
    using assms by (simp only: map_of_eq_Some_iff)
qed

text \<open>
  Reading the review queue drops exactly the rows with pending hunks of which \<open>exists\<close> is
  surely false, from the answer and from the index file; a row whose document is there, or of
  which \<open>exists\<close> throws, stays in both, and no other file changes.
\<close>

theorem pruning_needs_certainty:
  assumes files: "sound_files sv view"
    and k: "k = index_path (root_of roots doc)" "view s k = Some (Index 1 rows)" "distinct (map fst rows)"
    and run: "pending_files_status sv cmp roots doc True s = (s', ok, files)"
  shows "ok \<and>
    set files = {r \<in> set (listed_rows (root_of roots doc) rows). svExists sv s (pdUri r) \<noteq> Some False} \<and>
    (\<exists>rows'. view s' = (view s)(k \<mapsto> Index 1 rows') \<and>
       (\<forall>x. map_of rows' x =
          (case map_of rows x of None \<Rightarrow> None
           | Some r \<Rightarrow> if ixPending r > 0 \<and> svExists sv s (root_of roots doc @ ''/'' @ x) = Some False
                      then None else Some r)))"
proof -
  define root where "root = root_of roots doc"
  define gone where "gone = filter (is_gone sv s) (listed_rows root rows)"
  define rows' where "rows' = foldl (\<lambda>m r. AList.delete (pdPath r) m) rows gone"
  define after where "after = (if gone = [] then s else fst (write_json sv k (Index 1 rows') s))"
  have ix: "k = index_path root" "svExists sv s k = Some True" "read_json sv s k None = Some (Index 1 rows)"
    using k sound_files.exists_file [OF files] by (simp_all add: root_def sound_files.read_json_view [OF files])
  have "pending_files_status sv cmp roots doc True s =
    (after, True, js_sort (\<lambda>a b. cmp (pdPath a) (pdPath b)) (filter (\<lambda>r. \<not> is_gone sv s r) (listed_rows root rows)))"
    by (simp add: pending_files_status_def Let_def root_def [symmetric] ix(1) [symmetric] ix(2,3)
        after_def rows'_def gone_def)
  then have s': "s' = after" "ok" "set files = {r \<in> set (listed_rows root rows). \<not> is_gone sv s r}"
    using run by auto
  have v: "view s' = (view s)(k \<mapsto> Index 1 rows')"
  proof (cases "gone = []")
    case True
    then show ?thesis
      using k(2) by (auto simp: s'(1) after_def rows'_def)
  next
    case False
    obtain s1 where "write_json sv k (Index 1 rows') s = (s1, Some ())" "view s1 = (view s)(k \<mapsto> Index 1 rows')"
      using sound_files.write_json_ok [OF files] by blast
    with False show ?thesis
      by (simp add: s'(1) after_def)
  qed
  have "map_of rows' x = (case map_of rows x of None \<Rightarrow> None
           | Some r \<Rightarrow> if ixPending r > 0 \<and> svExists sv s (root @ ''/'' @ x) = Some False
                      then None else Some r)" for x
    using listed_path [OF k(3), of x sv s root]
    by (auto simp: rows'_def map_of_delete_rows gone_def split: option.splits)
  then show ?thesis
    using s' v unfolding root_def [symmetric] is_gone_def by blast
qed

section \<open>Two ways a bulk resolution loses text\<close>

lemma fresh_resolution:
  assumes "load_changes_of disk_service roots doc s = ps @ [p]" "cpDecisions p = []"
    "map_of s doc = Some (Document t)"
    "distinct [doc, sidecar_path (root_of roots doc) doc, index_path (root_of roots doc)]"
  shows "\<exists>s' r. resolve_file disk_service roots now None split_front join_front doc v s = (s', Some r) \<and>
    map_of s' doc = Some (Document (join_front (fst (split_front t))
      (if v = ''accepted'' then unify_crlf (cpProposed p) else unify_crlf (cpBase p))))"
proof -
  have ne: "ps @ [p] \<noteq> []" and quiet: "quiet_history map_of (None :: disk history) P" for P
    by (simp_all add: quiet_history_def)
  show ?thesis
    using disk.resolve_file_ok [OF assms(1) ne assms(3) refl refl assms(4) quiet subset_refl refl,
        where verdict = v and now = now and split_front = split_front and join_front = join_front]
      resolved_body_fresh [OF assms(2), of v]
    by (simp only: last_snoc) blast
qed

text \<open>With two open proposals accepted together, the document gets the text of the second alone.\<close>

lemma only_last_proposal_written:
  assumes "load_changes_of disk_service roots doc s = [p, q]" "cpDecisions q = []" "map_of s doc = Some (Document t)"
    "distinct [doc, sidecar_path (root_of roots doc) doc, index_path (root_of roots doc)]"
  shows "\<exists>s' r. resolve_file disk_service roots now None split_front join_front doc ''accepted'' s = (s', Some r) \<and>
    map_of s' doc = Some (Document (join_front (fst (split_front t)) (unify_crlf (cpProposed q))))"
  using fresh_resolution [of roots doc s "[p]" q, OF _ assms(2-4), of now split_front join_front "''accepted''"] assms(1)
  by simp

text \<open>Rejecting a proposal puts its base back, whatever the body of the document has become since.\<close>

lemma rejection_discards_edits:
  assumes "load_changes_of disk_service roots doc s = [p]" "cpDecisions p = []" "map_of s doc = Some (Document t)"
    "distinct [doc, sidecar_path (root_of roots doc) doc, index_path (root_of roots doc)]"
  shows "\<exists>s' r. resolve_file disk_service roots now None split_front join_front doc ''rejected'' s = (s', Some r) \<and>
    map_of s' doc = Some (Document (join_front (fst (split_front t)) (unify_crlf (cpBase p))))"
  using fresh_resolution [of roots doc s "[]" p, OF _ assms(2-4), of now split_front join_front "''rejected''"] assms(1)
  by simp

end
