(* ===== verification/Review_Board.thy ===== *)
theory Review_Board
  imports Changes_Store
begin

text \<open>
  What a reviewer is promised of browser/changes-store.js, apart from sidecars, an index and a
  file service: a board that holds, for each document, its text and its open proposals. Saving
  proposals replaces the open ones; a verdict on a file puts the last proposal's text in and
  closes all. The theorem is that the store refines the board over any sequence of the two,
  and that the index always counts what the board has undecided.
\<close>

section \<open>The board\<close>

record item =
  itText :: jstr
  itOpen :: "change list"

type_synonym board = "(jstr \<times> item) list"

datatype review = Save_proposals jstr jstr "change list" | Give_verdict jstr jstr jstr

primrec subject :: "review \<Rightarrow> jstr" where
  "subject (Save_proposals now d ps) = d"
| "subject (Give_verdict now d v) = d"

text \<open>The base of a proposal with exactly the hunks that go in.\<close>

definition verdict_text :: "jstr \<Rightarrow> change \<Rightarrow> jstr" where
  "verdict_text v p =
     (let hs = diff_hunks (cpBase p) (cpProposed p)
      in apply_hunks (cpBase p) hs (map hid (filter (goes_in v p) hs)))"

definition judged :: "(jstr \<Rightarrow> jstr \<times> jstr) \<Rightarrow> (jstr \<Rightarrow> jstr \<Rightarrow> jstr) \<Rightarrow> jstr \<Rightarrow> item \<Rightarrow> item" where
  "judged split_front join_front v i =
     (if itOpen i = [] then i
      else \<lparr>itText = join_front (fst (split_front (itText i))) (verdict_text v (last (itOpen i))), itOpen = []\<rparr>)"

definition on_item :: "jstr \<Rightarrow> (item \<Rightarrow> item) \<Rightarrow> board \<Rightarrow> board" where
  "on_item d f = map (\<lambda>(e, i). (e, if e = d then f i else i))"

primrec board_step :: "(jstr \<Rightarrow> jstr \<times> jstr) \<Rightarrow> (jstr \<Rightarrow> jstr \<Rightarrow> jstr) \<Rightarrow> review \<Rightarrow> board \<Rightarrow> board" where
  "board_step split_front join_front (Save_proposals now d ps) =
     on_item d (\<lambda>i. i\<lparr>itOpen := filter is_unresolved ps\<rparr>)"
| "board_step split_front join_front (Give_verdict now d v) = on_item d (judged split_front join_front v)"

section \<open>The store behind it\<close>

primrec store_step ::
  "'s service \<Rightarrow> jstr list \<Rightarrow> 's history \<Rightarrow> (jstr \<Rightarrow> jstr \<times> jstr) \<Rightarrow> (jstr \<Rightarrow> jstr \<Rightarrow> jstr) \<Rightarrow> review \<Rightarrow> 's \<Rightarrow> 's" where
  "store_step sv roots h split_front join_front (Save_proposals now d ps) s = fst (save_changes sv roots now d ps s)"
| "store_step sv roots h split_front join_front (Give_verdict now d v) s =
     fst (resolve_file sv roots now h split_front join_front d v s)"

definition item_of :: "'s service \<Rightarrow> jstr list \<Rightarrow> 's \<Rightarrow> jstr \<Rightarrow> item" where
  "item_of sv roots s d =
     \<lparr>itText = (case read_document sv s d of Some t \<Rightarrow> t | None \<Rightarrow> []), itOpen = load_changes_of sv roots d s\<rparr>"

definition board_of :: "'s service \<Rightarrow> jstr list \<Rightarrow> jstr list \<Rightarrow> 's \<Rightarrow> board" where
  "board_of sv roots D s = map (\<lambda>d. (d, item_of sv roots s d)) D"

definition own_row :: "jstr list \<Rightarrow> jstr \<Rightarrow> jstr" where
  "own_row roots d = rel_path (root_of roots d) d"

definition own_sidecar :: "jstr list \<Rightarrow> jstr \<Rightarrow> jstr" where
  "own_sidecar roots d = sidecar_path (root_of roots d) d"

text \<open>The index has a row of a document exactly when hunks are undecided, with their number.\<close>

definition counted :: "change list \<Rightarrow> nat option" where
  "counted ps = (let n = changes_pending ps in if n = 0 then None else Some n)"

definition queue_agrees :: "'s service \<Rightarrow> jstr list \<Rightarrow> jstr \<Rightarrow> jstr list \<Rightarrow> 's \<Rightarrow> bool" where
  "queue_agrees sv roots k D s =
     list_all (\<lambda>d. map_option ixPending (map_of (snd (index_rows (svRead sv s k))) (own_row roots d)) =
       counted (load_changes_of sv roots d s)) D"

text \<open>The files of the documents, their sidecars and their common index are different files.\<close>

definition store_files :: "jstr list \<Rightarrow> jstr \<Rightarrow> jstr list \<Rightarrow> jstr list" where
  "store_files roots k D = D @ map (own_sidecar roots) D @ [k]"

definition separate :: "jstr list \<Rightarrow> jstr \<Rightarrow> jstr list \<Rightarrow> bool" where
  "separate roots k D =
     (distinct (store_files roots k D) \<and> distinct (map (own_row roots) D) \<and>
      list_all (\<lambda>d. index_path (root_of roots d) = k) D)"

definition documents_there :: "('s \<Rightarrow> jstr \<Rightarrow> content option) \<Rightarrow> jstr list \<Rightarrow> 's \<Rightarrow> bool" where
  "documents_there view D s = (\<forall>d\<in>set D. \<exists>t. view s d = Some (Document t))"

section \<open>One step\<close>

lemma verdict_text_resolved: "verdict_text v p = resolved_body v p"
  by (simp add: verdict_text_def resolved_body_goes_in Let_def)

lemma separate_own:
  assumes "separate roots k D" "d \<in> set D"
  shows "own_sidecar roots d \<noteq> k" "d \<noteq> own_sidecar roots d" "d \<noteq> k" "k = index_path (root_of roots d)"
    "{d, own_sidecar roots d, k} \<subseteq> set (store_files roots k D)"
  using assms by (auto simp: separate_def store_files_def list_all_iff)

lemma separate_other:
  assumes "separate roots k D" "d \<in> set D" "e \<in> set D" "e \<noteq> d"
  shows "e \<notin> {d, own_sidecar roots d, k}" "own_sidecar roots e \<notin> {d, own_sidecar roots d, k}"
    "own_row roots e \<noteq> own_row roots d"
  using assms by (auto simp: separate_def store_files_def list_all_iff distinct_map dest: inj_onD)

context sound_files
begin

text \<open>
  Whatever changes only the text, the sidecar and the row of one document changes only its
  item on the board.
\<close>

lemma one_document:
  assumes sep: "separate roots k D" and d: "d \<in> set D"
    and body: "view s' d = Some (Document t)"
    and side: "view s' (own_sidecar roots d) = Some (Sidecar ps)"
    and rest: "\<forall>q\<in>set (store_files roots k D) - {d, own_sidecar roots d, k}. view s' q = view s q"
    and rows: "map_of (snd (index_rows (view s' k))) = (map_of (snd (index_rows (view s k))))(own_row roots d := row)"
      "map_option ixPending row = counted (filter is_unresolved ps)"
    and there: "documents_there view D s" and queue: "queue_agrees sv roots k D s"
  shows "board_of sv roots D s' = on_item d (\<lambda>i. \<lparr>itText = t, itOpen = filter is_unresolved ps\<rparr>) (board_of sv roots D s)"
    "documents_there view D s'" "queue_agrees sv roots k D s'"
proof -
  have same: "view s' e = view s e" "view s' (own_sidecar roots e) = view s (own_sidecar roots e)"
    "own_row roots e \<noteq> own_row roots d" if "e \<in> set D" "e \<noteq> d" for e
    using separate_other [OF sep d that] rest that(1) by (auto simp: store_files_def)
  have load: "load_changes_of sv roots e s' =
      (if e = d then filter is_unresolved ps else load_changes_of sv roots e s)" if "e \<in> set D" for e
    using same(2) [OF that] side by (auto simp: load_view own_sidecar_def)
  have doc: "read_document sv s' e = (if e = d then Some t else read_document sv s e)" if "e \<in> set D" for e
    using same(1) [OF that] body by (auto simp: read_document_def read)
  show "board_of sv roots D s' =
      on_item d (\<lambda>i. \<lparr>itText = t, itOpen = filter is_unresolved ps\<rparr>) (board_of sv roots D s)"
    by (simp add: board_of_def on_item_def item_of_def load doc)
  show "documents_there view D s'"
    using there same(1) body by (metis documents_there_def)
  show "queue_agrees sv roots k D s'"
    using queue same(3) by (auto simp: queue_agrees_def list_all_iff read rows load)
qed

text \<open>What each operation leaves in the four places.\<close>

lemma saved:
  assumes sep: "separate roots k D" and d: "d \<in> set D" and doc: "view s d = Some (Document t)"
    and run: "s' = fst (save_changes sv roots now d ps s)"
  obtains row where "view s' d = Some (Document t)"
    "view s' (own_sidecar roots d) = Some (Sidecar (filter is_unresolved ps))"
    "\<forall>q\<in>set (store_files roots k D) - {d, own_sidecar roots d, k}. view s' q = view s q"
    "map_of (snd (index_rows (view s' k))) = (map_of (snd (index_rows (view s k))))(own_row roots d := row)"
    "map_option ixPending row = counted (filter is_unresolved ps)"
proof -
  define un where "un = filter is_unresolved ps"
  define new where "new = \<lparr>ixPending = changes_pending un, ixProposals = length un, ixUpdatedAt = now\<rparr>"
  define rows where "rows = (if changes_pending un > 0
      then AList.update (own_row roots d) new (snd (index_rows (view s k)))
      else AList.delete (own_row roots d) (snd (index_rows (view s k))))"
  note own = separate_own [OF sep d]
  obtain s1 where s1: "save_changes sv roots now d ps s = (s1, Some ())"
    "view s1 = (view s)(own_sidecar roots d \<mapsto> Sidecar un, k \<mapsto> Index (fst (index_rows (view s k))) rows)"
    using save_changes_ok [OF own_sidecar_def own(4,1) un_def, of now s]
    unfolding rows_def own_row_def new_def by blast
  have v: "view s' = (view s)(own_sidecar roots d \<mapsto> Sidecar un, k \<mapsto> Index (fst (index_rows (view s k))) rows)"
    using s1 run by simp
  have "map_of (snd (index_rows (view s' k))) = map_of rows"
    by (simp add: v index_rows_def)
  also have "map_of rows = (map_of (snd (index_rows (view s k))))
      (own_row roots d := (if changes_pending un > 0 then Some new else None))"
    by (simp add: rows_def update_conv' delete_conv')
  finally show ?thesis
    by (rule that [rotated 3]) (use own doc in \<open>simp_all add: v counted_def new_def un_def\<close>)
qed

lemma settled_file:
  assumes sep: "separate roots k D" and d: "d \<in> set D" and doc: "view s d = Some (Document t)"
    and hist: "quiet_history view h (set (store_files roots k D))"
    and ps: "load_changes_of sv roots d s = ps" "ps \<noteq> []"
    and run: "s' = fst (resolve_file sv roots now h split_front join_front d v s)"
  shows "view s' d = Some (Document (join_front (fst (split_front t)) (verdict_text v (last ps))))"
    "view s' (own_sidecar roots d) = Some (Sidecar [])"
    "\<forall>q\<in>set (store_files roots k D) - {d, own_sidecar roots d, k}. view s' q = view s q"
    "map_of (snd (index_rows (view s' k))) = (map_of (snd (index_rows (view s k))))(own_row roots d := None)"
proof -
  note own = separate_own [OF sep d]
  have "distinct [d, own_sidecar roots d, k]"
    using own by simp
  then show "view s' d = Some (Document (join_front (fst (split_front t)) (verdict_text v (last ps))))"
    "view s' (own_sidecar roots d) = Some (Sidecar [])"
    "\<forall>q\<in>set (store_files roots k D) - {d, own_sidecar roots d, k}. view s' q = view s q"
    "map_of (snd (index_rows (view s' k))) = (map_of (snd (index_rows (view s k))))(own_row roots d := None)"
    using resolve_file_ok [OF ps doc own_sidecar_def own(4) _ hist own(5) refl, of now split_front join_front v]
    by (auto simp: run own_row_def verdict_text_resolved)
qed

lemma store_step_refines:
  assumes sep: "separate roots k D" and d: "subject ev \<in> set D"
    and hist: "quiet_history view h (set (store_files roots k D))"
    and there: "documents_there view D s" and queue: "queue_agrees sv roots k D s"
    and run: "s' = store_step sv roots h split_front join_front ev s"
  shows "board_of sv roots D s' = board_step split_front join_front ev (board_of sv roots D s) \<and>
    documents_there view D s' \<and> queue_agrees sv roots k D s'"
proof -
  obtain t where t: "view s (subject ev) = Some (Document t)"
    using there d by (auto simp: documents_there_def)
  have item: "item_of sv roots s (subject ev) =
      \<lparr>itText = t, itOpen = load_changes_of sv roots (subject ev) s\<rparr>"
    using t by (simp add: item_of_def read_document_def read)
  have on: "on_item (subject ev) f (board_of sv roots D s) = on_item (subject ev) g (board_of sv roots D s)"
    if "f (item_of sv roots s (subject ev)) = g (item_of sv roots s (subject ev))" for f g
    using that by (simp add: board_of_def on_item_def)
  show ?thesis
  proof (cases ev)
    case (Save_proposals now d ps)
    obtain row where "view s' d = Some (Document t)"
      "view s' (own_sidecar roots d) = Some (Sidecar (filter is_unresolved ps))"
      "\<forall>q\<in>set (store_files roots k D) - {d, own_sidecar roots d, k}. view s' q = view s q"
      "map_of (snd (index_rows (view s' k))) = (map_of (snd (index_rows (view s k))))(own_row roots d := row)"
      "map_option ixPending row = counted (filter is_unresolved (filter is_unresolved ps))"
      by (rule saved [OF sep, of d s t s' now ps]) (use assms(2) t run Save_proposals in simp_all)
    from one_document [OF sep _ this there queue] show ?thesis
      using assms(2) on [of "\<lambda>i. \<lparr>itText = t, itOpen = filter is_unresolved ps\<rparr>"
          "\<lambda>i. i\<lparr>itOpen := filter is_unresolved ps\<rparr>"] item
      by (simp add: Save_proposals)
  next
    case (Give_verdict now d v)
    define ps where "ps = load_changes_of sv roots d s"
    show ?thesis
    proof (cases "ps = []")
      case True
      then have "s' = s"
        using run by (simp add: Give_verdict resolve_file_def ps_def)
      moreover have "on_item d (judged split_front join_front v) (board_of sv roots D s) = board_of sv roots D s"
        using True by (simp add: board_of_def on_item_def judged_def item_of_def ps_def)
      ultimately show ?thesis
        using there queue by (simp add: Give_verdict)
    next
      case False
      have dD: "d \<in> set D" and td: "view s d = Some (Document t)"
        and s': "s' = fst (resolve_file sv roots now h split_front join_front d v s)"
        using assms(2) t run by (simp_all add: Give_verdict)
      note left = settled_file [OF sep dD td hist ps_def [symmetric] False s']
      show ?thesis
        using one_document [OF sep dD left(1-4) _ there queue] item False
          on [of "\<lambda>i. \<lparr>itText = join_front (fst (split_front t)) (verdict_text v (last ps)), itOpen = []\<rparr>"
            "judged split_front join_front v"]
        by (simp add: Give_verdict judged_def counted_def ps_def)
    qed
  qed
qed

lemma store_run_refines:
  assumes "separate roots k D" "quiet_history view h (set (store_files roots k D))"
    "\<forall>ev\<in>set evs. subject ev \<in> set D" "documents_there view D s" "queue_agrees sv roots k D s"
  shows "board_of sv roots D (fold (store_step sv roots h split_front join_front) evs s) =
      fold (board_step split_front join_front) evs (board_of sv roots D s) \<and>
    queue_agrees sv roots k D (fold (store_step sv roots h split_front join_front) evs s)"
  using assms(3-5)
proof (induction evs arbitrary: s)
  case (Cons ev evs)
  then show ?case
    using store_step_refines [OF assms(1) _ assms(2) Cons.prems(2,3) refl, of ev] by simp
qed simp

end

section \<open>Properties\<close>

text \<open>
  C23: the store refines the board. For documents that are there, with files of their own and
  an index that counts them, any sequence of saves and verdicts on files leaves on disk exactly
  the board that the same sequence gives on the abstract board: of every document the text and
  the open proposals, and the index still counts what is undecided.
\<close>

theorem store_refines_board:
  assumes "sound_files sv view" and "separate roots k D"
    and "quiet_history view h (set (store_files roots k D))"
    and "\<forall>ev\<in>set evs. subject ev \<in> set D"
    and "documents_there view D s" and "queue_agrees sv roots k D s"
  shows "board_of sv roots D (fold (store_step sv roots h split_front join_front) evs s) =
      fold (board_step split_front join_front) evs (board_of sv roots D s) \<and>
    queue_agrees sv roots k D (fold (store_step sv roots h split_front join_front) evs s)"
  by (rule sound_files.store_run_refines [OF assms])

definition two_documents :: disk where
  "two_documents = [(''/w/a'', Document ''x''), (''/w/b'', Document ''y'')]"

theorem store_refines_board_witness:
  "board_of disk_service [''/w''] [''/w/a'', ''/w/b'']
     (fold (store_step disk_service [''/w''] None (Pair []) (@))
       [Save_proposals ''u'' ''/w/a'' [demo_part ''p'' ''x'' ''z''], Give_verdict ''u'' ''/w/a'' ''accepted''] two_documents) =
   [(''/w/a'', \<lparr>itText = ''z'', itOpen = []\<rparr>), (''/w/b'', \<lparr>itText = ''y'', itOpen = []\<rparr>)]"
proof -
  let ?evs = "[Save_proposals ''u'' ''/w/a'' [demo_part ''p'' ''x'' ''z''], Give_verdict ''u'' ''/w/a'' ''accepted'']"
  have sep: "separate [''/w''] ''/w/.studio/changes/index.json'' [''/w/a'', ''/w/b'']"
    by code_simp
  have agrees: "queue_agrees disk_service [''/w''] ''/w/.studio/changes/index.json'' [''/w/a'', ''/w/b''] two_documents"
    by code_simp
  have there: "documents_there map_of [''/w/a'', ''/w/b''] two_documents"
    by (simp add: documents_there_def two_documents_def)
  have "board_of disk_service [''/w''] [''/w/a'', ''/w/b'']
      (fold (store_step disk_service [''/w''] None (Pair []) (@)) ?evs two_documents) =
    fold (board_step (Pair []) (@)) ?evs (board_of disk_service [''/w''] [''/w/a'', ''/w/b''] two_documents)"
    by (rule store_refines_board [OF disk.sound_files_axioms sep _ _ there agrees, THEN conjunct1])
      (simp_all add: quiet_history_def)
  also have "board_of disk_service [''/w''] [''/w/a'', ''/w/b''] two_documents =
      [(''/w/a'', \<lparr>itText = ''x'', itOpen = []\<rparr>), (''/w/b'', \<lparr>itText = ''y'', itOpen = []\<rparr>)]"
    by code_simp
  also have "fold (board_step (Pair []) (@)) ?evs \<dots> =
      [(''/w/a'', \<lparr>itText = ''z'', itOpen = []\<rparr>), (''/w/b'', \<lparr>itText = ''y'', itOpen = []\<rparr>)]"
    by (simp add: on_item_def judged_def verdict_text_resolved resolved_body_fresh demo_part_def new_change_def
        is_unresolved_def)
  finally show ?thesis .
qed

end
