(* ===== verification/Changes_Lifecycle.thy ===== *)
theory Changes_Lifecycle
  imports Changes_Store
begin

text \<open>
  browser/changes-lifecycle.js: what happens to the pending work of a document when the
  document is moved or deleted, and the sweep that repairs a workspace in which that was
  missed. The file service is the one of \<open>Changes_Store\<close>; the workspace roots are None where
  reading them throws. \<open>None\<close> as a result is a run that does not end: the search for a free
  name under .orphaned is a loop, and the walk over .studio/changes descends as far as the
  tree does. The theorems are that the search ends, that no event destroys a file, what a
  deletion leaves, and where a rename takes the pending work.
\<close>

section \<open>Paths\<close>

definition ORPHANED_DIR :: jstr where
  "ORPHANED_DIR = CHANGES_DIR @ ''/.orphaned''"

definition changes_dir_of :: "jstr \<Rightarrow> jstr" where
  "changes_dir_of root = root @ ''/'' @ CHANGES_DIR"

definition doc_of :: "jstr \<Rightarrow> jstr \<Rightarrow> jstr" where
  "doc_of root rel = root @ ''/'' @ rel"

definition side_of :: "jstr \<Rightarrow> jstr \<Rightarrow> jstr" where
  "side_of root rel = root @ ''/'' @ CHANGES_DIR @ ''/'' @ rel @ ''.json''"

definition log_of :: "jstr \<Rightarrow> jstr \<Rightarrow> jstr" where
  "log_of root rel = root @ ''/'' @ CHANGES_DIR @ ''/'' @ rel"

definition orphaned_side :: "jstr \<Rightarrow> jstr \<Rightarrow> jstr" where
  "orphaned_side root rel = root @ ''/'' @ ORPHANED_DIR @ ''/'' @ rel @ ''.json''"

definition orphaned_log :: "jstr \<Rightarrow> jstr \<Rightarrow> jstr" where
  "orphaned_log root rel = root @ ''/'' @ ORPHANED_DIR @ ''/'' @ rel"

lemmas lifecycle_paths = side_of_def log_of_def orphaned_side_def orphaned_log_def index_path_def
  ORPHANED_DIR_def CHANGES_DIR_def doc_of_def

section \<open>The file service, never throwing\<close>

definition there :: "'s service \<Rightarrow> 's \<Rightarrow> jstr \<Rightarrow> bool" where
  "there sv s p = (svExists sv s p = Some True)"

definition resolve_maybe :: "'s service \<Rightarrow> 's \<Rightarrow> jstr \<Rightarrow> stat option" where
  "resolve_maybe sv s p = svStat sv s p"

definition lc_read_json :: "'s service \<Rightarrow> 's \<Rightarrow> jstr \<Rightarrow> content option \<Rightarrow> content option" where
  "lc_read_json sv s p fallback =
     (if svExists sv s p \<noteq> Some True then fallback
      else case svRead sv s p of None \<Rightarrow> fallback | Some (Document t) \<Rightarrow> fallback | Some c \<Rightarrow> Some c)"

definition lc_write_json :: "'s service \<Rightarrow> jstr \<Rightarrow> content \<Rightarrow> 's \<Rightarrow> 's" where
  "lc_write_json sv p c s =
     (case svWrite sv s p c of Some s' \<Rightarrow> s'
      | None \<Rightarrow> (case svCreate sv s p c of Some s' \<Rightarrow> s' | None \<Rightarrow> s))"

definition move_quietly :: "'s service \<Rightarrow> jstr \<Rightarrow> jstr \<Rightarrow> 's \<Rightarrow> 's \<times> bool" where
  "move_quietly sv p q s = (case svMove sv s p q of Some s' \<Rightarrow> (s', True) | None \<Rightarrow> (s, False))"

definition lc_root :: "jstr list option \<Rightarrow> jstr \<Rightarrow> jstr" where
  "lc_root roots doc = root_of (case roots of Some rs \<Rightarrow> rs | None \<Rightarrow> []) doc"

definition is_inside_changes :: "jstr \<Rightarrow> bool" where
  "is_inside_changes rel = (rel = ''.studio'' \<or> starts_with rel ''.studio/'')"

section \<open>Orphaning\<close>

definition taken :: "'s service \<Rightarrow> 's \<Rightarrow> jstr \<Rightarrow> jstr \<Rightarrow> bool" where
  "taken sv s root candidate = (there sv s (orphaned_side root candidate) \<or> there sv s (orphaned_log root candidate))"

partial_function (option) orphan_from ::
  "'s service \<Rightarrow> 's \<Rightarrow> jstr \<Rightarrow> jstr \<Rightarrow> nat \<Rightarrow> jstr \<Rightarrow> jstr option" where
  "orphan_from sv s root rel n candidate =
     (if taken sv s root candidate then orphan_from sv s root rel (n + 1) (rel @ ''~'' @ to_dec n)
      else Some candidate)"

declare orphan_from.simps [code]

definition unique_orphan :: "'s service \<Rightarrow> 's \<Rightarrow> jstr \<Rightarrow> jstr \<Rightarrow> jstr option" where
  "unique_orphan sv s root rel = orphan_from sv s root rel 1 rel"

datatype which = Both | Only_sidecar | Only_logdir

definition move_when :: "'s service \<Rightarrow> bool \<Rightarrow> jstr \<Rightarrow> jstr \<Rightarrow> 's \<Rightarrow> 's" where
  "move_when sv b p q s = (if b then fst (move_quietly sv p q s) else s)"

definition strand :: "'s service \<Rightarrow> jstr \<Rightarrow> jstr \<Rightarrow> which \<Rightarrow> 's \<Rightarrow> ('s \<times> bool) option" where
  "strand sv root rel w s =
     (let has_side = (w \<noteq> Only_logdir \<and> there sv s (side_of root rel));
          has_log = (w \<noteq> Only_sidecar \<and> there sv s (log_of root rel))
      in if \<not> has_side \<and> \<not> has_log then Some (s, False)
         else case unique_orphan sv s root rel of
             None \<Rightarrow> None
           | Some dest \<Rightarrow>
               Some (move_when sv has_log (log_of root rel) (orphaned_log root dest)
                 (move_when sv has_side (side_of root rel) (orphaned_side root dest) s), True))"

definition in_subtree :: "jstr \<Rightarrow> jstr \<Rightarrow> bool" where
  "in_subtree rel k = (k = rel \<or> starts_with k (rel @ ''/''))"

definition drop_index_subtree :: "'s service \<Rightarrow> jstr \<Rightarrow> jstr \<Rightarrow> 's \<Rightarrow> 's" where
  "drop_index_subtree sv root rel s =
     (case lc_read_json sv s (index_path root) None of
        Some (Index v rows) \<Rightarrow>
          if list_ex (\<lambda>r. in_subtree rel (fst r)) rows
          then lc_write_json sv (index_path root) (Index v (filter (\<lambda>r. \<not> in_subtree rel (fst r)) rows)) s
          else s
      | _ \<Rightarrow> s)"

section \<open>A rename\<close>

definition transplant :: "'s service \<Rightarrow> jstr \<Rightarrow> jstr \<Rightarrow> jstr \<Rightarrow> jstr \<Rightarrow> jstr \<Rightarrow> jstr \<Rightarrow> 's \<Rightarrow> 's" where
  "transplant sv now old_root old_rel new_root new_rel dest_side s =
     (let ps = (case lc_read_json sv s dest_side None of Some (Sidecar ps) \<Rightarrow> filter is_unresolved ps | _ \<Rightarrow> []);
          n = changes_pending ps;
          row = \<lparr>ixPending = n, ixProposals = length ps, ixUpdatedAt = now\<rparr>
      in if old_root = new_root then
           let (v, rows) = index_rows (lc_read_json sv s (index_path old_root) (Some (Index 1 [])));
               rows1 = AList.delete old_rel rows;
               rows2 = (if n > 0 then AList.update new_rel row rows1 else rows1)
           in lc_write_json sv (index_path old_root) (Index v rows2) s
         else
           let s1 = drop_index_subtree sv old_root old_rel s
           in if n > 0 then
                let (v, rows) = index_rows (lc_read_json sv s1 (index_path new_root) (Some (Index 1 [])))
                in lc_write_json sv (index_path new_root) (Index v (AList.update new_rel row rows)) s1
              else s1)"

definition move_sidecar :: "'s service \<Rightarrow> jstr \<Rightarrow> jstr \<Rightarrow> jstr \<Rightarrow> bool \<Rightarrow> 's \<Rightarrow> ('s \<times> bool) option" where
  "move_sidecar sv old_root old_rel dest_side had s =
     (if \<not> had then Some (s, False)
      else if there sv s dest_side then map_option (\<lambda>r. (fst r, False)) (strand sv old_root old_rel Only_sidecar s)
      else Some (move_quietly sv (side_of old_root old_rel) dest_side s))"

definition move_log :: "'s service \<Rightarrow> jstr \<Rightarrow> jstr \<Rightarrow> jstr \<Rightarrow> bool \<Rightarrow> 's \<Rightarrow> 's option" where
  "move_log sv old_root old_rel new_log had s =
     (if \<not> had then Some s
      else if there sv s new_log then map_option fst (strand sv old_root old_rel Only_logdir s)
      else Some (fst (move_quietly sv (log_of old_root old_rel) new_log s)))"

definition handle_move :: "'s service \<Rightarrow> jstr list option \<Rightarrow> jstr \<Rightarrow> jstr \<Rightarrow> jstr \<Rightarrow> 's \<Rightarrow> 's option" where
  "handle_move sv roots now source target s =
     (let old_root = lc_root roots source; new_root = lc_root roots target;
          old_rel = rel_path old_root source; new_rel = rel_path new_root target;
          had_side = there sv s (side_of old_root old_rel); had_log = there sv s (log_of old_root old_rel)
      in if old_rel = [] \<or> new_rel = [] then Some s
         else if is_inside_changes old_rel \<or> is_inside_changes new_rel then Some s
         else if old_root = new_root \<and> old_rel = new_rel then Some s
         else if \<not> had_side \<and> \<not> had_log then Some s
         else case move_sidecar sv old_root old_rel (side_of new_root new_rel) had_side s of
             None \<Rightarrow> None
           | Some (s1, moved) \<Rightarrow>
               (case move_log sv old_root old_rel (log_of new_root new_rel) had_log s1 of
                  None \<Rightarrow> None
                | Some s2 \<Rightarrow>
                    Some (if moved then transplant sv now old_root old_rel new_root new_rel (side_of new_root new_rel) s2
                          else if had_side then drop_index_subtree sv old_root old_rel s2 else s2)))"

section \<open>A deletion\<close>

definition handle_delete :: "'s service \<Rightarrow> jstr list option \<Rightarrow> jstr \<Rightarrow> 's \<Rightarrow> 's option" where
  "handle_delete sv roots doc s =
     (let root = lc_root roots doc; rel = rel_path root doc
      in if rel = [] \<or> is_inside_changes rel then Some s
         else if there sv s doc then Some s
         else map_option (\<lambda>r. drop_index_subtree sv root rel (fst r)) (strand sv root rel Both s))"

section \<open>The startup sweep\<close>

definition add_once :: "'a \<Rightarrow> 'a list \<Rightarrow> 'a list" where
  "add_once x xs = (if x \<in> set xs then xs else xs @ [x])"

definition children_of :: "'s service \<Rightarrow> 's \<Rightarrow> jstr \<Rightarrow> (jstr \<times> bool) list" where
  "children_of sv s dir =
     (case resolve_maybe sv s dir of Some st \<Rightarrow> (if stDir st then stChildren st else []) | None \<Rightarrow> [])"

definition is_dir :: "'s service \<Rightarrow> 's \<Rightarrow> jstr \<Rightarrow> bool" where
  "is_dir sv s p = (case resolve_maybe sv s p of Some st \<Rightarrow> stDir st | None \<Rightarrow> False)"

text \<open>The fuel bounds how deep the walk descends; None is a walk that needs more.\<close>

fun walk_changes ::
  "'s service \<Rightarrow> jstr \<Rightarrow> 's \<Rightarrow> nat \<Rightarrow> jstr \<Rightarrow> jstr \<Rightarrow> (jstr \<times> bool) list \<Rightarrow> jstr list \<Rightarrow> jstr list option" where
  "walk_changes sv root s fuel dir pre [] acc = Some acc"
| "walk_changes sv root s fuel dir pre ((base, isDir) # cs) acc =
     (let rel = (if pre = [] then base else pre @ ''/'' @ base)
      in if pre = [] \<and> base = ''index.json'' \<and> \<not> isDir then walk_changes sv root s fuel dir pre cs acc
         else if pre = [] \<and> base = ''.orphaned'' \<and> isDir then walk_changes sv root s fuel dir pre cs acc
         else if isDir then
           (if is_dir sv s (doc_of root rel) then
              (case fuel of 0 \<Rightarrow> None
               | Suc f \<Rightarrow>
                   (case walk_changes sv root s f (dir @ ''/'' @ base) rel (children_of sv s (dir @ ''/'' @ base)) acc of
                      None \<Rightarrow> None
                    | Some acc1 \<Rightarrow> walk_changes sv root s (Suc f) dir pre cs acc1))
            else walk_changes sv root s fuel dir pre cs (add_once rel acc))
         else if ends_with base ''.json''
           then walk_changes sv root s fuel dir pre cs (add_once (take (length rel - 5) rel) acc)
         else walk_changes sv root s fuel dir pre cs acc)"

definition collect_candidates :: "'s service \<Rightarrow> jstr \<Rightarrow> 's \<Rightarrow> nat \<Rightarrow> jstr list \<Rightarrow> jstr list option" where
  "collect_candidates sv root s fuel acc =
     walk_changes sv root s fuel (changes_dir_of root) [] (children_of sv s (changes_dir_of root)) acc"

definition path_depth :: "jstr \<Rightarrow> int" where
  "path_depth p = int (length (split_on (CHR ''/'') p))"

fun sweep_candidates ::
  "'s service \<Rightarrow> jstr \<Rightarrow> jstr list \<Rightarrow> (jstr \<times> index_row) list \<times> bool \<Rightarrow> 's \<Rightarrow> ('s \<times> (jstr \<times> index_row) list \<times> bool) option" where
  "sweep_candidates sv root [] ix s = Some (s, ix)"
| "sweep_candidates sv root (rel # rels) ix s =
     (if there sv s (doc_of root rel) then sweep_candidates sv root rels ix s
      else case strand sv root rel Both s of
          None \<Rightarrow> None
        | Some (s1, _) \<Rightarrow>
            sweep_candidates sv root rels
              (if rel \<in> fst ` set (fst ix) then (AList.delete rel (fst ix), True) else ix) s1)"

definition sweep_root :: "'s service \<Rightarrow> nat \<Rightarrow> jstr \<Rightarrow> 's \<Rightarrow> 's option" where
  "sweep_root sv fuel root s =
     (if \<not> there sv s (changes_dir_of root) then Some s
      else
        let (v, rows) = index_rows (lc_read_json sv s (index_path root) (Some (Index 1 [])))
        in case collect_candidates sv root s fuel (foldl (\<lambda>acc r. add_once (fst r) acc) [] rows) of
            None \<Rightarrow> None
          | Some candidates \<Rightarrow>
              (case sweep_candidates sv root (js_sort (by_key path_depth) (filter (\<lambda>p. p \<noteq> []) candidates)) (rows, False) s of
                 None \<Rightarrow> None
               | Some (s1, rows1, changed) \<Rightarrow>
                   Some (if changed then lc_write_json sv (index_path root) (Index v rows1) s1 else s1)))"

fun sweep_roots :: "'s service \<Rightarrow> nat \<Rightarrow> jstr list \<Rightarrow> 's \<Rightarrow> 's option" where
  "sweep_roots sv fuel [] s = Some s"
| "sweep_roots sv fuel (r # rs) s = (case sweep_root sv fuel r s of None \<Rightarrow> None | Some s1 \<Rightarrow> sweep_roots sv fuel rs s1)"

definition sweep_all :: "'s service \<Rightarrow> nat \<Rightarrow> jstr list option \<Rightarrow> 's \<Rightarrow> 's option" where
  "sweep_all sv fuel roots s = (case roots of None \<Rightarrow> Some s | Some rs \<Rightarrow> sweep_roots sv fuel rs s)"

section \<open>Events\<close>

datatype file_event = Deleted jstr | Moved jstr "jstr option" | Other_operation

definition handle_operation :: "'s service \<Rightarrow> jstr list option \<Rightarrow> jstr \<Rightarrow> file_event \<Rightarrow> 's \<Rightarrow> 's option" where
  "handle_operation sv roots now e s =
     (case e of
        Deleted doc \<Rightarrow> handle_delete sv roots doc s
      | Moved source (Some target) \<Rightarrow> handle_move sv roots now source target s
      | _ \<Rightarrow> Some s)"

section \<open>Files at or below a path\<close>

lemma to_dec_digits: "c \<in> set (to_dec n) \<Longrightarrow> c \<in> set ''0123456789''"
proof -
  have "radix_digit d \<in> set ''0123456789''" if "d < 10" for d
  proof -
    have "d \<in> {0, 1, 2, 3, 4, 5, 6, 7, 8, 9}"
      using that by auto
    then show ?thesis
      by (auto simp: radix_digit_def)
  qed
  then show "c \<in> set (to_dec n) \<Longrightarrow> c \<in> set ''0123456789''"
    using radix_digits_bound [of 10 _ n] unfolding to_dec_def to_radix_def by auto
qed

lemma at_or_below_iff: "at_or_below p x \<longleftrightarrow> (\<exists>r. x = p @ r \<and> (r = [] \<or> (\<exists>r'. r = CHR ''/'' # r')))"
  unfolding at_or_below_def starts_with_iff by auto

lemma at_or_below_split:
  assumes "at_or_below p x"
  obtains r where "x = p @ r" "r = [] \<or> (\<exists>r'. r = CHR ''/'' # r')"
  using assms unfolding at_or_below_iff by blast

definition moved_view :: "jstr \<Rightarrow> jstr \<Rightarrow> (jstr \<Rightarrow> content option) \<Rightarrow> jstr \<Rightarrow> content option" where
  "moved_view p q m x =
     (if at_or_below q x then m (p @ drop (length q) x) else if at_or_below p x then None else m x)"

definition occupied :: "(jstr \<Rightarrow> content option) \<Rightarrow> jstr \<Rightarrow> bool" where
  "occupied m p \<longleftrightarrow> (\<exists>x. at_or_below p x \<and> m x \<noteq> None)"

text \<open>
  No file is lost between two views: there is a one-to-one renaming of the files outside \<open>I\<close>
  (the indexes) under which each holds what it held.
\<close>

definition none_lost :: "jstr set \<Rightarrow> (jstr \<Rightarrow> content option) \<Rightarrow> (jstr \<Rightarrow> content option) \<Rightarrow> bool" where
  "none_lost I m m' \<longleftrightarrow>
     (\<exists>f. inj_on f {x. m x \<noteq> None \<and> x \<notin> I} \<and> (\<forall>x. m x \<noteq> None \<and> x \<notin> I \<longrightarrow> f x \<notin> I \<and> m' (f x) = m x))"

lemma none_lost_refl [simp]: "none_lost I m m"
  unfolding none_lost_def by (rule exI [of _ id]) simp

lemma none_lost_trans:
  assumes "none_lost I m1 m2" "none_lost I m2 m3"
  shows "none_lost I m1 m3"
proof -
  obtain f where f: "inj_on f {x. m1 x \<noteq> None \<and> x \<notin> I}" "\<forall>x. m1 x \<noteq> None \<and> x \<notin> I \<longrightarrow> f x \<notin> I \<and> m2 (f x) = m1 x"
    using assms(1) unfolding none_lost_def by blast
  obtain g where g: "inj_on g {x. m2 x \<noteq> None \<and> x \<notin> I}" "\<forall>x. m2 x \<noteq> None \<and> x \<notin> I \<longrightarrow> g x \<notin> I \<and> m3 (g x) = m2 x"
    using assms(2) unfolding none_lost_def by blast
  have sub: "f ` {x. m1 x \<noteq> None \<and> x \<notin> I} \<subseteq> {x. m2 x \<noteq> None \<and> x \<notin> I}"
    using f(2) by auto
  have "inj_on (g \<circ> f) {x. m1 x \<noteq> None \<and> x \<notin> I}"
    using comp_inj_on [OF f(1)] g(1) sub inj_on_subset by blast
  moreover have "\<forall>x. m1 x \<noteq> None \<and> x \<notin> I \<longrightarrow> (g \<circ> f) x \<notin> I \<and> m3 ((g \<circ> f) x) = m1 x"
    using f(2) g(2) by simp
  ultimately show ?thesis
    unfolding none_lost_def by blast
qed

lemma none_lost_update: "p \<in> I \<Longrightarrow> none_lost I m (m(p \<mapsto> c))"
  unfolding none_lost_def by (rule exI [of _ id]) auto

lemma none_lost_move:
  assumes free: "\<not> occupied m q" and aside: "\<forall>i\<in>I. \<not> at_or_below q i"
  shows "none_lost I m (moved_view p q m)"
proof -
  have sep: "relocated p q x \<noteq> relocated p q y"
    if "m x \<noteq> None" "m y \<noteq> None" "x \<noteq> y" for x y
  proof -
    have nq: "\<not> at_or_below q x" "\<not> at_or_below q y"
      using free that(1,2) unfolding occupied_def by auto
    have to_q: "at_or_below q (q @ drop (length p) z)" if "at_or_below p z" for z
      using that by (auto simp: at_or_below_iff)
    show ?thesis
    proof (cases "at_or_below p x"; cases "at_or_below p y")
      assume "at_or_below p x" "at_or_below p y"
      then show ?thesis
        using that(3) by (auto simp: relocated_def at_or_below_iff)
    qed (use nq to_q that(3) in \<open>auto simp: relocated_def\<close>)
  qed
  have "moved_view p q m (relocated p q x) = m x \<and> relocated p q x \<notin> I" if "m x \<noteq> None" "x \<notin> I" for x
  proof (cases "at_or_below p x")
    case True
    then have "at_or_below q (q @ drop (length p) x)" "p @ drop (length p) x = x"
      by (auto simp: at_or_below_iff)
    then show ?thesis
      using True aside by (auto simp: moved_view_def relocated_def)
  next
    case False
    then show ?thesis
      using that free by (auto simp: moved_view_def relocated_def occupied_def)
  qed
  moreover have "inj_on (relocated p q) {x. m x \<noteq> None \<and> x \<notin> I}"
    using sep by (auto simp: inj_on_def)
  ultimately show ?thesis
    unfolding none_lost_def by blast
qed

lemma not_occupied_after_move:
  assumes "\<not> occupied m q" "\<not> occupied m r" "\<And>x. at_or_below q x \<Longrightarrow> \<not> at_or_below r x"
  shows "\<not> occupied (moved_view p q m) r"
  using assms unfolding occupied_def moved_view_def by (auto split: if_splits)

lemma orphans_apart: "at_or_below (orphaned_side root d) x \<Longrightarrow> \<not> at_or_below (orphaned_log root d) x"
  by (auto simp: at_or_below_iff lifecycle_paths)

lemma side_log_apart: "at_or_below (side_of root d) x \<Longrightarrow> \<not> at_or_below (log_of root d) x"
  by (auto simp: at_or_below_iff lifecycle_paths)

lemma orphans_not_index:
  "\<not> at_or_below (orphaned_side root d) (index_path root)" "\<not> at_or_below (orphaned_log root d) (index_path root)"
  by (auto simp: at_or_below_iff lifecycle_paths)

text \<open>What stranding does: nothing, or both moves to a name that was chosen.\<close>

definition strand_moves :: "'s service \<Rightarrow> jstr \<Rightarrow> jstr \<Rightarrow> which \<Rightarrow> jstr \<Rightarrow> 's \<Rightarrow> 's" where
  "strand_moves sv root rel w dest s =
     move_when sv (w \<noteq> Only_sidecar \<and> there sv s (log_of root rel)) (log_of root rel) (orphaned_log root dest)
       (move_when sv (w \<noteq> Only_logdir \<and> there sv s (side_of root rel)) (side_of root rel) (orphaned_side root dest) s)"

lemma strand_unfold:
  "strand sv root rel w s =
     (if \<not> (w \<noteq> Only_logdir \<and> there sv s (side_of root rel)) \<and> \<not> (w \<noteq> Only_sidecar \<and> there sv s (log_of root rel))
      then Some (s, False)
      else map_option (\<lambda>dest. (strand_moves sv root rel w dest s, True)) (unique_orphan sv s root rel))"
  unfolding strand_def Let_def strand_moves_def by (cases "unique_orphan sv s root rel") simp_all

lemma strand_result:
  assumes "strand sv root rel w s = Some (s', b)"
  shows "s' = s \<or> (\<exists>dest. unique_orphan sv s root rel = Some dest \<and> s' = strand_moves sv root rel w dest s)"
  using assms unfolding strand_unfold by (auto split: if_splits)

text \<open>A tree with room takes every move whose target is free and not inside its source.\<close>

definition room :: "'s service \<Rightarrow> ('s \<Rightarrow> jstr \<Rightarrow> content option) \<Rightarrow> bool" where
  "room sv view \<longleftrightarrow>
     (\<forall>s p q. occupied (view s) p \<and> \<not> occupied (view s) q \<and> \<not> at_or_below p q \<longrightarrow> svMove sv s p q \<noteq> None)"

text \<open>The name of a document that is none of the module's own under .studio/changes.\<close>

definition plain_rel :: "jstr \<Rightarrow> bool" where
  "plain_rel rel \<longleftrightarrow> rel \<noteq> ''index'' \<and> rel \<noteq> ''index.json'' \<and> \<not> in_subtree ''.orphaned'' rel"

lemma orphan_prefix:
  assumes "rel @ t = ''.orphaned/'' @ y" "\<not> in_subtree ''.orphaned'' rel"
  shows "hd t \<noteq> CHR ''/'' \<and> take 5 t \<noteq> ''.json'' \<and> t \<noteq> []"
proof -
  have "length rel < 10"
  proof (rule ccontr)
    assume "\<not> length rel < 10"
    then have "take 10 rel = take 10 (rel @ t)" by simp
    also have "\<dots> = ''.orphaned/''" unfolding assms(1) by simp
    finally have "rel = ''.orphaned/'' @ drop 10 rel" by (metis append_take_drop_id)
    then show False
      using assms(2) by (auto simp: in_subtree_def starts_with_iff)
  qed
  define n where "n = length rel"
  with \<open>length rel < 10\<close> have "n = 0 \<or> n = 1 \<or> n = 2 \<or> n = 3 \<or> n = 4 \<or> n = 5 \<or> n = 6 \<or> n = 7 \<or> n = 8 \<or> n = 9"
    by presburger
  then have n: "n \<in> {0, 1, 2, 3, 4, 5, 6, 7, 8, 9}"
    by blast
  have "rel = take n (''.orphaned/'' @ y)" "t = drop n (''.orphaned/'' @ y)"
    using arg_cong [OF assms(1), of "take n"] arg_cong [OF assms(1), of "drop n"] by (simp_all add: n_def)
  moreover have "rel \<noteq> ''.orphaned''"
    using assms(2) by (auto simp: in_subtree_def)
  ultimately show ?thesis
    using n by auto
qed

lemma plain_apart:
  assumes "plain_rel rel" "at_or_below (orphaned_side root d) x \<or> at_or_below (orphaned_log root d) x"
  shows "\<not> at_or_below (side_of root rel) x" "\<not> at_or_below (log_of root rel) x"
proof -
  obtain y where x: "x = root @ ''/.studio/changes/'' @ ''.orphaned/'' @ y"
    using assms(2) by (auto simp: at_or_below_iff orphaned_side_def orphaned_log_def ORPHANED_DIR_def CHANGES_DIR_def)
  have no: "\<not> in_subtree ''.orphaned'' rel"
    using assms(1) by (simp add: plain_rel_def)
  have "at_or_below (side_of root rel) x \<Longrightarrow> \<exists>t. rel @ (''.json'' @ t) = ''.orphaned/'' @ y"
    by (auto simp: at_or_below_iff side_of_def CHANGES_DIR_def x)
  then show "\<not> at_or_below (side_of root rel) x"
    using orphan_prefix [OF _ no] by fastforce
  have "at_or_below (log_of root rel) x \<Longrightarrow> \<exists>t. rel @ t = ''.orphaned/'' @ y \<and> (t = [] \<or> hd t = CHR ''/'')"
    by (auto simp: at_or_below_iff log_of_def CHANGES_DIR_def x)
  then show "\<not> at_or_below (log_of root rel) x"
    using orphan_prefix [OF _ no] by blast
qed

lemma plain_off_index:
  assumes "plain_rel rel"
  shows "\<not> at_or_below (side_of root rel) (index_path root)" "\<not> at_or_below (log_of root rel) (index_path root)"
  using assms by (auto simp: plain_rel_def at_or_below_iff lifecycle_paths append_eq_append_conv2 append_eq_Cons_conv Cons_eq_append_conv)

definition paths_apart :: "jstr list \<Rightarrow> bool" where
  "paths_apart = sorted_wrt (\<lambda>p q. \<not> at_or_below p q \<and> \<not> at_or_below q p)"

lemma below_chain: "at_or_below p x \<Longrightarrow> at_or_below q x \<Longrightarrow> at_or_below p q \<or> at_or_below q p"
  unfolding at_or_below_iff append_eq_append_conv2 by (auto simp: append_eq_append_conv2 append_eq_Cons_conv Cons_eq_append_conv)

lemma below_length: "at_or_below p x \<Longrightarrow> length p \<le> length x"
  by (auto simp: at_or_below_iff)

lemma head_segment:
  "hd (split_on (CHR ''/'') r) = r \<or> (\<exists>z. r = hd (split_on (CHR ''/'') r) @ CHR ''/'' # z)"
proof -
  have "join ''/'' (split_on (CHR ''/'') r) = r"
    by simp
  then show ?thesis
    by (cases "split_on (CHR ''/'') r"; cases "tl (split_on (CHR ''/'') r)") (auto simp: join_Cons)
qed

lemma rebase_below: "at_or_below q x \<Longrightarrow> at_or_below p (p @ drop (length q) x)"
  by (auto simp: at_or_below_iff)

section \<open>A file service with directories\<close>

locale sound_tree = sound_files sv view for sv :: "'s service" and view :: "'s \<Rightarrow> jstr \<Rightarrow> content option" +
  assumes exists_tree: "svExists sv s p = Some (occupied (view s) p)"
    and finite_files: "finite {p. view s p \<noteq> None}"
    and moved: "svMove sv s p q = Some s' \<Longrightarrow> \<not> occupied (view s) q \<Longrightarrow>
      \<not> at_or_below p q \<and> view s' = moved_view p q (view s)"
begin

lemma there_iff: "there sv s p \<longleftrightarrow> occupied (view s) p"
  by (simp add: there_def exists_tree)

lemma taken_iff: "taken sv s root c \<longleftrightarrow> occupied (view s) (orphaned_side root c) \<or> occupied (view s) (orphaned_log root c)"
  by (simp add: taken_def there_iff)

lemma view_write: "view (lc_write_json sv p c s) = (view s)(p \<mapsto> c)"
  using create_new [of s p c] by (auto simp: lc_write_json_def written created split: option.splits)

lemma view_move_when:
  assumes "\<not> occupied (view s) q"
  shows "view (move_when sv b p q s) = view s \<or>
    view (move_when sv b p q s) = moved_view p q (view s)"
  using moved [OF _ assms] by (auto simp: move_when_def move_quietly_def split: option.splits)

lemma move_keeps:
  assumes "\<not> occupied (view s) q" "\<forall>i\<in>I. \<not> at_or_below q i"
  shows "none_lost I (view s) (view (move_when sv b p q s))"
  using view_move_when [OF assms(1), of b p] none_lost_move [OF assms] by auto

lemma strand_keeps:
  assumes "strand sv root rel w s = Some (s', b)"
    and aside: "\<forall>i\<in>I. \<forall>d. \<not> at_or_below (orphaned_side root d) i \<and> \<not> at_or_below (orphaned_log root d) i"
    and free: "\<And>dest. unique_orphan sv s root rel = Some dest \<Longrightarrow> \<not> taken sv s root dest"
  shows "none_lost I (view s) (view s')"
proof -
  consider "s' = s" | dest where "unique_orphan sv s root rel = Some dest" "s' = strand_moves sv root rel w dest s"
    using strand_result [OF assms(1)] by blast
  then show ?thesis
  proof cases
    case 2
    define s1 where "s1 = move_when sv (w \<noteq> Only_logdir \<and> there sv s (side_of root rel))
        (side_of root rel) (orphaned_side root dest) s"
    have free1: "\<not> occupied (view s) (orphaned_side root dest)" "\<not> occupied (view s) (orphaned_log root dest)"
      using free [OF 2(1)] by (simp_all add: taken_iff)
    have "\<not> occupied (view s1) (orphaned_log root dest)"
      using view_move_when [OF free1(1)] free1(2) not_occupied_after_move [OF free1 orphans_apart]
      unfolding s1_def by metis
    then have "none_lost I (view s1) (view s')"
      unfolding 2(2) strand_moves_def s1_def [symmetric] by (rule move_keeps) (use aside in blast)
    moreover have "none_lost I (view s) (view s1)"
      unfolding s1_def by (rule move_keeps [OF free1(1)]) (use aside in blast)
    ultimately show ?thesis
      by (rule none_lost_trans [rotated])
  qed simp
qed

lemma taken_spells:
  assumes "taken sv s root (rel @ ''~'' @ to_dec k)" "b = root @ ''/'' @ ORPHANED_DIR @ ''/'' @ rel @ ''~''"
  shows "to_dec k \<in> (\<lambda>x. takeWhile (\<lambda>c. c \<in> set ''0123456789'') (drop (length b) x)) ` {x. view s x \<noteq> None}"
proof -
  obtain x where x: "view s x \<noteq> None"
    "at_or_below (orphaned_side root (rel @ ''~'' @ to_dec k)) x \<or> at_or_below (orphaned_log root (rel @ ''~'' @ to_dec k)) x"
    using assms(1) unfolding taken_iff occupied_def by blast
  obtain t where t: "x = b @ to_dec k @ t" "t = [] \<or> hd t \<notin> set ''0123456789''"
    using x(2) by (auto simp: at_or_below_iff orphaned_side_def orphaned_log_def assms(2))
  have "takeWhile (\<lambda>c. c \<in> set ''0123456789'') (to_dec k @ t) = to_dec k @ takeWhile (\<lambda>c. c \<in> set ''0123456789'') t"
    by (rule takeWhile_append2) (use to_dec_digits [of _ k] in blast)
  also have "takeWhile (\<lambda>c. c \<in> set ''0123456789'') t = []"
    using t(2) by (cases t) auto
  finally have "takeWhile (\<lambda>c. c \<in> set ''0123456789'') (drop (length b) x) = to_dec k"
    by (simp add: t(1))
  with x(1) show ?thesis
    by (metis (mono_tags, lifting) image_eqI mem_Collect_eq)
qed

lemma free_name_from: "\<exists>k\<ge>n. \<not> taken sv s root (rel @ ''~'' @ to_dec k)"
proof (rule ccontr)
  assume "\<not> ?thesis"
  then have "to_dec ` {n..} \<subseteq> (\<lambda>x. takeWhile (\<lambda>c. c \<in> set ''0123456789'')
      (drop (length (root @ ''/'' @ ORPHANED_DIR @ ''/'' @ rel @ ''~'')) x)) ` {x. view s x \<noteq> None}"
    using taken_spells [OF _ refl] by auto
  then have "finite (to_dec ` {n..})"
    using finite_files finite_subset by blast
  then have "finite {n..}"
    by (rule finite_imageD) (auto intro: inj_onI to_dec_inj)
  then show False
    using infinite_Ici by blast
qed

lemma orphan_search_ends:
  assumes "k \<ge> n" "\<not> taken sv s root (rel @ ''~'' @ to_dec k)"
  shows "\<exists>c. orphan_from sv s root rel n c0 = Some c \<and> \<not> taken sv s root c \<and> (c = c0 \<or> (\<exists>j. c = rel @ ''~'' @ to_dec j))"
  using assms
proof (induction "k - n" arbitrary: n c0)
  case 0
  then have "k = n" by simp
  show ?case
  proof (cases "taken sv s root c0")
    case True
    then have "orphan_from sv s root rel n c0 = Some (rel @ ''~'' @ to_dec n)"
      using 0(3) \<open>k = n\<close> by (simp add: orphan_from.simps [of sv s root rel n] orphan_from.simps [of sv s root rel "Suc n"])
    then show ?thesis
      using 0(3) \<open>k = n\<close> by blast
  qed (simp add: orphan_from.simps)
next
  case (Suc d)
  show ?case
  proof (cases "taken sv s root c0")
    case True
    have "d = k - Suc n" "Suc n \<le> k"
      using Suc.hyps(2) by simp_all
    from Suc.hyps(1) [OF this Suc.prems(2), of "rel @ ''~'' @ to_dec n"] True show ?thesis
      by (auto simp: orphan_from.simps [of sv s root rel n])
  qed (simp add: orphan_from.simps)
qed

lemma unique_orphan_ok:
  "\<exists>c. unique_orphan sv s root rel = Some c \<and> \<not> taken sv s root c \<and> (c = rel \<or> (\<exists>j. c = rel @ ''~'' @ to_dec j))"
  using free_name_from [of 1] orphan_search_ends unfolding unique_orphan_def by blast

lemma strand_returns: "\<exists>s' b. strand sv root rel w s = Some (s', b)"
  using unique_orphan_ok [of s root rel] by (auto simp: strand_unfold)

lemma strand_safe:
  assumes "strand sv root rel w s = Some (s', b)"
    and aside: "\<forall>i\<in>I. \<forall>d. \<not> at_or_below (orphaned_side root d) i \<and> \<not> at_or_below (orphaned_log root d) i"
  shows "none_lost I (view s) (view s')"
  using strand_keeps [OF assms] unique_orphan_ok [of s root rel] by force

lemma drop_index_keeps:
  assumes "index_path root \<in> I"
  shows "none_lost I (view s) (view (drop_index_subtree sv root rel s))"
  using none_lost_update [OF assms] by (auto simp: drop_index_subtree_def view_write split: option.splits content.splits)

lemma transplant_keeps:
  assumes "index_path old_root \<in> I" "index_path new_root \<in> I"
  shows "none_lost I (view s) (view (transplant sv now old_root old_rel new_root new_rel side s))"
proof -
  have w: "none_lost I (view t) (view (lc_write_json sv (index_path new_root) c t))" for t c
    by (simp add: view_write none_lost_update assms(2))
  show ?thesis
    using none_lost_trans [OF drop_index_keeps [OF assms(1)] w] w drop_index_keeps [OF assms(1)]
    by (simp add: transplant_def Let_def split_beta)
qed

lemma move_sidecar_keeps:
  assumes "move_sidecar sv old_root old_rel dest_side had s = Some (s', b)"
    "\<forall>i\<in>I. \<not> at_or_below dest_side i"
    and aside: "\<forall>i\<in>I. \<forall>d. \<not> at_or_below (orphaned_side old_root d) i \<and> \<not> at_or_below (orphaned_log old_root d) i"
  shows "none_lost I (view s) (view s')"
proof (cases "had \<and> \<not> there sv s dest_side")
  case True
  then have "s' = move_when sv True (side_of old_root old_rel) dest_side s"
    using assms(1) by (simp add: move_sidecar_def move_when_def)
  then show ?thesis
    using move_keeps [OF _ assms(2)] True by (simp add: there_iff)
next
  case False
  then show ?thesis
    using assms(1) strand_safe [OF _ aside] by (auto simp: move_sidecar_def split: if_splits)
qed

lemma move_log_keeps:
  assumes "move_log sv old_root old_rel dest_log had s = Some s'"
    "\<forall>i\<in>I. \<not> at_or_below dest_log i"
    and aside: "\<forall>i\<in>I. \<forall>d. \<not> at_or_below (orphaned_side old_root d) i \<and> \<not> at_or_below (orphaned_log old_root d) i"
  shows "none_lost I (view s) (view s')"
proof (cases "had \<and> \<not> there sv s dest_log")
  case True
  then have "s' = move_when sv True (log_of old_root old_rel) dest_log s"
    using assms(1) by (simp add: move_log_def move_when_def)
  then show ?thesis
    using move_keeps [OF _ assms(2)] True by (simp add: there_iff)
next
  case False
  then show ?thesis
    using assms(1) strand_safe [OF _ aside] by (auto simp: move_log_def split: if_splits)
qed

lemma move_parts_return:
  "\<exists>s' b. move_sidecar sv old_root old_rel dest_side had s = Some (s', b)"
  "\<exists>s'. move_log sv old_root old_rel dest_log had s = Some s'"
  using strand_returns [of old_root old_rel Only_sidecar s] strand_returns [of old_root old_rel Only_logdir s]
  by (auto simp: move_sidecar_def move_log_def move_quietly_def split: option.splits)

lemma handle_move_keeps:
  assumes roots: "lc_root roots source = root" "lc_root roots target = root"
    and name: "rel_path root target \<noteq> ''index''" "rel_path root target \<noteq> ''index.json''"
  shows "\<exists>s'. handle_move sv roots now source target s = Some s' \<and> none_lost {index_path root} (view s) (view s')"
proof -
  define old_rel new_rel where "old_rel = rel_path root source" and "new_rel = rel_path root target"
  define hs hl where "hs = there sv s (side_of root old_rel)" and "hl = there sv s (log_of root old_rel)"
  have aside: "\<forall>i\<in>{index_path root}. \<forall>d. \<not> at_or_below (orphaned_side root d) i \<and> \<not> at_or_below (orphaned_log root d) i"
    using orphans_not_index by blast
  have dest: "\<forall>i\<in>{index_path root}. \<not> at_or_below (side_of root new_rel) i"
    "\<forall>i\<in>{index_path root}. \<not> at_or_below (log_of root new_rel) i"
    using name by (auto simp: at_or_below_iff lifecycle_paths new_rel_def append_eq_append_conv2 append_eq_Cons_conv Cons_eq_append_conv)
  obtain s1 b where s1: "move_sidecar sv root old_rel (side_of root new_rel) hs s = Some (s1, b)"
    using move_parts_return(1) by blast
  obtain s2 where s2: "move_log sv root old_rel (log_of root new_rel) hl s1 = Some s2"
    using move_parts_return(2) by blast
  define s3 where "s3 = (if b then transplant sv now root old_rel root new_rel (side_of root new_rel) s2
                          else if hs then drop_index_subtree sv root old_rel s2 else s2)"
  have "none_lost {index_path root} (view s) (view s2)"
    using none_lost_trans [OF move_sidecar_keeps [OF s1 dest(1) aside] move_log_keeps [OF s2 dest(2) aside]] .
  moreover have "none_lost {index_path root} (view s2) (view s3)"
    using transplant_keeps [of root "{index_path root}" root] drop_index_keeps [of root "{index_path root}"]
    by (simp add: s3_def)
  ultimately have "none_lost {index_path root} (view s) (view s3)"
    by (rule none_lost_trans)
  moreover have "handle_move sv roots now source target s = Some s \<or> handle_move sv roots now source target s = Some s3"
    unfolding handle_move_def roots Let_def old_rel_def [symmetric] new_rel_def [symmetric] hs_def [symmetric] hl_def [symmetric]
      s1 s2 option.case prod.case s3_def by auto
  ultimately show ?thesis
    using none_lost_refl by metis
qed

lemma handle_delete_keeps:
  assumes "lc_root roots doc = root"
  shows "\<exists>s'. handle_delete sv roots doc s = Some s' \<and> none_lost {index_path root} (view s) (view s')"
proof -
  define rel where "rel = rel_path root doc"
  obtain s1 b where s1: "strand sv root rel Both s = Some (s1, b)"
    using strand_returns by blast
  have "none_lost {index_path root} (view s) (view s1)"
    by (rule strand_safe [OF s1]) (use orphans_not_index in blast)
  then have "none_lost {index_path root} (view s) (view (drop_index_subtree sv root rel s1))"
    using none_lost_trans drop_index_keeps by blast
  moreover have "handle_delete sv roots doc s = Some s \<or>
      handle_delete sv roots doc s = Some (drop_index_subtree sv root rel s1)"
    by (simp add: handle_delete_def assms Let_def rel_def [symmetric] s1)
  ultimately show ?thesis
    using none_lost_refl by metis
qed

text \<open>Moving when there is something to move is moving: nothing moves nothing.\<close>

lemma view_move_when_there:
  assumes free: "\<not> occupied (view s) q" and apart: "\<not> at_or_below p q" and room: "room sv view"
  shows "view (move_when sv (there sv s p) p q s) = moved_view p q (view s)"
proof (cases "there sv s p")
  case True
  then obtain s' where s': "svMove sv s p q = Some s'"
    using room free apart unfolding room_def there_iff by blast
  then show ?thesis
    using moved [OF s' free] True by (simp add: move_when_def move_quietly_def)
next
  case False
  then have "moved_view p q (view s) x = view s x" for x
    using free rebase_below [of q x p] by (auto simp: there_iff occupied_def moved_view_def)
  then have "moved_view p q (view s) = view s"
    by (rule ext)
  with False show ?thesis
    by (simp add: move_when_def)
qed

lemma strand_both:
  assumes room: "room sv view" and plain: "plain_rel rel"
  shows "\<exists>s' b dest. strand sv root rel Both s = Some (s', b) \<and>
    view s' = moved_view (log_of root rel) (orphaned_log root dest)
      (moved_view (side_of root rel) (orphaned_side root dest) (view s))"
proof -
  obtain dest where dest: "unique_orphan sv s root rel = Some dest" "\<not> taken sv s root dest"
    using unique_orphan_ok [of s root rel] by blast
  then have free: "\<not> occupied (view s) (orphaned_side root dest)" "\<not> occupied (view s) (orphaned_log root dest)"
    by (simp_all add: taken_iff)
  have apart: "\<not> at_or_below (side_of root rel) (orphaned_side root dest)"
    "\<not> at_or_below (log_of root rel) (orphaned_log root dest)"
    using plain_apart [OF plain] at_or_below_refl by blast+
  define s1 where "s1 = move_when sv (there sv s (side_of root rel)) (side_of root rel) (orphaned_side root dest) s"
  define s2 where "s2 = move_when sv (there sv s (log_of root rel)) (log_of root rel) (orphaned_log root dest) s1"
  have v1: "view s1 = moved_view (side_of root rel) (orphaned_side root dest) (view s)"
    unfolding s1_def by (rule view_move_when_there [OF free(1) apart(1) room])
  have "there sv s (log_of root rel) = there sv s1 (log_of root rel)"
    using plain_apart [OF plain] side_log_apart unfolding there_iff v1 occupied_def moved_view_def by (metis (no_types))
  moreover have "\<not> occupied (view s1) (orphaned_log root dest)"
    unfolding v1 by (rule not_occupied_after_move [OF free orphans_apart])
  ultimately have v2: "view s2 = moved_view (log_of root rel) (orphaned_log root dest) (view s1)"
    unfolding s2_def using view_move_when_there [OF _ apart(2) room] by simp
  show ?thesis
  proof (cases "there sv s (side_of root rel) \<or> there sv s (log_of root rel)")
    case True
    then have "strand sv root rel Both s = Some (s2, True)"
      by (auto simp: strand_unfold strand_moves_def dest(1) s1_def s2_def)
    then show ?thesis
      using v1 v2 by metis
  next
    case False
    then have "strand sv root rel Both s = Some (s, False)" "s2 = s"
      by (simp_all add: strand_unfold s1_def s2_def move_when_def)
    then show ?thesis
      using v1 v2 by metis
  qed
qed

lemma read_view: "lc_read_json sv s p None = (case view s p of Some (Document t) \<Rightarrow> None | c \<Rightarrow> c)"
  using exists_file [of s p] by (auto simp: lc_read_json_def read split: option.splits content.splits)

lemma view_drop_index:
  "view (drop_index_subtree sv root rel s) =
     (case view s (index_path root) of
        Some (Index v rows) \<Rightarrow> (view s)(index_path root \<mapsto> Index v (filter (\<lambda>r. \<not> in_subtree rel (fst r)) rows))
      | _ \<Rightarrow> view s)"
proof (cases "\<exists>v rows. view s (index_path root) = Some (Index v rows)")
  case True
  then obtain v rows where ix: "view s (index_path root) = Some (Index v rows)" by blast
  show ?thesis
  proof (cases "list_ex (\<lambda>r. in_subtree rel (fst r)) rows")
    case False
    then have "filter (\<lambda>r. \<not> in_subtree rel (fst r)) rows = rows"
      by (auto simp: list_ex_iff intro: filter_True)
    with False ix show ?thesis
      by (simp add: drop_index_subtree_def read_view fun_upd_idem)
  qed (simp add: drop_index_subtree_def read_view ix view_write)
next
  case False
  then show ?thesis
    by (auto simp: drop_index_subtree_def read_view split: option.splits content.splits)
qed

lemma stranded_view:
  assumes plain: "plain_rel rel"
    and v: "v' = moved_view (log_of root rel) (orphaned_log root dest)
      (moved_view (side_of root rel) (orphaned_side root dest) m)"
  shows "\<not> occupied v' (side_of root rel)" "\<not> occupied v' (log_of root rel)"
    "at_or_below (side_of root rel) x \<Longrightarrow> v' (relocated (side_of root rel) (orphaned_side root dest) x) = m x"
    "at_or_below (log_of root rel) x \<Longrightarrow> v' (relocated (log_of root rel) (orphaned_log root dest) x) = m x"
    "v' (index_path root) = m (index_path root)"
proof -
  have gone: "v' x = None" if "at_or_below (side_of root rel) x \<or> at_or_below (log_of root rel) x" for x
    using plain_apart [OF plain, of root dest x] side_log_apart [of root rel x] that
    by (auto simp: v moved_view_def)
  show "\<not> occupied v' (side_of root rel)" "\<not> occupied v' (log_of root rel)"
    using gone by (auto simp: occupied_def)
  show "v' (relocated (side_of root rel) (orphaned_side root dest) x) = m x" if b: "at_or_below (side_of root rel) x"
  proof -
    define y where "y = orphaned_side root dest @ drop (length (side_of root rel)) x"
    have y: "at_or_below (orphaned_side root dest) y"
      unfolding y_def by (rule rebase_below [OF b])
    have "side_of root rel @ drop (length (side_of root rel)) x = x"
      using b by (auto simp: at_or_below_iff)
    then show ?thesis
      using y orphans_apart [OF y] plain_apart(2) [OF plain disjI1 [OF y]] b
      unfolding relocated_def y_def [symmetric] v moved_view_def by (simp add: y_def)
  qed
  show "v' (relocated (log_of root rel) (orphaned_log root dest) x) = m x" if b: "at_or_below (log_of root rel) x"
  proof -
    define y where "y = orphaned_log root dest @ drop (length (log_of root rel)) x"
    have y: "at_or_below (orphaned_log root dest) y"
      unfolding y_def by (rule rebase_below [OF b])
    have x: "log_of root rel @ drop (length (log_of root rel)) x = x"
      using b by (auto simp: at_or_below_iff)
    have "\<not> at_or_below (orphaned_side root dest) x" "\<not> at_or_below (side_of root rel) x"
      using plain_apart(2) [OF plain] side_log_apart b by blast+
    then show ?thesis
      using y b x unfolding relocated_def y_def [symmetric] v moved_view_def by (simp add: y_def)
  qed
  show "v' (index_path root) = m (index_path root)"
    using orphans_not_index plain_off_index [OF plain] by (simp add: v moved_view_def)
qed

lemma read_index_view: "index_rows (lc_read_json sv s p (Some (Index 1 []))) = index_rows (view s p)"
  using exists_file [of s p]
  by (auto simp: lc_read_json_def read index_rows_def split: option.splits content.splits)

lemma moved_two:
  assumes apart: "paths_apart [p, l, p', l', i]" and v: "v = moved_view l l' (moved_view p p' m)"
  shows "\<not> occupied v p" "\<not> occupied v l" "v p' = m p" "v i = m i"
    "at_or_below l x \<Longrightarrow> v (relocated l l' x) = m x"
proof -
  have off: "\<not> (at_or_below a x \<and> at_or_below b x)"
    if "(a, b) \<in> {(p, l), (p, p'), (p, l'), (l, p'), (l, l'), (p', l')}" for a b x
    using below_chain [of a x b] apart that by (auto simp: paths_apart_def)
  have none: "v x = None" if "at_or_below p x \<or> at_or_below l x" for x
    using that off [of p l x] off [of p p' x] off [of p l' x] off [of l l' x] by (auto simp: v moved_view_def)
  show "\<not> occupied v p" "\<not> occupied v l"
    using none by (auto simp: occupied_def)
  show "v p' = m p"
    using off [of l p' p'] off [of p' l' p'] by (simp add: v moved_view_def)
  show "v i = m i"
    using apart by (simp add: v moved_view_def paths_apart_def)
  show "v (relocated l l' x) = m x" if b: "at_or_below l x"
  proof -
    have "at_or_below l' (l' @ drop (length l) x)" "l @ drop (length l) x = x"
      using rebase_below [OF b] b by (auto simp: at_or_below_iff)
    then show ?thesis
      using b off [of p l x] off [of l p' x] by (simp add: relocated_def v moved_view_def)
  qed
qed

lemma view_transplant:
  assumes "view s side = Some (Sidecar ps)" "ps' = filter is_unresolved ps" "k = index_path root"
  shows "\<exists>v rows. view (transplant sv now root old root new side s) = (view s)(k \<mapsto> Index v rows) \<and>
    (\<forall>x. map_of rows x = (if x = new \<and> changes_pending ps' > 0
        then Some \<lparr>ixPending = changes_pending ps', ixProposals = length ps', ixUpdatedAt = now\<rparr>
        else if x = old then None else map_of (snd (index_rows (view s k))) x))"
proof -
  have rd: "lc_read_json sv s side None = Some (Sidecar ps)"
    by (simp add: read_view assms(1))
  define row where "row = \<lparr>ixPending = changes_pending ps', ixProposals = length ps', ixUpdatedAt = now\<rparr>"
  define rows where "rows = (if changes_pending ps' > 0
    then AList.update new row (AList.delete old (snd (index_rows (view s k)))) else AList.delete old (snd (index_rows (view s k))))"
  have "view (transplant sv now root old root new side s) = (view s)(k \<mapsto> Index (fst (index_rows (view s k))) rows)"
    unfolding transplant_def Let_def rd option.case content.case assms(2,3) [symmetric] split_beta read_index_view
      row_def [symmetric] rows_def [symmetric] view_write if_P [OF refl] by (rule refl)
  moreover have "\<forall>x. map_of rows x = (if x = new \<and> changes_pending ps' > 0 then Some row
        else if x = old then None else map_of (snd (index_rows (view s k))) x)"
    by (simp add: rows_def update_conv' delete_conv')
  ultimately show ?thesis
    unfolding row_def by blast
qed

lemma handle_move_carries:
  assumes room: "room sv view"
    and docs: "lc_root roots source = root" "lc_root roots target = root"
      "rel_path root source = old" "rel_path root target = new" "old \<noteq> []" "new \<noteq> []" "old \<noteq> new"
      "\<not> is_inside_changes old" "\<not> is_inside_changes new"
    and apart: "paths_apart [side_of root old, log_of root old, side_of root new, log_of root new, index_path root]"
    and work: "view s (side_of root old) = Some (Sidecar ps)"
    and free: "\<not> there sv s (side_of root new)" "\<not> there sv s (log_of root new)"
  shows "\<exists>s2. view s2 = moved_view (log_of root old) (log_of root new) (moved_view (side_of root old) (side_of root new) (view s)) \<and>
    handle_move sv roots now source target s = Some (transplant sv now root old root new (side_of root new) s2)"
proof -
  have occ: "there sv s (side_of root old)"
    unfolding there_iff occupied_def using work by (auto intro!: exI [of _ "side_of root old"])
  have ap: "\<not> at_or_below (side_of root old) (side_of root new)" "\<not> at_or_below (log_of root old) (log_of root new)"
    "\<And>x. at_or_below (side_of root new) x \<Longrightarrow> \<not> at_or_below (log_of root new) x"
    using apart side_log_apart by (auto simp: paths_apart_def)
  obtain s1 where mv: "svMove sv s (side_of root old) (side_of root new) = Some s1"
    using room occ free(1) ap(1) unfolding room_def there_iff by blast
  have v1: "view s1 = moved_view (side_of root old) (side_of root new) (view s)"
    using moved [OF mv] free(1) by (simp add: there_iff)
  have free2: "\<not> occupied (view s1) (log_of root new)"
    unfolding v1 using free ap(3) by (intro not_occupied_after_move) (simp_all add: there_iff)
  have same: "there sv s (log_of root old) = there sv s1 (log_of root old)"
    using side_log_apart [of root old] below_chain [of "log_of root old" _ "side_of root new"] apart
    unfolding there_iff occupied_def v1 moved_view_def paths_apart_def by auto
  define s2 where "s2 = move_when sv (there sv s1 (log_of root old)) (log_of root old) (log_of root new) s1"
  have v2: "view s2 = moved_view (log_of root old) (log_of root new) (view s1)"
    unfolding s2_def by (rule view_move_when_there [OF free2 ap(2) room])
  have "move_sidecar sv root old (side_of root new) True s = Some (s1, True)"
    using mv free(1) by (simp add: move_sidecar_def move_quietly_def)
  moreover have "move_log sv root old (log_of root new) (there sv s (log_of root old)) s1 = Some s2"
    using free2 unfolding same move_log_def s2_def move_when_def by (simp add: there_iff)
  ultimately have "handle_move sv roots now source target s = Some (transplant sv now root old root new (side_of root new) s2)"
    using docs occ by (simp add: handle_move_def)
  then show ?thesis
    using v1 v2 by metis
qed

lemma children_occupied:
  assumes "\<And>p st b d. svStat sv s p = Some st \<Longrightarrow> (b, d) \<in> set (stChildren st) \<Longrightarrow> occupied (view s) (p @ ''/'' @ b)"
  shows "\<forall>c\<in>set (children_of sv s dir). occupied (view s) (dir @ ''/'' @ fst c)"
proof
  fix c assume "c \<in> set (children_of sv s dir)"
  moreover from this obtain st where st: "svStat sv s dir = Some st"
    by (cases "svStat sv s dir") (simp_all add: children_of_def resolve_maybe_def)
  ultimately have "(fst c, snd c) \<in> set (stChildren st)"
    by (simp add: children_of_def resolve_maybe_def split: if_splits)
  then show "occupied (view s) (dir @ ''/'' @ fst c)"
    by (rule assms [OF st])
qed

lemma walk_ends:
  assumes stat: "\<And>p st b d. svStat sv s p = Some st \<Longrightarrow> (b, d) \<in> set (stChildren st) \<Longrightarrow> occupied (view s) (p @ ''/'' @ b)"
    and long: "\<And>x. view s x \<noteq> None \<Longrightarrow> length x \<le> n"
  shows "\<forall>c\<in>set cs. occupied (view s) (dir @ ''/'' @ fst c) \<Longrightarrow> n \<le> length dir + fuel \<Longrightarrow>
    \<exists>acc'. walk_changes sv root s fuel dir pre cs acc = Some acc'"
proof (induction fuel arbitrary: dir pre cs acc)
  case fuel: 0
  have "\<not> occupied (view s) (dir @ ''/'' @ b)" for b
  proof
    assume "occupied (view s) (dir @ ''/'' @ b)"
    then obtain x where x: "view s x \<noteq> None" "at_or_below (dir @ ''/'' @ b) x"
      unfolding occupied_def by blast
    show False
      using long [OF x(1)] below_length [OF x(2)] fuel.prems(2) by simp
  qed
  then have "cs = []"
    using fuel.prems(1) by (cases cs) auto
  then show ?case by simp
next
  case fuel: (Suc f)
  note outer = fuel.IH and size = fuel.prems(2)
  show ?case
    using fuel.prems(1)
  proof (induction cs arbitrary: acc)
    case (Cons c cs)
    obtain base isDir where c: "c = (base, isDir)" by (cases c)
    define rel where "rel = (if pre = [] then base else pre @ ''/'' @ base)"
    have "\<forall>c\<in>set (children_of sv s (dir @ ''/'' @ base)). occupied (view s) ((dir @ ''/'' @ base) @ ''/'' @ fst c)"
      by (rule children_occupied [OF stat])
    then have "\<exists>acc1. walk_changes sv root s f (dir @ ''/'' @ base) rel (children_of sv s (dir @ ''/'' @ base)) acc = Some acc1"
      by (rule outer) (use size in simp)
    then obtain acc1 where
      acc1: "walk_changes sv root s f (dir @ ''/'' @ base) rel (children_of sv s (dir @ ''/'' @ base)) acc = Some acc1"
      by blast
    have rest: "\<exists>acc'. walk_changes sv root s (Suc f) dir pre cs a = Some acc'" for a
      using Cons by simp
    show ?case
      unfolding c walk_changes.simps Let_def rel_def [symmetric] acc1 option.case nat.case
      using rest by (cases "pre = []") simp_all
  qed simp
qed

lemma sweep_candidates_safe:
  assumes aside: "\<forall>i\<in>I. \<forall>d. \<not> at_or_below (orphaned_side root d) i \<and> \<not> at_or_below (orphaned_log root d) i"
  shows "\<exists>s' ix'. sweep_candidates sv root rels ix s = Some (s', ix') \<and> none_lost I (view s) (view s')"
proof (induction rels arbitrary: ix s)
  case (Cons rel rels)
  show ?case
  proof (cases "there sv s (doc_of root rel)")
    case False
    obtain s1 b where s1: "strand sv root rel Both s = Some (s1, b)"
      using strand_returns by blast
    have "none_lost I (view s) (view s1)"
      by (rule strand_safe [OF s1 aside])
    moreover obtain s2 ix2 where s2: "sweep_candidates sv root rels
        (if rel \<in> fst ` set (fst ix) then (AList.delete rel (fst ix), True) else ix) s1 = Some (s2, ix2)"
      "none_lost I (view s1) (view s2)"
      using Cons.IH by blast
    ultimately have "none_lost I (view s) (view s2)"
      by (metis none_lost_trans)
    moreover have "sweep_candidates sv root (rel # rels) ix s = Some (s2, ix2)"
      unfolding sweep_candidates.simps s1 option.case prod.case if_not_P [OF False] by (rule s2(1))
    ultimately show ?thesis
      by blast
  qed (use Cons in simp)
qed simp

lemma sweep_root_safe:
  assumes stat: "\<And>p st b d. svStat sv s p = Some st \<Longrightarrow> (b, d) \<in> set (stChildren st) \<Longrightarrow> occupied (view s) (p @ ''/'' @ b)"
    and long: "\<And>x. view s x \<noteq> None \<Longrightarrow> length x \<le> fuel"
  shows "\<exists>s'. sweep_root sv fuel root s = Some s' \<and> none_lost {index_path root} (view s) (view s')"
proof (cases "there sv s (changes_dir_of root)")
  case True
  define v rows where "v = fst (index_rows (lc_read_json sv s (index_path root) (Some (Index 1 []))))"
    and "rows = snd (index_rows (lc_read_json sv s (index_path root) (Some (Index 1 []))))"
  have below: "\<forall>c\<in>set (children_of sv s (changes_dir_of root)). occupied (view s) (changes_dir_of root @ ''/'' @ fst c)"
    by (rule children_occupied [OF stat])
  have "\<exists>cands. collect_candidates sv root s fuel (foldl (\<lambda>acc r. add_once (fst r) acc) [] rows) = Some cands"
    unfolding collect_candidates_def by (rule walk_ends [OF _ _ below, of fuel]) (blast intro: stat long le_add2)+
  then obtain cands where cands: "collect_candidates sv root s fuel (foldl (\<lambda>acc r. add_once (fst r) acc) [] rows) = Some cands"
    by blast
  have aside: "\<forall>i\<in>{index_path root}. \<forall>d. \<not> at_or_below (orphaned_side root d) i \<and> \<not> at_or_below (orphaned_log root d) i"
    using orphans_not_index by blast
  obtain s1 ix where "sweep_candidates sv root (js_sort (by_key path_depth) (filter (\<lambda>p. p \<noteq> []) cands)) (rows, False) s = Some (s1, ix)"
    "none_lost {index_path root} (view s) (view s1)"
    using sweep_candidates_safe [OF aside] by blast
  then obtain rows1 changed where s1:
    "sweep_candidates sv root (js_sort (by_key path_depth) (filter (\<lambda>p. p \<noteq> []) cands)) (rows, False) s = Some (s1, rows1, changed)"
    "none_lost {index_path root} (view s) (view s1)"
    by (cases ix) auto
  have "sweep_root sv fuel root s =
      Some (if changed then lc_write_json sv (index_path root) (Index v rows1) s1 else s1)"
    using True cands s1(1) by (simp add: sweep_root_def split_beta v_def rows_def)
  moreover have "none_lost {index_path root} (view s1) (view (lc_write_json sv (index_path root) (Index v rows1) s1))"
    by (simp add: view_write none_lost_update)
  ultimately show ?thesis
    using s1(2) none_lost_trans by auto
qed (simp add: sweep_root_def)

end

section \<open>The disk has directories\<close>

lemma relocated_iff:
  assumes "\<not> at_or_below q k"
  shows "relocated p q k = y \<longleftrightarrow> (if at_or_below q y then k = p @ drop (length q) y else \<not> at_or_below p y \<and> k = y)"
  using assms unfolding relocated_def at_or_below_iff by auto

lemma map_of_relocated:
  assumes "\<forall>f\<in>set s. \<not> at_or_below q (fst f)"
  shows "map_of (map (\<lambda>f. (relocated p q (fst f), snd f)) s) y = moved_view p q (map_of s) y"
  using assms
proof (induction s)
  case (Cons f s)
  have "relocated p q (fst f) = y \<longleftrightarrow>
      (if at_or_below q y then fst f = p @ drop (length q) y else \<not> at_or_below p y \<and> fst f = y)"
    using Cons.prems by (intro relocated_iff) simp
  moreover have "map_of (map (\<lambda>f. (relocated p q (fst f), snd f)) (f # s)) y =
      (if relocated p q (fst f) = y then Some (snd f) else moved_view p q (map_of s) y)"
    using Cons by auto
  moreover have "moved_view p q (map_of (f # s)) y =
      (if (if at_or_below q y then fst f = p @ drop (length q) y else \<not> at_or_below p y \<and> fst f = y)
       then Some (snd f) else moved_view p q (map_of s) y)"
    by (auto simp: moved_view_def)
  ultimately show ?case
    by (simp only:)
qed (simp add: moved_view_def)

lemma occupied_disk: "occupied (map_of s) p \<longleftrightarrow> list_ex (\<lambda>f. at_or_below p (fst f)) s"
  unfolding occupied_def list_ex_iff map_of_eq_None_iff by force

interpretation disk_tree: sound_tree disk_service map_of
proof unfold_locales
  show "svExists disk_service s p = Some (occupied (map_of s) p)" for s p
    by (simp add: disk_service_def occupied_disk)
  show "finite {p. map_of s p \<noteq> None}" for s :: disk
    using finite_dom_map_of [of s] by (simp add: dom_def)
  show "\<not> at_or_below p q \<and> map_of s' = moved_view p q (map_of s)"
    if "svMove disk_service s p q = Some s'" "\<not> occupied (map_of s) q" for s p q s'
  proof -
    have "\<not> at_or_below p q" "s' = map (\<lambda>f. (relocated p q (fst f), snd f)) s"
      using that(1) by (auto simp: disk_service_def split: if_splits)
    moreover have "\<forall>f\<in>set s. \<not> at_or_below q (fst f)"
      using that(2) by (simp add: occupied_disk list_ex_iff)
    ultimately show ?thesis
      using map_of_relocated by (intro conjI ext) auto
  qed
qed

section \<open>Properties\<close>

text \<open>
  C24: the search for a name under .orphaned always ends, at a name neither of whose places is
  in use: the path of the document, or the path with a number.
\<close>

theorem orphan_name_found:
  assumes "sound_tree sv view"
  shows "\<exists>c. unique_orphan sv s root rel = Some c \<and>
    \<not> there sv s (orphaned_side root c) \<and> \<not> there sv s (orphaned_log root c) \<and>
    (c = rel \<or> (\<exists>j. c = rel @ ''~'' @ to_dec j))"
  using sound_tree.unique_orphan_ok [OF assms, of s root rel] by (auto simp: taken_def)

lemma orphan_name_found_witness:
  "\<exists>c. unique_orphan disk_service demo_disk ''/w'' ''a'' = Some c"
  using orphan_name_found [OF disk_tree.sound_tree_axioms, of demo_disk "''/w''" "''a''"] by blast



text \<open>
  Deleting a document, where moves succeed, leaves nothing of its pending work where the
  stores look for it: the proposals and the suggestions stand under one new name in .orphaned
  with everything they held, and the index keeps exactly the rows outside the deleted path.
\<close>

theorem deletion_strands_work:
  assumes tree: "sound_tree sv view" "room sv view"
    and doc: "lc_root roots doc = root" "rel_path root doc = rel" "rel \<noteq> []" "\<not> is_inside_changes rel" "plain_rel rel"
      "\<not> there sv s doc"
  shows "\<exists>s' dest. handle_delete sv roots doc s = Some s' \<and>
    \<not> there sv s' (side_of root rel) \<and> \<not> there sv s' (log_of root rel) \<and>
    (\<forall>x. at_or_below (side_of root rel) x \<longrightarrow>
       view s' (relocated (side_of root rel) (orphaned_side root dest) x) = view s x) \<and>
    (\<forall>x. at_or_below (log_of root rel) x \<longrightarrow>
       view s' (relocated (log_of root rel) (orphaned_log root dest) x) = view s x) \<and>
    (\<forall>v rows. view s (index_path root) = Some (Index v rows) \<longrightarrow>
       view s' (index_path root) = Some (Index v (filter (\<lambda>r. \<not> in_subtree rel (fst r)) rows)))"
proof -
  obtain s1 b dest where s1: "strand sv root rel Both s = Some (s1, b)"
    "view s1 = moved_view (log_of root rel) (orphaned_log root dest)
      (moved_view (side_of root rel) (orphaned_side root dest) (view s))"
    using sound_tree.strand_both [OF tree(1,2) doc(5)] by blast
  define s2 where "s2 = drop_index_subtree sv root rel s1"
  note ends = sound_tree.stranded_view [OF tree(1) doc(5) s1(2)]
  have at: "view s2 x = view s1 x" if "x \<noteq> index_path root" for x
    using that by (auto simp: s2_def sound_tree.view_drop_index [OF tree(1)] split: option.splits content.splits)
  have run: "handle_delete sv roots doc s = Some s2"
    using doc by (simp add: handle_delete_def s1(1) s2_def)
  have off: "\<not> at_or_below (side_of root rel) (index_path root)" "\<not> at_or_below (log_of root rel) (index_path root)"
    using plain_off_index [OF doc(5)] by blast+
  have free: "\<not> occupied (view s2) (side_of root rel)" "\<not> occupied (view s2) (log_of root rel)"
    using ends(1,2) at off unfolding occupied_def by metis+
  have "view s2 (relocated (side_of root rel) (orphaned_side root dest) x) = view s x" if "at_or_below (side_of root rel) x" for x
    using ends(3) [OF that] at orphans_not_index that rebase_below [OF that] unfolding relocated_def by metis
  moreover have "view s2 (relocated (log_of root rel) (orphaned_log root dest) x) = view s x" if "at_or_below (log_of root rel) x" for x
    using ends(4) [OF that] at orphans_not_index that rebase_below [OF that] unfolding relocated_def by metis
  moreover have "view s2 (index_path root) = Some (Index v (filter (\<lambda>r. \<not> in_subtree rel (fst r)) rows))"
    if "view s (index_path root) = Some (Index v rows)" for v rows
    using that by (simp add: s2_def sound_tree.view_drop_index [OF tree(1)] ends(5))
  ultimately show ?thesis
    using run free unfolding sound_tree.there_iff [OF tree(1)] by blast
qed

lemma disk_room: "room disk_service map_of"
  unfolding room_def occupied_disk by (auto simp: disk_service_def)

text \<open>
  Renaming a document, where moves succeed and nothing is in the way, takes its proposals
  and suggestions along unchanged, leaves nothing under the old name, and rewrites the index:
  the old row goes, the new one has the number of undecided hunks, the others stay.
\<close>

theorem rename_carries_work:
  assumes tree: "sound_tree sv view" "room sv view"
    and docs: "lc_root roots source = root" "lc_root roots target = root"
      "rel_path root source = old" "rel_path root target = new" "old \<noteq> []" "new \<noteq> []" "old \<noteq> new"
      "\<not> is_inside_changes old" "\<not> is_inside_changes new"
    and apart: "paths_apart [side_of root old, log_of root old, side_of root new, log_of root new, index_path root]"
    and work: "view s (side_of root old) = Some (Sidecar ps)" "open = filter is_unresolved ps"
    and free: "\<not> there sv s (side_of root new)" "\<not> there sv s (log_of root new)"
  shows "\<exists>s' v rows. handle_move sv roots now source target s = Some s' \<and>
    view s' (side_of root new) = Some (Sidecar ps) \<and>
    (\<forall>x. at_or_below (log_of root old) x \<longrightarrow> view s' (relocated (log_of root old) (log_of root new) x) = view s x) \<and>
    \<not> there sv s' (side_of root old) \<and> \<not> there sv s' (log_of root old) \<and>
    view s' (index_path root) = Some (Index v rows) \<and>
    (\<forall>x. map_of rows x =
      (if x = new \<and> changes_pending open > 0
       then Some \<lparr>ixPending = changes_pending open, ixProposals = length open, ixUpdatedAt = now\<rparr>
       else if x = old then None else map_of (snd (index_rows (view s (index_path root)))) x))"
proof -
  define k where "k = index_path root"
  obtain s2 where v2: "view s2 = moved_view (log_of root old) (log_of root new) (moved_view (side_of root old) (side_of root new) (view s))"
    and run: "handle_move sv roots now source target s = Some (transplant sv now root old root new (side_of root new) s2)"
    using sound_tree.handle_move_carries [OF tree(1,2) docs apart work(1) free] by blast
  note at = sound_tree.moved_two [OF tree(1) apart v2]
  define s3 where "s3 = transplant sv now root old root new (side_of root new) s2"
  have "view s2 (side_of root new) = Some (Sidecar ps)"
    by (simp add: at(3) work(1))
  from sound_tree.view_transplant [OF tree(1) this work(2) k_def, of now old new]
  obtain v rows where s3: "view s3 = (view s2)(k \<mapsto> Index v rows)"
    "\<forall>x. map_of rows x =
      (if x = new \<and> changes_pending open > 0
       then Some \<lparr>ixPending = changes_pending open, ixProposals = length open, ixUpdatedAt = now\<rparr>
       else if x = old then None else map_of (snd (index_rows (view s2 k))) x)"
    unfolding s3_def by blast
  have off: "\<not> at_or_below (side_of root old) k" "\<not> at_or_below (log_of root old) k" "side_of root new \<noteq> k"
    "\<not> at_or_below (log_of root new) k"
    using apart by (auto simp: paths_apart_def k_def)
  have "view s3 (side_of root new) = Some (Sidecar ps)"
    using off(3) at(3) work(1) by (simp add: s3(1))
  moreover have "view s3 (relocated (log_of root old) (log_of root new) x) = view s x" if b: "at_or_below (log_of root old) x" for x
    using at(5) [OF b] rebase_below [OF b, of "log_of root new"] off(4) b
    by (auto simp: s3(1) relocated_def)
  moreover have "\<not> there sv s3 (side_of root old)" "\<not> there sv s3 (log_of root old)"
    using at(1,2) off(1,2) unfolding sound_tree.there_iff [OF tree(1)] occupied_def s3(1) by (auto split: if_splits)
  moreover have "view s2 k = view s k"
    using at(4) by (simp add: k_def)
  ultimately show ?thesis
    using run s3 unfolding s3_def [symmetric] k_def [symmetric] by (intro exI [of _ s3] exI [of _ v] exI [of _ rows]) auto
qed

text \<open>
  With fuel for the longest path, the sweep of a workspace root ends, however directories
  are nested, and loses no file: what it strands keeps its content under a name of its own.
\<close>

theorem sweep_ends_safely:
  assumes "sound_tree sv view"
    and "\<forall>p st b d. svStat sv s p = Some st \<and> (b, d) \<in> set (stChildren st) \<longrightarrow> occupied (view s) (p @ ''/'' @ b)"
    and "\<forall>x. view s x \<noteq> None \<longrightarrow> length x \<le> fuel"
  shows "\<exists>s'. sweep_root sv fuel root s = Some s' \<and> none_lost {index_path root} (view s) (view s')"
  by (rule sound_tree.sweep_root_safe [OF assms(1)]) (use assms(2,3) in blast)+

lemma disk_children:
  assumes "svStat disk_service s p = Some st" "(b, d) \<in> set (stChildren st)"
  shows "occupied (map_of s) (p @ ''/'' @ b)"
proof -
  obtain f where f: "f \<in> set s" "fst f \<noteq> p" "at_or_below p (fst f)"
    "b = hd (split_on (CHR ''/'') (drop (length p + 1) (fst f)))"
    using assms by (auto simp: disk_service_def Let_def split: if_splits)
  then obtain r where r: "fst f = p @ ''/'' @ r" "b = hd (split_on (CHR ''/'') r)"
    by (auto simp: at_or_below_iff)
  have "at_or_below (p @ ''/'' @ b) (fst f)"
    using head_segment [of r] r by (auto simp: at_or_below_iff)
  then show ?thesis
    unfolding occupied_disk list_ex_iff using f(1) by blast
qed

section \<open>Three ways pending work is misplaced\<close>

text \<open>
  A document or folder named index shares the path of its sidecar with the index of the
  workspace: deleting it moves the index away, with the rows of every other document.
\<close>

lemma index_document_strands_index:
  "map_option (\<lambda>s. map_of s ''/w/.studio/changes/index.json'')
     (handle_delete disk_service (Some [''/w'']) ''/w/index'' demo_disk) = Some None"
  by code_simp

text \<open>When the move of a sidecar fails, the row of the old path goes although the work is still there.\<close>

lemma failed_move_drops_row:
  "map_option (\<lambda>s. (map_of s ''/w/.studio/changes/a.json'' = map_of demo_disk ''/w/.studio/changes/a.json'',
       map_of (snd (index_rows (map_of s ''/w/.studio/changes/index.json''))) ''a''))
     (handle_move (disk_service\<lparr>svMove := \<lambda>s p q. None\<rparr>) (Some [''/w'']) ''u'' ''/w/a'' ''/w/d'' demo_disk) = Some (True, None)"
  by code_simp

text \<open>Renaming a folder moves the suggestions below it, but the rows of its documents stay as they were.\<close>

lemma folder_rename_keeps_rows:
  "map_option (\<lambda>s. (map_of s ''/w/.studio/changes/n/b.json'' \<noteq> None,
       map_of (snd (index_rows (map_of s ''/w/.studio/changes/index.json''))) ''m/b'' \<noteq> None))
     (handle_move disk_service (Some [''/w'']) ''u'' ''/w/m'' ''/w/n''
        [(''/w/n/b'', Document ''y''), (''/w/.studio/changes/m/b.json'', Sidecar []),
         (''/w/.studio/changes/index.json'', Index 1 [(''m/b'', \<lparr>ixPending = 1, ixProposals = 1, ixUpdatedAt = ''t''\<rparr>)])])
   = Some (True, True)"
  by code_simp

end
