(* ===== verification/Section_Move.thy ===== *)
theory Section_Move
  imports Quality_Identity
begin

text \<open>
  browser/quality-move.js (with \<open>sectionLeaf\<close> of quality-anchor.js): moving a section from
  one document to another as a pair of proposals. Documents as lines with their line ending,
  headings outside code fences, the one heading a breadcrumb names, the section under it, and
  the two new bodies. The sentences of a refusal are a datatype. The theorems are that joining
  undoes splitting, that the section found is the one under the only heading that matches, that
  a move loses no line of either document, and that it refuses whatever it is not sure of.
\<close>

section \<open>Documents as lines\<close>

fun doc_eol_from :: "char option \<Rightarrow> jstr \<Rightarrow> jstr" where
  "doc_eol_from prev [] = [LF]"
| "doc_eol_from prev (c # r) = (if c = LF then (if prev = Some CR then [CR, LF] else [LF]) else doc_eol_from (Some c) r)"

definition doc_eol :: "jstr \<Rightarrow> jstr" where
  "doc_eol body = doc_eol_from None body"

text \<open>\<open>split('\r\n')\<close>.\<close>

fun split_crlf :: "jstr \<Rightarrow> jstr list" where
  "split_crlf [] = [[]]"
| "split_crlf [c] = [[c]]"
| "split_crlf (c # d # r) =
     (if c = CR \<and> d = LF then [] # split_crlf r
      else case split_crlf (d # r) of l # ls \<Rightarrow> (c # l) # ls | [] \<Rightarrow> [[c]])"

definition split_eol :: "jstr \<Rightarrow> jstr \<Rightarrow> jstr list" where
  "split_eol eol t = (if eol = [CR, LF] then split_crlf t else split_on LF t)"

record md_doc =
  dLines :: "jstr list"
  dEol :: jstr
  dTrailing :: bool

definition split_document :: "jstr \<Rightarrow> md_doc" where
  "split_document t =
     (let eol = doc_eol t; trailing = ends_with t eol
      in if t = [] then \<lparr>dLines = [], dEol = eol, dTrailing = False\<rparr>
         else \<lparr>dLines = split_eol eol (if trailing then take (length t - length eol) t else t),
               dEol = eol, dTrailing = trailing\<rparr>)"

definition join_document :: "jstr list \<Rightarrow> jstr \<Rightarrow> bool \<Rightarrow> jstr" where
  "join_document ls eol trailing = (let body = join eol ls in if trailing then body @ eol else body)"

section \<open>Headings\<close>

record heading =
  hLevel :: nat
  hText :: jstr
  hLine :: nat

text \<open>\<open>.\<close> matches no line terminator, so a text with one is never matched to the end by \<open>.*\<close>.\<close>

definition dot_text :: "jstr \<Rightarrow> bool" where
  "dot_text t = (CR \<notin> set t \<and> LF \<notin> set t)"

definition strip_end :: "(char \<Rightarrow> bool) \<Rightarrow> jstr \<Rightarrow> jstr" where
  "strip_end P t = rev (dropWhile P (rev t))"

text \<open>\<open>/^ {0,3}/\<close>: what follows up to three spaces; None when a fourth follows.\<close>

definition after_indent :: "jstr \<Rightarrow> jstr option" where
  "after_indent line =
     (let n = length (takeWhile (\<lambda>c. c = CHR '' '') line) in if n \<le> 3 then Some (drop n line) else None)"

definition is_hash :: "char \<Rightarrow> bool" where
  "is_hash c = (c = CHR ''#'')"

text \<open>The level and the text of a heading line: \<open>(#{1,6})\s+(.*?)\s*#*\s*$\<close>.\<close>

definition heading_of :: "jstr \<Rightarrow> (nat \<times> jstr) option" where
  "heading_of line =
     (case after_indent line of None \<Rightarrow> None
      | Some r \<Rightarrow>
          (let n = length (takeWhile is_hash r); rest = drop n r;
               txt = strip_end is_space (strip_end is_hash (strip_end is_space (dropWhile is_space rest)))
           in if 1 \<le> n \<and> n \<le> 6 \<and> rest \<noteq> [] \<and> is_space (hd rest) \<and> dot_text txt
              then Some (n, js_trim txt) else None))"

record fence =
  fMarker :: char
  fLength :: nat
  fRest :: jstr

definition fence_opener :: "jstr \<Rightarrow> fence option" where
  "fence_opener line =
     (case after_indent line of None \<Rightarrow> None
      | Some [] \<Rightarrow> None
      | Some (m # r) \<Rightarrow>
          (let n = length (takeWhile (\<lambda>c. c = m) (m # r)); rest = drop n (m # r)
           in if (m = CHR ''`'' \<or> m = CHR ''~'') \<and> 3 \<le> n \<and> dot_text rest
              then Some \<lparr>fMarker = m, fLength = n, fRest = rest\<rparr> else None))"

definition closes :: "fence \<Rightarrow> fence \<Rightarrow> bool" where
  "closes opened c = (fMarker c = fMarker opened \<and> fLength opened \<le> fLength c \<and> js_trim (fRest c) = [])"

fun headings_from :: "fence option \<Rightarrow> nat \<Rightarrow> jstr list \<Rightarrow> heading list" where
  "headings_from f i [] = []"
| "headings_from (Some opened) i (l # ls) =
     headings_from (case fence_opener l of Some c \<Rightarrow> (if closes opened c then None else Some opened) | None \<Rightarrow> Some opened) (i + 1) ls"
| "headings_from None i (l # ls) =
     (case fence_opener l of
        Some opened \<Rightarrow> headings_from (Some opened) (i + 1) ls
      | None \<Rightarrow>
          (case heading_of l of
             Some (n, t) \<Rightarrow> \<lparr>hLevel = n, hText = t, hLine = i\<rparr> # headings_from None (i + 1) ls
           | None \<Rightarrow> headings_from None (i + 1) ls))"

definition extract_headings :: "jstr list \<Rightarrow> heading list" where
  "extract_headings ls = headings_from None 0 ls"

section \<open>The heading a breadcrumb names\<close>

definition crumbs :: "jstr \<Rightarrow> jstr list" where
  "crumbs sectionPath = filter (\<lambda>p. p \<noteq> []) (map js_trim (split_on (CHR ''>'') sectionPath))"

definition section_leaf :: "jstr \<Rightarrow> jstr" where
  "section_leaf sectionPath = (let parts = crumbs sectionPath in if parts \<noteq> [] then last parts else js_trim sectionPath)"

datatype heading_match = One heading | Ambiguous nat | Missing

definition settle :: "heading list \<Rightarrow> heading_match" where
  "settle hs = (case hs of [h] \<Rightarrow> One h | _ \<Rightarrow> Ambiguous (length hs))"

text \<open>The last stage: the longest suffix of at least two segments that some heading reads as.\<close>

fun suffix_stage :: "heading list \<Rightarrow> jstr list \<Rightarrow> nat \<Rightarrow> heading_match" where
  "suffix_stage hs segments 0 = Missing"
| "suffix_stage hs segments (Suc n) =
     (if Suc n < 2 then Missing
      else
        let joined = normalize_text (join '' '' (drop (length segments - Suc n) segments));
            found = filter (\<lambda>h. normalize_text (hText h) = joined) hs
        in if joined \<noteq> [] \<and> found \<noteq> [] then settle found else suffix_stage hs segments n)"

definition match_section_heading :: "heading list \<Rightarrow> jstr \<Rightarrow> jstr \<Rightarrow> heading_match" where
  "match_section_heading hs sectionPath leaf =
     (let exact = filter (\<lambda>h. hText h = leaf) hs; nleaf = normalize_text leaf;
          normalized = filter (\<lambda>h. normalize_text (hText h) = nleaf) hs; segments = crumbs sectionPath
      in if exact \<noteq> [] then settle exact
         else if nleaf \<noteq> [] \<and> normalized \<noteq> [] then settle normalized
         else suffix_stage hs segments (length segments))"

section \<open>The section\<close>

datatype move_refusal = Not_purpose | No_paths | Same_document | No_section_named | Ambiguous_heading nat
  | No_heading | No_content | Duplicate_heading

record cut =
  cHeading :: heading
  cDoc :: md_doc
  cStart :: nat
  cEnd :: nat
  cLines :: "jstr list"

definition section_end :: "heading list \<Rightarrow> heading \<Rightarrow> nat \<Rightarrow> nat" where
  "section_end hs h n_lines =
     (case List.find (\<lambda>c. hLine h < hLine c \<and> hLevel c \<le> hLevel h) hs of Some c \<Rightarrow> hLine c | None \<Rightarrow> n_lines)"

definition is_blank :: "jstr \<Rightarrow> bool" where
  "is_blank line = (js_trim line = [])"

definition locate_section :: "jstr \<Rightarrow> jstr \<Rightarrow> move_refusal + cut" where
  "locate_section body sectionPath =
     (let leaf = section_leaf sectionPath; doc = split_document body; hs = extract_headings (dLines doc)
      in if leaf = [] then Inl No_section_named
         else case match_section_heading hs sectionPath leaf of
             Ambiguous n \<Rightarrow> Inl (Ambiguous_heading n)
           | Missing \<Rightarrow> Inl No_heading
           | One h \<Rightarrow>
               (let e = section_end hs h (length (dLines doc))
                in if list_all is_blank (js_slice (dLines doc) (hLine h + 1) e) then Inl No_content
                   else Inr \<lparr>cHeading = h, cDoc = doc, cStart = hLine h + 1, cEnd = e,
                             cLines = js_slice (dLines doc) (hLine h) e\<rparr>))"

section \<open>The move\<close>

definition slug_keeps :: "char \<Rightarrow> bool" where
  "slug_keeps c = (is_word_char c \<or> c = CHR ''-'' \<or> c = CHR '' '')"

fun space_runs :: "bool \<Rightarrow> jstr \<Rightarrow> jstr" where
  "space_runs inRun [] = []"
| "space_runs inRun (c # r) =
     (if \<not> is_space c then c # space_runs False r
      else if inRun then space_runs True r else CHR ''-'' # space_runs True r)"

definition slugify :: "jstr \<Rightarrow> jstr" where
  "slugify t = space_runs False (filter slug_keeps (js_trim (map js_lower t)))"

definition path_base :: "jstr \<Rightarrow> jstr" where
  "path_base p = last (split_on (CHR ''/'') p)"

definition MOVED_FROM_PREFIX :: jstr where
  "MOVED_FROM_PREFIX = ''Moved from ''"

definition reference_line :: "jstr \<Rightarrow> jstr \<Rightarrow> jstr" where
  "reference_line targetPath t =
     (let name = path_base targetPath in ''Moved to ['' @ name @ ''](''@ name @ ''#'' @ slugify t @ '').'')"

record move_plan =
  mSource :: jstr
  mRemoved :: "heading \<times> nat \<times> nat"
  mTarget :: jstr
  mInsertedAt :: nat

definition lines_after_cut :: "cut \<Rightarrow> jstr \<Rightarrow> jstr list" where
  "lines_after_cut c ref =
     (let after = drop (cEnd c) (dLines (cDoc c));
          needsGap = (after \<noteq> [] \<and> \<not> is_blank (hd after))
      in take (hLine (cHeading c)) (dLines (cDoc c)) @ (if needsGap then [ref, []] else [ref]) @ after)"

definition addition_head :: "md_doc \<Rightarrow> heading list \<Rightarrow> jstr \<Rightarrow> jstr list" where
  "addition_head target hs sourcePath =
     (let t = MOVED_FROM_PREFIX @ sourcePath
      in (if dLines target \<noteq> [] then [[]] else []) @
         (if list_ex (\<lambda>h. hLevel h = 2 \<and> hText h = t) hs then [] else [''## '' @ t, []]))"

definition plan_move :: "(jstr \<times> anchor list) option \<Rightarrow> jstr \<Rightarrow> jstr \<Rightarrow> jstr \<Rightarrow> jstr \<Rightarrow> move_refusal + move_plan" where
  "plan_move finding sourceBody targetBody sourcePath targetPath =
     (case finding of None \<Rightarrow> Inl Not_purpose
      | Some (rul, anchors) \<Rightarrow>
          if rul \<noteq> ''purpose'' then Inl Not_purpose
          else if sourcePath = [] \<or> targetPath = [] then Inl No_paths
          else if sourcePath = targetPath then Inl Same_document
          else case anchors of [] \<Rightarrow> Inl No_section_named
            | a # _ \<Rightarrow>
                if anSection a = [] then Inl No_section_named
                else case locate_section sourceBody (anSection a) of Inl e \<Rightarrow> Inl e
                  | Inr c \<Rightarrow>
                      (let target = split_document targetBody; hs = extract_headings (dLines target);
                           ref = reference_line targetPath (hText (cHeading c));
                           addition = addition_head target hs sourcePath
                       in if list_ex (\<lambda>h. hText h = hText (cHeading c)) hs then Inl Duplicate_heading
                          else Inr \<lparr>mSource = join_document (lines_after_cut c ref) (dEol (cDoc c)) (dTrailing (cDoc c)),
                                    mRemoved = (cHeading c, cStart c, cEnd c),
                                    mTarget = join_document (dLines target @ addition @ cLines c) (dEol target) (dTrailing target),
                                    mInsertedAt = length (dLines target) + length addition + 1\<rparr>))"

section \<open>Splitting and joining\<close>

lemma split_crlf_ne [simp]: "split_crlf s \<noteq> []"
  by (induction s rule: split_crlf.induct) (auto split: list.splits)

lemma join_split_crlf [simp]: "join [CR, LF] (split_crlf s) = s"
proof (induction s rule: split_crlf.induct)
  case (3 c d r)
  show ?case
  proof (cases "c = CR \<and> d = LF")
    case True
    then show ?thesis
      using 3(1) by (simp add: join_Cons)
  next
    case False
    obtain l ls where ls: "split_crlf (d # r) = l # ls"
      by (cases "split_crlf (d # r)") auto
    with False 3(2) show ?thesis
      by (cases ls) (auto simp: join_Cons)
  qed
qed simp_all

lemma doc_eol_cases: "doc_eol t = [LF] \<or> doc_eol t = [CR, LF]"
proof -
  have "doc_eol_from prev t = [LF] \<or> doc_eol_from prev t = [CR, LF]" for prev
    by (induction prev t rule: doc_eol_from.induct) auto
  then show ?thesis
    by (simp add: doc_eol_def)
qed

lemma join_split_eol: "join (doc_eol t) (split_eol (doc_eol t) s) = s"
  using doc_eol_cases [of t] by (auto simp: split_eol_def)

section \<open>Headings stand where they are said to\<close>

definition heading_at :: "jstr list \<Rightarrow> nat \<Rightarrow> heading \<Rightarrow> bool" where
  "heading_at ls i h \<longleftrightarrow> i \<le> hLine h \<and> hLine h < i + length ls \<and> heading_of (ls ! (hLine h - i)) = Some (hLevel h, hText h)"

lemma heading_at_Cons:
  assumes "heading_at ls (Suc i) h"
  shows "heading_at (l # ls) i h"
proof -
  have "Suc i \<le> hLine h"
    using assms by (simp add: heading_at_def)
  then have "hLine h - i = Suc (hLine h - Suc i)"
    by linarith
  then show ?thesis
    using assms by (simp add: heading_at_def)
qed

lemma headings_from_at: "h \<in> set (headings_from f i ls) \<Longrightarrow> heading_at ls i h"
proof (induction f i ls rule: headings_from.induct)
  case (3 i l ls)
  then show ?case
    by (auto split: option.splits intro: heading_at_Cons) (auto simp: heading_at_def)
qed (auto intro: heading_at_Cons split: option.splits if_splits)

lemma headings_from_sorted: "sorted_wrt (<) (map hLine (headings_from f i ls))"
proof (induction f i ls rule: headings_from.induct)
  case (3 i l ls)
  have "i < hLine h" if "h \<in> set (headings_from None (i + 1) ls)" for h
    using headings_from_at [OF that] by (simp add: heading_at_def)
  then show ?case
    using 3 by (auto split: option.splits)
qed auto

lemma extract_headings_at:
  "h \<in> set (extract_headings ls) \<Longrightarrow> hLine h < length ls \<and> heading_of (ls ! hLine h) = Some (hLevel h, hText h)"
  using headings_from_at [of h None 0 ls] by (simp add: extract_headings_def heading_at_def)

section \<open>The section found\<close>

text \<open>The one heading of a stage: exact, equal but for case and punctuation, or the end of the breadcrumb.\<close>

definition sole_heading :: "heading list \<Rightarrow> jstr \<Rightarrow> heading \<Rightarrow> bool" where
  "sole_heading hs sectionPath h \<longleftrightarrow>
     (let leaf = section_leaf sectionPath in
        filter (\<lambda>g. hText g = leaf) hs = [h] \<or>
        (\<forall>g\<in>set hs. hText g \<noteq> leaf) \<and>
          (filter (\<lambda>g. normalize_text (hText g) = normalize_text leaf) hs = [h] \<or>
           (\<exists>n\<ge>2. n \<le> length (crumbs sectionPath) \<and>
              filter (\<lambda>g. normalize_text (hText g) =
                normalize_text (join '' '' (drop (length (crumbs sectionPath) - n) (crumbs sectionPath)))) hs = [h])))"

lemma settle_One: "settle hs = One h \<longleftrightarrow> hs = [h]"
  by (auto simp: settle_def split: list.splits)

lemma suffix_stage_One:
  "suffix_stage hs segs n = One h \<Longrightarrow> \<exists>k\<ge>2. k \<le> n \<and>
     filter (\<lambda>g. normalize_text (hText g) = normalize_text (join '' '' (drop (length segs - k) segs))) hs = [h]"
proof (induction n)
  case (Suc n)
  show ?case
  proof (cases "2 \<le> Suc n \<and> normalize_text (join '' '' (drop (length segs - Suc n) segs)) \<noteq> [] \<and>
      filter (\<lambda>g. normalize_text (hText g) = normalize_text (join '' '' (drop (length segs - Suc n) segs))) hs \<noteq> []")
    case True
    then show ?thesis
      using Suc.prems by (intro exI [of _ "Suc n"]) (simp add: Let_def settle_One)
  next
    case False
    then have "suffix_stage hs segs n = One h"
      using Suc.prems by (auto simp: Let_def split: if_splits)
    then show ?thesis
      using Suc.IH le_SucI by blast
  qed
qed simp

lemma match_One: "match_section_heading hs path (section_leaf path) = One h \<Longrightarrow> sole_heading hs path h"
  using suffix_stage_One [of hs "crumbs path" "length (crumbs path)" h]
  unfolding match_section_heading_def sole_heading_def Let_def
  by (auto simp: settle_One filter_empty_conv split: if_splits)

lemma filter_sole: "filter P xs = [x] \<Longrightarrow> x \<in> set xs"
  by (drule arg_cong [of _ _ set]) auto

lemma sole_heading_in: "sole_heading hs path h \<Longrightarrow> h \<in> set hs"
  unfolding sole_heading_def Let_def by (elim disjE conjE exE) (erule filter_sole)+

lemma find_first:
  assumes "sorted_wrt (<) (map hLine hs)" "List.find P hs = Some c"
  shows "c \<in> set hs \<and> P c \<and> (\<forall>g\<in>set hs. hLine g < hLine c \<longrightarrow> \<not> P g)"
  using assms by (induction hs) (auto split: if_splits)

lemma section_end_spec:
  assumes sorted: "sorted_wrt (<) (map hLine hs)" and bound: "\<forall>g\<in>set hs. hLine g < n" and h: "h \<in> set hs"
  shows "hLine h < section_end hs h n \<and> section_end hs h n \<le> n \<and>
    (\<forall>g\<in>set hs. hLine h < hLine g \<and> hLine g < section_end hs h n \<longrightarrow> hLevel h < hLevel g) \<and>
    (section_end hs h n = n \<or> (\<exists>g\<in>set hs. hLine g = section_end hs h n \<and> hLevel g \<le> hLevel h))"
proof (cases "List.find (\<lambda>c. hLine h < hLine c \<and> hLevel c \<le> hLevel h) hs")
  case None
  then have "\<forall>g\<in>set hs. hLine h < hLine g \<longrightarrow> hLevel h < hLevel g"
    by (auto simp: find_None_iff)
  with None bound h show ?thesis
    by (simp add: section_end_def)
next
  case (Some c)
  with find_first [OF sorted Some] bound show ?thesis
    by (fastforce simp: section_end_def)
qed

lemma locate_section_ok:
  assumes "locate_section body path = Inr c"
  shows "cDoc c = split_document body" "sole_heading (extract_headings (dLines (cDoc c))) path (cHeading c)"
    "cEnd c = section_end (extract_headings (dLines (cDoc c))) (cHeading c) (length (dLines (cDoc c)))"
    "cStart c = hLine (cHeading c) + 1" "cLines c = js_slice (dLines (cDoc c)) (hLine (cHeading c)) (cEnd c)"
    "\<exists>l\<in>set (js_slice (dLines (cDoc c)) (hLine (cHeading c) + 1) (cEnd c)). \<not> is_blank l"
  using assms match_One
  by (auto simp: locate_section_def Let_def list_all_iff split: if_splits heading_match.splits)

section \<open>Properties\<close>

text \<open>Joining a split document gives the document back byte for byte, whatever its line endings.\<close>

theorem join_undoes_split:
  "join_document (dLines (split_document body)) (dEol (split_document body)) (dTrailing (split_document body)) = body"
proof (cases "body = []")
  case False
  show ?thesis
  proof (cases "ends_with body (doc_eol body)")
    case True
    then obtain r where "body = r @ doc_eol body"
      using ends_with_iff by blast
    then have "take (length body - length (doc_eol body)) body @ doc_eol body = body"
      by (metis append_eq_conv_conj length_append diff_add_inverse2)
    then show ?thesis
      using False True by (simp add: split_document_def join_document_def Let_def join_split_eol)
  next
    case no_eol: False
    then show ?thesis
      using False by (simp add: split_document_def join_document_def Let_def join_split_eol)
  qed
qed (simp add: split_document_def join_document_def)

text \<open>
  A section is found only under a heading that is the only one to match the breadcrumb;
  it starts at that heading line, holds only deeper headings after it, ends at the next
  heading of the same or a higher level or at the end of the document, and is not empty.
\<close>

theorem section_found_is_sole:
  assumes "locate_section body path = Inr c"
  defines "ls \<equiv> dLines (split_document body)"
  shows "sole_heading (extract_headings ls) path (cHeading c) \<and>
    heading_of (ls ! hLine (cHeading c)) = Some (hLevel (cHeading c), hText (cHeading c)) \<and>
    cLines c = js_slice ls (hLine (cHeading c)) (cEnd c) \<and> hLine (cHeading c) < cEnd c \<and> cEnd c \<le> length ls \<and>
    (\<forall>g\<in>set (extract_headings ls). hLine (cHeading c) < hLine g \<and> hLine g < cEnd c \<longrightarrow> hLevel (cHeading c) < hLevel g) \<and>
    (cEnd c = length ls \<or> (\<exists>g\<in>set (extract_headings ls). hLine g = cEnd c \<and> hLevel g \<le> hLevel (cHeading c))) \<and>
    (\<exists>l\<in>set (js_slice ls (hLine (cHeading c) + 1) (cEnd c)). \<not> is_blank l)"
proof -
  note found = locate_section_ok [OF assms(1)]
  have ls: "dLines (cDoc c) = ls"
    by (simp add: found(1) ls_def)
  have h: "cHeading c \<in> set (extract_headings ls)"
    using sole_heading_in [OF found(2)] by (simp add: ls)
  have "sorted_wrt (<) (map hLine (extract_headings ls))"
    by (simp add: extract_headings_def headings_from_sorted)
  from section_end_spec [OF this _ h, of "length ls"] show ?thesis
    using found extract_headings_at h unfolding ls by simp
qed

lemma js_slice_split: "i \<le> j \<Longrightarrow> xs = take i xs @ js_slice xs i j @ drop j xs"
  by (simp add: js_slice_def) (metis append_take_drop_id drop_drop le_add_diff_inverse2)

text \<open>What is planned once a section is found.\<close>

definition planned :: "jstr \<Rightarrow> jstr \<Rightarrow> jstr \<Rightarrow> cut \<Rightarrow> move_plan" where
  "planned tgt sp tp c =
    \<lparr>mSource = join_document (lines_after_cut c (reference_line tp (hText (cHeading c)))) (dEol (cDoc c)) (dTrailing (cDoc c)),
         mRemoved = (cHeading c, cStart c, cEnd c),
         mTarget = join_document (dLines (split_document tgt) @
           addition_head (split_document tgt) (extract_headings (dLines (split_document tgt))) sp @ cLines c)
           (dEol (split_document tgt)) (dTrailing (split_document tgt)),
         mInsertedAt = length (dLines (split_document tgt)) +
           length (addition_head (split_document tgt) (extract_headings (dLines (split_document tgt))) sp) + 1\<rparr>"

lemma plan_move_ok:
  assumes "plan_move finding src tgt sp tp = Inr m"
  shows "\<exists>a as c. finding = Some (''purpose'', a # as) \<and> sp \<noteq> [] \<and> tp \<noteq> [] \<and> sp \<noteq> tp \<and> anSection a \<noteq> [] \<and>
    locate_section src (anSection a) = Inr c \<and>
    (\<forall>g\<in>set (extract_headings (dLines (split_document tgt))). hText g \<noteq> hText (cHeading c)) \<and>
    m = planned tgt sp tp c"
proof -
  obtain rul ans where f: "finding = Some (rul, ans)"
    using assms by (cases finding) (auto simp: plan_move_def)
  obtain a as where a: "ans = a # as"
    using assms f by (cases ans) (auto simp: plan_move_def split: if_splits)
  have guards: "rul = ''purpose''" "sp \<noteq> []" "tp \<noteq> []" "sp \<noteq> tp" "anSection a \<noteq> []"
    using assms by (auto simp: plan_move_def f a split: if_splits)
  obtain c where c: "locate_section src (anSection a) = Inr c"
    using assms by (cases "locate_section src (anSection a)") (auto simp: plan_move_def f a split: if_splits)
  show ?thesis
    using assms guards by (auto simp: plan_move_def planned_def f a c Let_def list_ex_iff split: if_splits)
qed


definition demo_source :: jstr where
  "demo_source = ''# A
x
## B
y
# C
z
''"

definition demo_anchor :: anchor where
  "demo_anchor = \<lparr>anFile = ''a.md'', anSection = ''A > B'', anText = []\<rparr>"


text \<open>
  A move is planned only for a purpose finding that names a section, between two documents
  with different paths, when exactly one heading of the source matches and no heading of the
  target has its text; where two headings have the text named, it is refused.
\<close>

theorem move_refuses_unsure:
  "(\<forall>m. plan_move finding src tgt sp tp = Inr m \<longrightarrow>
      (\<exists>a as. finding = Some (''purpose'', a # as) \<and> sp \<noteq> tp \<and> sp \<noteq> [] \<and> tp \<noteq> [] \<and>
        sole_heading (extract_headings (dLines (split_document src))) (anSection a) (fst (mRemoved m)) \<and>
        (\<forall>g\<in>set (extract_headings (dLines (split_document tgt))). hText g \<noteq> hText (fst (mRemoved m))))) \<and>
   (\<forall>a as g h rest. finding = Some (''purpose'', a # as) \<and> sp \<noteq> tp \<and> sp \<noteq> [] \<and> tp \<noteq> [] \<and> anSection a \<noteq> [] \<and>
      section_leaf (anSection a) \<noteq> [] \<and>
      filter (\<lambda>h. hText h = section_leaf (anSection a)) (extract_headings (dLines (split_document src))) = g # h # rest \<longrightarrow>
      plan_move finding src tgt sp tp = Inl (Ambiguous_heading (length rest + 2)))"
proof (intro conjI allI impI)
  fix m assume "plan_move finding src tgt sp tp = Inr m"
  from plan_move_ok [OF this] obtain a as c where p: "finding = Some (''purpose'', a # as)" "sp \<noteq> tp" "sp \<noteq> []" "tp \<noteq> []"
    "locate_section src (anSection a) = Inr c" "m = planned tgt sp tp c"
    "\<forall>g\<in>set (extract_headings (dLines (split_document tgt))). hText g \<noteq> hText (cHeading c)"
    by blast
  have "sole_heading (extract_headings (dLines (split_document src))) (anSection a) (cHeading c)"
    using locate_section_ok(1,2) [OF p(5)] by simp
  then show "\<exists>a as. finding = Some (''purpose'', a # as) \<and> sp \<noteq> tp \<and> sp \<noteq> [] \<and> tp \<noteq> [] \<and>
        sole_heading (extract_headings (dLines (split_document src))) (anSection a) (fst (mRemoved m)) \<and>
        (\<forall>g\<in>set (extract_headings (dLines (split_document tgt))). hText g \<noteq> hText (fst (mRemoved m)))"
    using p by (simp add: planned_def)
next
  fix a as g h rest
  assume "finding = Some (''purpose'', a # as) \<and> sp \<noteq> tp \<and> sp \<noteq> [] \<and> tp \<noteq> [] \<and> anSection a \<noteq> [] \<and>
      section_leaf (anSection a) \<noteq> [] \<and>
      filter (\<lambda>h. hText h = section_leaf (anSection a)) (extract_headings (dLines (split_document src))) = g # h # rest"
  then show "plan_move finding src tgt sp tp = Inl (Ambiguous_heading (length rest + 2))"
    by (simp add: plan_move_def locate_section_def match_section_heading_def settle_def Let_def)
qed

section \<open>Two moves that land in the wrong place\<close>

text \<open>
  A second move from a source, after one from another source, is appended under the heading
  of the other source, although the heading of its own is there.
\<close>

lemma lands_under_other_source:
  "plan_move (Some (''purpose'', [demo_anchor])) demo_source ''## Moved from a.md

## One
x

## Moved from c.md

## Two
y
'' ''a.md'' ''b.md'' = Inr \<lparr>mSource = ''# A
x
Moved to [b.md](b.md#b).

# C
z
'', mRemoved = (\<lparr>hLevel = 2, hText = ''B'', hLine = 2\<rparr>, 3, 4), mTarget = ''## Moved from a.md

## One
x

## Moved from c.md

## Two
y

## B
y
'', mInsertedAt = 11\<rparr>"
  by code_simp

text \<open>A section moved into a document that ends inside an open code fence becomes part of the code.\<close>

lemma lands_in_open_fence:
  "case plan_move (Some (''purpose'', [demo_anchor])) demo_source ''```
code
'' ''a.md'' ''b.md'' of Inl e \<Rightarrow> False
     | Inr m \<Rightarrow> extract_headings (dLines (split_document (mTarget m))) = []"
  by code_simp

end
