(* ===== verification/Task_List.thy ===== *)
theory Task_List
  imports Identity
begin

text \<open>
  browser/task-scan.js: the tasks of a project as they are written in its documents. The
  assignees of a line, the tasks of a document with the heading above each, their ranking,
  and writing a task into a document. The ellipsis (not a Latin-1 character) and
  \<open>localeCompare\<close> are arguments. The theorems are that the parser finds exactly the task
  lines, each under the last heading before it, that the ranking is one by urgency in which
  nothing cut off is more urgent than what is shown, and that writing a task adds that one
  task and changes no other.
\<close>

section \<open>Text\<close>

fun single_spaces :: "bool \<Rightarrow> jstr \<Rightarrow> jstr" where
  "single_spaces inRun [] = []"
| "single_spaces inRun (c # r) =
     (if \<not> is_space c then c # single_spaces False r
      else if inRun then single_spaces True r else CHR '' '' # single_spaces True r)"

definition tidy :: "jstr \<Rightarrow> jstr" where
  "tidy t = js_trim (single_spaces False t)"

definition clip :: "jstr \<Rightarrow> jstr \<Rightarrow> nat \<Rightarrow> jstr" where
  "clip ell t most = (let v = tidy t in if length v > most then take (most - 1) v @ ell else v)"

section \<open>Assignees\<close>

record assignee =
  asRaw :: jstr
  asName :: jstr
  asKey :: jstr
  asAgent :: bool

definition mention_char :: "char \<Rightarrow> bool" where
  "mention_char c = (c \<in> set ''ABCDEFGHIJKLMNOPQRSTUVWXYZabcdefghijklmnopqrstuvwxyz0123456789._-'')"

text \<open>The matches of \<open>/(?<![A-Za-z0-9._-])@([A-Za-z0-9._-]+)/g\<close>; the first argument is the character before.\<close>

function mentions_of :: "char option \<Rightarrow> jstr \<Rightarrow> jstr list" where
  "mentions_of prev [] = []"
| "mentions_of prev (c # r) =
     (if c = CHR ''@'' \<and> \<not> (case prev of Some p \<Rightarrow> mention_char p | None \<Rightarrow> False) \<and> takeWhile mention_char r \<noteq> []
      then takeWhile mention_char r # mentions_of (Some (last (takeWhile mention_char r))) (dropWhile mention_char r)
      else mentions_of (Some c) r)"
  by pat_completeness auto

termination
  by (relation "measure (length \<circ> snd)") (auto simp: le_imp_less_Suc length_dropWhile_le)

definition assignee_of :: "jstr \<Rightarrow> assignee" where
  "assignee_of raw =
     (let agent = starts_with raw ''_'' \<or> starts_with raw ''a.'';
          name = (if starts_with raw ''_'' then drop 1 raw else if starts_with raw ''a.'' then drop 2 raw else raw)
      in \<lparr>asRaw = ''@'' @ raw, asName = name, asKey = slug name, asAgent = agent\<rparr>)"

fun keep_new :: "jstr list \<Rightarrow> assignee list \<Rightarrow> assignee list" where
  "keep_new seen [] = []"
| "keep_new seen (a # as) =
     (if asKey a = [] \<or> asKey a \<in> set seen then keep_new seen as else a # keep_new (asKey a # seen) as)"

definition assignees_of :: "jstr \<Rightarrow> assignee list" where
  "assignees_of body = keep_new [] (map assignee_of (mentions_of None body))"

text \<open>The identity "mine" is judged against: its name, None where there is no identity or it is unnamed.\<close>

definition assigned_to :: "assignee list \<Rightarrow> jstr option \<Rightarrow> bool" where
  "assigned_to as me =
     (case me of None \<Rightarrow> False
      | Some name \<Rightarrow>
          (let target = slug name
           in name \<noteq> [] \<and> target \<noteq> [] \<and>
              list_ex (\<lambda>w. \<not> asAgent w \<and>
                (asKey w = target \<or> starts_with target (asKey w @ ''-'') \<or> starts_with (asKey w) (target @ ''-''))) as))"

section \<open>Tasks of a document\<close>

record md_task =
  tkPath :: jstr
  tkLine :: nat
  tkDepth :: nat
  tkDone :: bool
  tkBody :: jstr
  tkHeading :: jstr
  tkAssignees :: "assignee list"

text \<open>\<open>.\<close> matches no line terminator, so \<open>(.*)$\<close> fails on a text with one.\<close>

definition dot_only :: "jstr \<Rightarrow> bool" where
  "dot_only t = (CR \<notin> set t \<and> LF \<notin> set t)"

text \<open>\<open>/^(#{1,6})\s+(.*)$/\<close>: the text of a heading line.\<close>

definition head_text :: "jstr \<Rightarrow> jstr option" where
  "head_text line =
     (let n = length (takeWhile (\<lambda>c. c = CHR ''#'') line); rest = drop n line; t = dropWhile is_space rest
      in if 1 \<le> n \<and> n \<le> 6 \<and> rest \<noteq> [] \<and> is_space (hd rest) \<and> dot_only t then Some t else None)"

text \<open>\<open>/^(\s*)[-*+]\s+\[([ xX])\]\s+(.*)$/\<close>: the indent, the mark and the text.\<close>

definition task_line :: "jstr \<Rightarrow> (jstr \<times> char \<times> jstr) option" where
  "task_line line =
     (let indent = takeWhile is_space line
      in case dropWhile is_space line of
           b # r \<Rightarrow>
             (if b \<in> set ''-*+'' \<and> r \<noteq> [] \<and> is_space (hd r) then
                (case dropWhile is_space r of
                   o1 # m # o2 # s \<Rightarrow>
                     (if o1 = CHR ''['' \<and> m \<in> set '' xX'' \<and> o2 = CHR '']'' \<and> s \<noteq> [] \<and> is_space (hd s) \<and> dot_only (dropWhile is_space s)
                      then Some (indent, m, dropWhile is_space s) else None)
                 | _ \<Rightarrow> None)
              else None)
         | [] \<Rightarrow> None)"

definition indent_width :: "jstr \<Rightarrow> nat" where
  "indent_width t = sum_list (map (\<lambda>c. if c = TAB then 4 else 1) t)"

definition task_of :: "jstr \<Rightarrow> jstr \<Rightarrow> jstr \<Rightarrow> nat \<Rightarrow> jstr \<times> char \<times> jstr \<Rightarrow> md_task" where
  "task_of ell path hd_text i m =
     \<lparr>tkPath = path, tkLine = i + 1, tkDepth = indent_width (fst m) div 2, tkDone = (fst (snd m) \<noteq> CHR '' ''),
      tkBody = clip ell (snd (snd m)) 160, tkHeading = hd_text, tkAssignees = assignees_of (snd (snd m))\<rparr>"

fun tasks_from :: "jstr \<Rightarrow> jstr \<Rightarrow> jstr \<Rightarrow> nat \<Rightarrow> jstr list \<Rightarrow> md_task list" where
  "tasks_from ell path h i [] = []"
| "tasks_from ell path h i (l # ls) =
     (case head_text l of
        Some t \<Rightarrow> tasks_from ell path (clip ell t 60) (i + 1) ls
      | None \<Rightarrow>
          (case task_line l of
             None \<Rightarrow> tasks_from ell path h (i + 1) ls
           | Some m \<Rightarrow> task_of ell path h i m # tasks_from ell path h (i + 1) ls))"

definition parse_tasks :: "jstr \<Rightarrow> jstr \<Rightarrow> jstr \<Rightarrow> md_task list" where
  "parse_tasks ell path t = tasks_from ell path [] 0 (split_on LF t)"

section \<open>The project's tasks\<close>

definition TASK_MAX :: nat where
  "TASK_MAX = 300"

definition band :: "md_task \<Rightarrow> jstr option \<Rightarrow> int" where
  "band t me =
     (if tkDone t then 3 else if assigned_to (tkAssignees t) me then 0 else if tkAssignees t = [] then 2 else 1)"

definition by_urgency :: "(jstr \<Rightarrow> jstr \<Rightarrow> int) \<Rightarrow> jstr option \<Rightarrow> md_task \<Rightarrow> md_task \<Rightarrow> int" where
  "by_urgency lc me a b =
     (let d = band a me - band b me; p = lc (tkPath a) (tkPath b)
      in if d \<noteq> 0 then d else if p \<noteq> 0 then p else int (tkLine a) - int (tkLine b))"

record task_list =
  tlItems :: "md_task list"
  tlTruncated :: nat
  tlTotal :: nat
  tlDocuments :: nat
  tlMine :: nat
  tlOpen :: nat
  tlDone :: nat

definition tasks :: "jstr \<Rightarrow> (jstr \<Rightarrow> jstr \<Rightarrow> int) \<Rightarrow> (jstr \<times> jstr) list \<Rightarrow> jstr option \<Rightarrow> nat option \<Rightarrow> task_list" where
  "tasks ell lc files me m =
     (let most = (case m of None \<Rightarrow> TASK_MAX | Some n \<Rightarrow> n);
          found = map (\<lambda>f. parse_tasks ell (fst f) (snd f)) files;
          items = js_sort (by_urgency lc me) (concat found);
          open1 = length (filter (\<lambda>t. \<not> tkDone t) items);
          truncated = length items - most
      in \<lparr>tlItems = (if truncated \<noteq> 0 then take most items else items), tlTruncated = truncated, tlTotal = length items,
          tlDocuments = length (filter (\<lambda>ts. ts \<noteq> []) found),
          tlMine = length (filter (\<lambda>t. \<not> tkDone t \<and> assigned_to (tkAssignees t) me) items),
          tlOpen = open1, tlDone = length items - open1\<rparr>)"

section \<open>Writing a task\<close>

definition TASKS_HEADING :: jstr where
  "TASKS_HEADING = ''## Tasks''"

fun first_index :: "('a \<Rightarrow> bool) \<Rightarrow> nat \<Rightarrow> 'a list \<Rightarrow> nat option" where
  "first_index P i [] = None"
| "first_index P i (x # xs) = (if P x then Some i else first_index P (i + 1) xs)"

definition blank_line :: "jstr \<Rightarrow> bool" where
  "blank_line l = (js_trim l = [])"

text \<open>\<open>/^#{1,2}\s/\<close>.\<close>

definition top_heading :: "jstr \<Rightarrow> bool" where
  "top_heading l =
     (let n = length (takeWhile (\<lambda>c. c = CHR ''#'') l); rest = drop n l
      in (n = 1 \<or> n = 2) \<and> rest \<noteq> [] \<and> is_space (hd rest))"

definition new_task_line :: "jstr \<Rightarrow> jstr \<Rightarrow> jstr" where
  "new_task_line t assignee =
     (let mention = js_trim assignee
      in ''- [ ] '' @ t @ (if mention = [] then [] else '' '' @ (if starts_with mention ''@'' then mention else ''@'' @ mention)))"

fun back_over_blanks :: "jstr list \<Rightarrow> nat \<Rightarrow> nat \<Rightarrow> nat" where
  "back_over_blanks ls low 0 = 0"
| "back_over_blanks ls low (Suc at) = (if low < Suc at \<and> blank_line (ls ! at) then back_over_blanks ls low at else Suc at)"

definition append_task :: "jstr \<Rightarrow> jstr \<Rightarrow> jstr \<Rightarrow> jstr" where
  "append_task markdown body assignee =
     (let t = tidy body; line = new_task_line t assignee; ls = split_on LF markdown
      in if t = [] then markdown
         else case first_index (\<lambda>l. map js_lower (js_trim l) = map js_lower TASKS_HEADING) 0 ls of
             None \<Rightarrow> join [LF] (rev (dropWhile blank_line (rev ls)) @ [[], TASKS_HEADING, [], line, []])
           | Some h \<Rightarrow>
               (let e = (case first_index top_heading (h + 1) (drop (h + 1) ls) of Some i \<Rightarrow> i | None \<Rightarrow> length ls);
                    at = back_over_blanks ls (h + 1) e
                in join [LF] (take at ls @ [line] @ drop at ls)))"

section \<open>What the surface says\<close>

definition count_text :: "task_list \<Rightarrow> jstr" where
  "count_text r =
     (if tlTotal r = 0 then ''No tasks''
      else join ('' '' @ [CHR 0xB7] @ '' '')
        ([to_dec (tlOpen r) @ '' open''] @
         (if tlMine r \<noteq> 0 then [to_dec (tlMine r) @ '' assigned to you''] else []) @
         (if tlDone r \<noteq> 0 then [to_dec (tlDone r) @ '' done''] else [])))"

definition honesty_line :: "task_list \<Rightarrow> jstr" where
  "honesty_line r =
     join '' '' ([''Read '' @ to_dec (tlDocuments r) @ (if tlDocuments r = 1 then '' document'' else '' documents'') @ '' with tasks.''] @
       (if tlTruncated r \<noteq> 0 then [''Stopped after '' @ to_dec (length (tlItems r)) @ ''; '' @ to_dec (tlTruncated r) @ '' more.''] else []) @
       [''Who wrote a task is not recorded in Markdown, so there is no filter for it.''])"

section \<open>What the parser finds\<close>

text \<open>The heading a line stands under: the last one before it, or the one it started under.\<close>

definition heading_above :: "jstr \<Rightarrow> jstr \<Rightarrow> jstr list \<Rightarrow> jstr" where
  "heading_above ell h ls =
     (case rev (List.map_filter head_text ls) of [] \<Rightarrow> h | t # _ \<Rightarrow> clip ell t 60)"

definition is_task_line :: "jstr \<Rightarrow> bool" where
  "is_task_line l = (head_text l = None \<and> task_line l \<noteq> None)"

lemma heading_above_Nil [simp]: "heading_above ell h [] = h"
  by (simp add: heading_above_def map_filter_simps)

lemma heading_above_Cons [simp]:
  "heading_above ell h (l # ls) = heading_above ell (case head_text l of None \<Rightarrow> h | Some t \<Rightarrow> clip ell t 60) ls"
  by (simp add: heading_above_def map_filter_simps split: option.splits list.splits)

lemma tasks_from_Cons:
  "tasks_from ell path h i (l # ls) =
     (if is_task_line l then [task_of ell path h i (the (task_line l))] else []) @
     tasks_from ell path (heading_above ell h [l]) (i + 1) ls"
  by (auto simp: is_task_line_def split: option.splits)

declare tasks_from.simps(2) [simp del]

lemma tasks_from_append:
  "tasks_from ell path h i (xs @ ys) =
     tasks_from ell path h i xs @ tasks_from ell path (heading_above ell h xs) (i + length xs) ys"
proof (induction xs arbitrary: h i)
  case (Cons x xs)
  then show ?case
    by (simp add: tasks_from_Cons del: heading_above_Cons) (simp split: option.splits)
qed simp

lemma tasks_from_spec:
  "tasks_from ell path h i ls =
     map (\<lambda>j. task_of ell path (heading_above ell h (take j ls)) (i + j) (the (task_line (ls ! j))))
       (filter (\<lambda>j. is_task_line (ls ! j)) [0..<length ls])"
proof (induction ls rule: rev_induct)
  case (snoc l ls)
  have "map (\<lambda>j. task_of ell path (heading_above ell h (take j (ls @ [l]))) (i + j) (the (task_line ((ls @ [l]) ! j))))
       (filter (\<lambda>j. is_task_line ((ls @ [l]) ! j)) [0..<length ls]) =
     map (\<lambda>j. task_of ell path (heading_above ell h (take j ls)) (i + j) (the (task_line (ls ! j))))
       (filter (\<lambda>j. is_task_line (ls ! j)) [0..<length ls])"
    by (rule map_cong) (auto simp: nth_append intro: filter_cong)
  then show ?case
    using snoc by (simp add: tasks_from_append tasks_from_Cons)
qed simp

section \<open>Ranking\<close>

lemma by_urgency_signed:
  assumes "signed_comparator lc"
  shows "signed_comparator (by_urgency lc me)"
proof -
  have "by_urgency lc me = then_by (by_key (\<lambda>t. band t me))
      (then_by (\<lambda>a b. lc (tkPath a) (tkPath b)) (by_key (\<lambda>t. int (tkLine t))))"
    by (intro ext) (simp add: by_urgency_def then_by_def by_key_def Let_def)
  then show ?thesis
    using then_by_signed [OF key_cmp.signed_comparator_axioms
        then_by_signed [OF signed_of [OF assms] key_cmp.signed_comparator_axioms]] by (simp only:)
qed

section \<open>Writing\<close>

definition unline :: "md_task \<Rightarrow> md_task" where
  "unline t = t\<lparr>tkLine := 0\<rparr>"

lemma unline_tasks_from: "map unline (tasks_from ell path h i ls) = map unline (tasks_from ell path h j ls)"
  by (simp add: tasks_from_spec comp_def unline_def task_of_def)

lemma js_trim_empty: "js_trim l = [] \<longleftrightarrow> dropWhile is_space l = []"
proof
  assume "js_trim l = []"
  then have "\<forall>c\<in>set (dropWhile is_space l). is_space c"
    by (simp add: js_trim_def)
  then show "dropWhile is_space l = []"
    by (cases "dropWhile is_space l") (auto dest!: dropWhile_eq_Cons_conv [THEN iffD1] simp: dropWhile_eq_Cons_conv)
qed (simp only: js_trim_def, simp)

lemma blank_is_nothing: "blank_line l \<Longrightarrow> head_text l = None \<and> \<not> is_task_line l"
  unfolding blank_line_def js_trim_empty
  by (cases l) (auto simp: is_task_line_def task_line_def head_text_def Let_def dropWhile_eq_Nil_conv is_space_def split: if_splits)

lemma tasks_of_blanks: "\<forall>l\<in>set ls. blank_line l \<Longrightarrow> tasks_from ell path h i ls = []"
  using blank_is_nothing by (auto simp: tasks_from_spec)

lemma single_spaces_space: "c \<in> set (single_spaces b s) \<Longrightarrow> is_space c \<Longrightarrow> c = CHR '' ''"
  by (induction b s rule: single_spaces.induct) (auto split: if_splits)

lemma js_trim_chars: "c \<in> set (js_trim s) \<Longrightarrow> c \<in> set s"
  by (metis js_trim_def set_dropWhileD set_rev)

lemma js_trim_hd: "js_trim s \<noteq> [] \<Longrightarrow> \<not> is_space (hd (js_trim s))"
proof -
  assume ne: "js_trim s \<noteq> []"
  define x where "x = dropWhile is_space s"
  have "js_trim s @ rev (takeWhile is_space (rev x)) = x"
    unfolding js_trim_def x_def [symmetric] by (metis rev_append rev_rev_ident takeWhile_dropWhile_id)
  then have "hd (js_trim s) = hd x" "x \<noteq> []"
    using ne by (metis hd_append2, auto)
  then show ?thesis
    using hd_dropWhile [of is_space s] by (simp add: x_def)
qed

lemma tidy_dot: "dot_only (tidy t)"
  unfolding dot_only_def tidy_def
  using js_trim_chars single_spaces_space by (fastforce simp: is_space_def)

lemma new_task_line_read:
  assumes "t = tidy body" "t \<noteq> []" "dot_only assignee" "r = drop 6 (new_task_line t assignee)"
  shows "head_text (new_task_line t assignee) = None" "task_line (new_task_line t assignee) = Some ([], CHR '' '', r)"
    "LF \<notin> set (new_task_line t assignee)"
proof -
  define mention where "mention = (if js_trim assignee = [] then [] else '' '' @
      (if starts_with (js_trim assignee) ''@'' then js_trim assignee else ''@'' @ js_trim assignee))"
  have line: "new_task_line t assignee = ''- [ ] '' @ t @ mention" "r = t @ mention"
    by (simp_all add: new_task_line_def mention_def Let_def assms(4))
  have "dot_only (js_trim assignee)"
    using assms(3) js_trim_chars by (auto simp: dot_only_def)
  then have dot: "dot_only (t @ mention)"
    using tidy_dot [of body] by (auto simp: dot_only_def mention_def assms(1))
  have "\<not> is_space (hd t)"
    using js_trim_hd assms(1,2) by (simp add: tidy_def)
  then have drop: "dropWhile is_space (t @ mention) = t @ mention"
    using assms(2) by (cases t) simp_all
  show "head_text (new_task_line t assignee) = None"
    by (simp add: head_text_def line)
  show "task_line (new_task_line t assignee) = Some ([], CHR '' '', r)"
    using drop dot by (simp add: task_line_def line is_space_def)
  show "LF \<notin> set (new_task_line t assignee)"
    using dot by (simp add: line dot_only_def)
qed

lemma dropWhile_rev_split: "ls = rev (dropWhile P (rev ls)) @ rev (takeWhile P (rev ls))"
  by (metis rev_append rev_rev_ident takeWhile_dropWhile_id)

lemma tasks_from_empty_line: "tasks_from ell path h i ([] # rest) = tasks_from ell path h (i + 1) rest"
  by (simp add: tasks_from.simps(2) head_text_def task_line_def)

lemma tasks_heading_text: "head_text TASKS_HEADING = Some ''Tasks''"
  by code_simp

lemma tasks_from_new_section:
  "tasks_from ell path h i ([] # TASKS_HEADING # [] # rest) = tasks_from ell path (clip ell ''Tasks'' 60) (i + 1 + 1 + 1) rest"
  by (simp only: tasks_from_empty_line tasks_from.simps(2) [of _ _ _ _ TASKS_HEADING] tasks_heading_text option.case)

text \<open>The lines of the document after a task is written: the new line between two parts of what was there.\<close>

lemma append_task_lines:
  assumes "t = tidy body" "t \<noteq> []" "line = new_task_line t assignee" "LF \<notin> set line" "ls = split_on LF markdown"
  shows "(\<exists>pre post. split_on LF (append_task markdown body assignee) = pre @ line # post \<and> ls = pre @ post) \<or>
    (\<exists>pre blanks. split_on LF (append_task markdown body assignee) = pre @ [[], TASKS_HEADING, [], line, []] \<and>
       ls = pre @ blanks \<and> (\<forall>l\<in>set blanks. blank_line l))"
proof -
  have free: "\<forall>l\<in>set ls. LF \<notin> set l"
    unfolding assms(5) by (intro ballI) (rule split_on_pieces)
  show ?thesis
  proof (cases "first_index (\<lambda>l. map js_lower (js_trim l) = map js_lower TASKS_HEADING) 0 ls")
    case None
    define pre where "pre = rev (dropWhile blank_line (rev ls))"
    have "set pre \<subseteq> set ls"
      unfolding pre_def using set_dropWhileD by fastforce
    then have "split_on LF (join [LF] (pre @ [[], TASKS_HEADING, [], line, []])) = pre @ [[], TASKS_HEADING, [], line, []]"
      using free assms(4) by (intro split_on_join) (auto simp: TASKS_HEADING_def)
    moreover have "append_task markdown body assignee = join [LF] (pre @ [[], TASKS_HEADING, [], line, []])"
      using None assms(2) by (simp add: append_task_def Let_def assms(1,3,5) [symmetric] pre_def)
    moreover have "ls = pre @ rev (takeWhile blank_line (rev ls))"
      unfolding pre_def by (rule dropWhile_rev_split)
    moreover have "\<forall>l\<in>set (rev (takeWhile blank_line (rev ls))). blank_line l"
      by (auto dest: set_takeWhileD)
    ultimately show ?thesis
      by (intro disjI2 exI [of _ pre] exI [of _ "rev (takeWhile blank_line (rev ls))"] conjI) (simp only:)
  next
    case (Some h)
    then obtain at where at: "append_task markdown body assignee = join [LF] (take at ls @ [line] @ drop at ls)"
      using assms(2) by (simp add: append_task_def Let_def assms(1,3,5) [symmetric])
    have "split_on LF (join [LF] (take at ls @ [line] @ drop at ls)) = take at ls @ [line] @ drop at ls"
      using free assms(4) by (intro split_on_join) (auto dest: in_set_takeD in_set_dropD)
    then show ?thesis
      unfolding at by (metis append_Cons append_Nil append_take_drop_id)
  qed
qed

section \<open>Properties\<close>

text \<open>
  The tasks of a document are exactly its task lines, in order, each with its line
  number, its mark, its tidied text and the text of the last heading before it.
\<close>

theorem parser_finds_task_lines:
  "parse_tasks ell path t =
     (let ls = split_on LF t in
      map (\<lambda>i. task_of ell path (heading_above ell [] (take i ls)) i (the (task_line (ls ! i))))
        (filter (\<lambda>i. is_task_line (ls ! i)) [0..<length ls]))"
  by (simp add: parse_tasks_def Let_def tasks_from_spec)

text \<open>
  The list shows a prefix of all tasks ranked by urgency (mine, somebody's, nobody's,
  done; then path and line), at most the maximum; nothing cut off is more urgent than
  anything shown, and the counts add up.
\<close>

theorem ranking_hides_only_less_urgent:
  assumes lc: "signed_comparator lc" and r: "r = tasks ell lc files me (Some n)"
    and all: "all = concat (map (\<lambda>f. parse_tasks ell (fst f) (snd f)) files)"
  shows "\<exists>hidden. mset (tlItems r @ hidden) = mset all \<and>
    sorted_wrt (\<lambda>x y. by_urgency lc me x y \<le> 0) (tlItems r @ hidden) \<and>
    length (tlItems r) = min n (length all) \<and> length hidden = tlTruncated r \<and>
    (\<forall>x\<in>set (tlItems r). \<forall>y\<in>set hidden. band x me \<le> band y me) \<and>
    tlTotal r = length all \<and> tlOpen r + tlDone r = tlTotal r \<and> tlMine r \<le> tlOpen r"
proof -
  let ?ranked = "js_sort (by_urgency lc me) all"
  note cut = comparator.cut_off [OF signed_comparator.is_comparator [OF by_urgency_signed [OF lc]], where n = n and xs = all]
  have urgent: "band x me \<le> band y me" if "x \<in> set (take n ?ranked)" "y \<in> set (drop n ?ranked)" for x y
    using cut(5) [OF that] by (auto simp: by_urgency_def Let_def split: if_splits)
  have len: "length ?ranked = length all"
    by (metis mset_js_sort size_mset)
  have parts: "tlItems r = take n ?ranked" "tlTruncated r = length all - n" "tlTotal r = length all"
    "tlOpen r = length (filter (\<lambda>t. \<not> tkDone t) ?ranked)" "tlDone r = length all - tlOpen r"
    "tlMine r = length (filter (\<lambda>t. \<not> tkDone t \<and> assigned_to (tkAssignees t) me) ?ranked)"
    by (simp_all add: r tasks_def Let_def all [symmetric] len)
  have "tlMine r \<le> tlOpen r"
    unfolding parts by (rule length_filter_mono) blast
  moreover have "tlOpen r \<le> length all"
    unfolding parts len [symmetric] by (rule length_filter_le)
  ultimately have counts: "tlOpen r + tlDone r = tlTotal r" "tlMine r \<le> tlOpen r"
    by (simp_all add: parts(3,5))
  show ?thesis
    using cut(1-4) urgent counts parts(2,3) unfolding parts(1) by (intro exI [of _ "drop n ?ranked"]) simp
qed

text \<open>
  Writing a task with some text adds exactly that task, open, with the tidied text and the
  assignee's mention, between tasks that all stay as they were but for their line numbers.
\<close>

theorem append_adds_one_task:
  assumes "tidy body \<noteq> []" "dot_only assignee"
  shows "\<exists>xs ys t. map unline (parse_tasks ell path (append_task markdown body assignee)) = xs @ t # ys \<and>
    map unline (parse_tasks ell path markdown) = xs @ ys \<and> \<not> tkDone t \<and>
    tkBody t = clip ell (drop 6 (new_task_line (tidy body) assignee)) 160 \<and>
    tkAssignees t = assignees_of (drop 6 (new_task_line (tidy body) assignee))"
proof -
  define line where "line = new_task_line (tidy body) assignee"
  note read = new_task_line_read [OF refl assms refl, folded line_def]
  have is_line: "is_task_line line"
    by (simp add: is_task_line_def read)
  define new where "new h = unline (task_of ell path h 0 ([], CHR '' '', drop 6 line))" for h
  have at: "map unline (tasks_from ell path h i (line # rest)) = new h # map unline (tasks_from ell path h i rest)" for h i rest
    using is_line read(1,2) unline_tasks_from [of ell path h "Suc i" rest i]
    by (simp add: tasks_from_Cons new_def unline_def task_of_def)
  have fields: "\<not> tkDone (new h)" "tkBody (new h) = clip ell (drop 6 line) 160" "tkAssignees (new h) = assignees_of (drop 6 line)" for h
    by (simp_all add: new_def unline_def task_of_def)
  have join: "map unline (tasks_from ell path h i (pre @ post)) =
      map unline (tasks_from ell path h 0 pre) @ map unline (tasks_from ell path (heading_above ell h pre) 0 post)" for h i pre post
    using unline_tasks_from [of ell path h i pre 0] unline_tasks_from [of ell path _ "i + length pre" post 0]
    by (simp add: tasks_from_append)
  from append_task_lines [OF refl assms(1) line_def read(3) refl, of markdown] show ?thesis
  proof (elim disjE exE conjE)
    fix pre post
    assume "split_on LF (append_task markdown body assignee) = pre @ line # post" "split_on LF markdown = pre @ post"
    then show ?thesis
      unfolding parse_tasks_def line_def [symmetric] using fields by (simp only: join at) blast
  next
    fix pre blanks
    assume ls: "split_on LF (append_task markdown body assignee) = pre @ [[], TASKS_HEADING, [], line, []]"
      "split_on LF markdown = pre @ blanks" "\<forall>l\<in>set blanks. blank_line l"
    have "map unline (tasks_from ell path (heading_above ell [] pre) 0 [[], TASKS_HEADING, [], line, []]) = [new (clip ell ''Tasks'' 60)]"
      by (simp only: tasks_from_new_section at) (simp only: tasks_from_empty_line tasks_from.simps(1) list.map)
    then show ?thesis
      unfolding parse_tasks_def line_def [symmetric] ls join tasks_of_blanks [OF ls(3)] list.map
      using fields by (intro exI [of _ "map unline (tasks_from ell path [] 0 pre)"] exI [of _ "[]"]
          exI [of _ "new (clip ell ''Tasks'' 60)"]) simp
  qed
qed

section \<open>A document with CRLF line ends has no tasks\<close>

lemma crlf_tasks_lost:
  "parse_tasks ell path (''- [ ] a'' @ [CR, LF] @ ''- [x] b'' @ [CR, LF]) = []"
proof -
  have "split_on LF (''- [ ] a'' @ [CR, LF] @ ''- [x] b'' @ [CR, LF]) = [''- [ ] a'' @ [CR], ''- [x] b'' @ [CR], []]"
    by code_simp
  moreover have "\<not> is_task_line (''- [ ] a'' @ [CR])" "\<not> is_task_line (''- [x] b'' @ [CR])" "\<not> is_task_line []"
    by code_simp+
  ultimately show ?thesis
    by (simp only: parse_tasks_def tasks_from_Cons if_False append_Nil tasks_from.simps(1))
qed

end
