(* ===== verification/Inbox.thy ===== *)
theory Inbox
  imports Task_List Comment_Log Collab_Registry
begin

text \<open>
  browser/collab-scan.js: the collaboration inbox as arithmetic. The open threads of a project
  as ranked rows, who is in the project folded from per-document parties, and the sentences the
  panel says of both. Threads are those comment-log.js folds, parties those the registry
  answers; the ellipsis, \<open>Date.parse\<close> and \<open>localeCompare\<close> are arguments. The theorems are
  that the ranking hides only what is less urgent and counts everything it saw, that every
  identified party is in exactly one row, and that an age never reads as zero of a unit.
\<close>

section \<open>Ages\<close>

text \<open>\<open>Math.round(x / d)\<close> for an integer and a positive divisor: halves go up.\<close>

definition round_div :: "int \<Rightarrow> int \<Rightarrow> int" where
  "round_div x d = (2 * x + d) div (2 * d)"

definition unit_text :: "int \<Rightarrow> jstr \<Rightarrow> jstr" where
  "unit_text n u = to_dec (nat n) @ u"

definition age_text :: "(jstr \<Rightarrow> int option) \<Rightarrow> jstr \<Rightarrow> int \<Rightarrow> jstr" where
  "age_text date at now =
     (case date at of None \<Rightarrow> []
      | Some then_ms \<Rightarrow>
          (let seconds = max 0 (round_div (now - then_ms) 1000); minutes = round_div seconds 60;
               hours = round_div minutes 60; days = round_div hours 24; months = round_div days 30
           in if seconds < 60 then ''just now''
              else if minutes < 60 then unit_text minutes ''m''
              else if hours < 24 then unit_text hours ''h''
              else if days < 30 then unit_text days ''d''
              else if months < 12 then unit_text months ''mo''
              else unit_text (round_div months 12) ''y''))"

definition ago_text :: "(jstr \<Rightarrow> int option) \<Rightarrow> jstr \<Rightarrow> int \<Rightarrow> jstr" where
  "ago_text date at now =
     (let age = age_text date at now in if age = [] then [] else if age = ''just now'' then age else age @ '' ago'')"

section \<open>Addressing\<close>

definition addressed_by :: "jstr \<Rightarrow> jstr \<Rightarrow> bool" where
  "addressed_by target token =
     (let candidate = slug token
      in candidate \<noteq> [] \<and>
         (target = candidate \<or> starts_with target (candidate @ ''-'') \<or> starts_with candidate (target @ ''-'')))"

definition mentions_me :: "jstr option \<Rightarrow> author_rec option \<Rightarrow> bool" where
  "mentions_me body me =
     (case me of None \<Rightarrow> False
      | Some m \<Rightarrow>
          (let target = slug (rname m)
           in \<not> runnamed m \<and> rname m \<noteq> [] \<and> target \<noteq> [] \<and>
              list_ex (addressed_by target) (mentions_of None (case body of Some t \<Rightarrow> t | None \<Rightarrow> []))))"

definition by_me :: "author_rec \<Rightarrow> author_rec option \<Rightarrow> bool" where
  "by_me a me =
     (case me of None \<Rightarrow> False
      | Some m \<Rightarrow>
          if rid a \<noteq> [] \<and> rid m \<noteq> [] \<and> rid a = rid m then True
          else if rkind a = ''agent'' then False
          else rname m \<noteq> [] \<and> \<not> runnamed m \<and> map js_lower (js_trim (rname a)) = map js_lower (rname m))"

section \<open>The inbox\<close>

definition PREVIEW_MAX :: nat where "PREVIEW_MAX = 140"
definition INBOX_MAX :: nat where "INBOX_MAX = 200"

record inbox_item =
  iiPath :: jstr
  iiThread :: jstr
  iiScope :: jstr
  iiQuote :: jstr
  iiOpenedBy :: jstr
  iiOpenedAt :: "jstr option"
  iiLastBy :: jstr
  iiLastAt :: "jstr option"
  iiPreview :: jstr
  iiReplies :: nat
  iiMentionsMe :: bool
  iiWaitingOnMe :: bool
  iiMine :: bool

definition signed_by :: "message \<Rightarrow> jstr" where
  "signed_by m = or_else (rname (mBy m)) (mAuthor m)"

definition thread_item :: "jstr \<Rightarrow> author_rec option \<Rightarrow> jstr \<Rightarrow> thread \<Rightarrow> inbox_item option" where
  "thread_item ell me path t =
     (let ms = tMessages t
      in if tResolved t \<or> ms = [] then None
         else
           let first = hd ms; lst = last ms; mine = list_ex (\<lambda>m. by_me (mBy m) me) ms
           in Some \<lparr>iiPath = path, iiThread = tId t,
                iiScope = (if tScope t = ''document'' then ''document'' else ''inline''),
                iiQuote = clip ell (tQuote t) 80, iiOpenedBy = signed_by first, iiOpenedAt = mAt first,
                iiLastBy = signed_by lst, iiLastAt = mAt lst,
                iiPreview = clip ell (case mBody lst of Some b \<Rightarrow> b | None \<Rightarrow> []) PREVIEW_MAX,
                iiReplies = length ms - 1, iiMentionsMe = list_ex (\<lambda>m. mentions_me (mBody m) me) ms,
                iiWaitingOnMe = (mine \<and> \<not> by_me (mBy lst) me), iiMine = mine\<rparr>)"

definition inbox_band :: "inbox_item \<Rightarrow> int" where
  "inbox_band i = (if iiMentionsMe i then 0 else if iiWaitingOnMe i then 1 else 2)"

definition or_empty :: "jstr option \<Rightarrow> jstr" where
  "or_empty v = (case v of Some t \<Rightarrow> t | None \<Rightarrow> [])"

definition by_need :: "(jstr \<Rightarrow> jstr \<Rightarrow> int) \<Rightarrow> inbox_item \<Rightarrow> inbox_item \<Rightarrow> int" where
  "by_need lc a b =
     (let d = inbox_band a - inbox_band b; at = lc (or_empty (iiLastAt b)) (or_empty (iiLastAt a))
      in if d \<noteq> 0 then d else if at \<noteq> 0 then at else lc (iiPath a) (iiPath b))"

record inbox_list =
  ibItems :: "inbox_item list"
  ibTruncated :: nat
  ibSeen :: nat
  ibResolved :: nat
  ibMentions :: nat
  ibWaiting :: nat
  ibOpen :: nat

definition open_rows :: "jstr \<Rightarrow> author_rec option \<Rightarrow> (jstr \<times> thread list) list \<Rightarrow> inbox_item list" where
  "open_rows ell me files = concat (map (\<lambda>f. List.map_filter (thread_item ell me (fst f)) (snd f)) files)"

definition inbox ::
  "jstr \<Rightarrow> (jstr \<Rightarrow> jstr \<Rightarrow> int) \<Rightarrow> (jstr \<times> thread list) list \<Rightarrow> author_rec option \<Rightarrow> nat option \<Rightarrow> inbox_list" where
  "inbox ell lc files me m =
     (let most = (case m of None \<Rightarrow> INBOX_MAX | Some n \<Rightarrow> n);
          items = js_sort (by_need lc) (open_rows ell me files);
          truncated = length items - most
      in \<lparr>ibItems = (if truncated \<noteq> 0 then take most items else items), ibTruncated = truncated,
          ibSeen = sum_list (map (\<lambda>f. length (snd f)) files),
          ibResolved = sum_list (map (\<lambda>f. length (filter tResolved (snd f))) files),
          ibMentions = length (filter iiMentionsMe items),
          ibWaiting = length (filter (\<lambda>i. iiWaitingOnMe i \<and> \<not> iiMentionsMe i) items),
          ibOpen = length items\<rparr>)"

section \<open>The roster\<close>

record person =
  psAuthor :: author
  psDocuments :: "jstr list"
  psTyping :: bool

record people =
  ppPeople :: "person list"
  ppAnonymous :: nat

definition add_party :: "(jstr \<times> person) list \<times> nat \<Rightarrow> jstr \<times> party \<Rightarrow> (jstr \<times> person) list \<times> nat" where
  "add_party acc dp =
     (let (known, anonymous) = acc; (doc, p) = dp
      in case pAuthor p of
           None \<Rightarrow> (known, anonymous + 1)
         | Some a \<Rightarrow>
             if aid a = [] then (known, anonymous + 1)
             else
               let old = (case map_of known (aid a) of Some o1 \<Rightarrow> o1
                          | None \<Rightarrow> \<lparr>psAuthor = a, psDocuments = [], psTyping = False\<rparr>);
                   docs = (if doc \<noteq> [] \<and> doc \<notin> set (psDocuments old) then psDocuments old @ [doc] else psDocuments old)
               in (AList.update (aid a) \<lparr>psAuthor = psAuthor old, psDocuments = docs, psTyping = psTyping old \<or> pTyping p\<rparr> known,
                   anonymous))"

definition people_of :: "(jstr \<Rightarrow> jstr \<Rightarrow> int) \<Rightarrow> (jstr \<times> party) list \<Rightarrow> people" where
  "people_of lc ds =
     (let (known, anonymous) = foldl add_party ([], 0) ds
      in \<lparr>ppPeople = js_sort (\<lambda>a b. lc (aname (psAuthor a)) (aname (psAuthor b))) (map snd known), ppAnonymous = anonymous\<rparr>)"

section \<open>What the panel says\<close>

definition plural :: "nat \<Rightarrow> jstr \<Rightarrow> jstr \<Rightarrow> jstr" where
  "plural n one many = to_dec n @ '' '' @ (if n = 1 then one else many)"

definition somebody :: "jstr \<Rightarrow> jstr" where
  "somebody name = (if name \<noteq> [] \<and> map js_lower (js_trim name) \<notin> {''you'', ''me''} then name else ''Somebody'')"

definition presence_text :: "person list \<Rightarrow> author_rec option \<Rightarrow> (person list \<times> jstr) option" where
  "presence_text ps me =
     (let others = filter (\<lambda>p. case me of None \<Rightarrow> True | Some m \<Rightarrow> aid (psAuthor p) \<noteq> rid m) ps;
          typing = length (filter psTyping others)
      in case others of
           [] \<Rightarrow> None
         | [p] \<Rightarrow> Some (others, somebody (aname (psAuthor p)) @ (if psTyping p then '' is editing'' else '' is here''))
         | _ \<Rightarrow> Some (others, to_dec (length others) @ '' others here'' @
                 (if typing \<noteq> 0 then '', '' @ to_dec typing @ '' editing'' else [])))"

record scan_stats =
  ssDocuments :: nat
  ssProjects :: nat
  ssResolved :: nat
  ssTruncated :: nat
  ssShown :: nat
  ssUnreadable :: nat

definition inbox_honesty :: "scan_stats \<Rightarrow> jstr" where
  "inbox_honesty s =
     join '' ''
       ([''Read '' @ plural (ssDocuments s) ''document'' ''documents'' @ '' with comments in '' @
           plural (ssProjects s) ''project'' ''projects'' @ ''.''] @
        (if ssResolved s \<noteq> 0 then [plural (ssResolved s) ''resolved thread'' ''resolved threads'' @ '' not shown.''] else []) @
        (if ssTruncated s \<noteq> 0 then [''Stopped after '' @ to_dec (ssShown s) @ ''; '' @ to_dec (ssTruncated s) @ '' more.''] else []) @
        (if ssUnreadable s \<noteq> 0 then [plural (ssUnreadable s) ''document'' ''documents'' @ '' could not be read.''] else []) @
        [''Comments made in connected tools are not in the repository and are not here.''])"

definition inbox_count :: "inbox_list \<Rightarrow> jstr" where
  "inbox_count r =
     (if ibOpen r = 0 then ''No open threads''
      else join (CHR '' '' # CHR 0xB7 # '' '')
        ([plural (ibOpen r) ''open thread'' ''open threads''] @
         (if ibMentions r \<noteq> 0 then [to_dec (ibMentions r) @ '' mentioning you''] else []) @
         (if ibWaiting r \<noteq> 0 then [to_dec (ibWaiting r) @ '' waiting on you''] else [])))"

section \<open>Ages\<close>

lemma round_div_bounds:
  assumes "0 < d"
  shows "2 * d * round_div x d \<le> 2 * x + d" "2 * x + d < 2 * d * round_div x d + 2 * d"
proof -
  have "2 * x + d = 2 * d * round_div x d + (2 * x + d) mod (2 * d)"
    by (simp add: round_div_def)
  moreover have "0 \<le> (2 * x + d) mod (2 * d)" "(2 * x + d) mod (2 * d) < 2 * d"
    using assms by simp_all
  ultimately show "2 * d * round_div x d \<le> 2 * x + d" "2 * x + d < 2 * d * round_div x d + 2 * d"
    by linarith+
qed

lemma round_div_grows: "0 < d \<Longrightarrow> d \<le> x \<Longrightarrow> 1 \<le> round_div x d"
  using round_div_bounds(2) [of d x] by (smt (verit) mult_less_0_iff mult_nonneg_nonpos)

section \<open>Ranking and counting\<close>

lemma by_need_signed:
  assumes "signed_comparator lc"
  shows "signed_comparator (by_need lc)"
proof -
  have "by_need lc = then_by (by_key inbox_band)
      (then_by (\<lambda>a b. lc (or_empty (iiLastAt b)) (or_empty (iiLastAt a))) (\<lambda>a b. lc (iiPath a) (iiPath b)))"
    by (intro ext) (simp add: by_need_def then_by_def by_key_def Let_def)
  then show ?thesis
    using then_by_signed [OF key_cmp.signed_comparator_axioms then_by_signed [OF
        signed_reverse [OF assms, of "\<lambda>i. or_empty (iiLastAt i)"] signed_of [OF assms, of iiPath]]] by (simp only:)
qed

lemma rows_of_file: "length (List.map_filter (thread_item ell me path) ts) =
    length (filter (\<lambda>t. \<not> tResolved t \<and> tMessages t \<noteq> []) ts)"
  by (induction ts) (auto simp: thread_item_def Let_def List.map_filter_simps)

lemma open_and_resolved:
  "length (open_rows ell me files) + sum_list (map (\<lambda>f. length (filter tResolved (snd f))) files) +
     sum_list (map (\<lambda>f. length (filter (\<lambda>t. \<not> tResolved t \<and> tMessages t = []) (snd f))) files) =
   sum_list (map (\<lambda>f. length (snd f)) files)"
proof (induction files)
  case (Cons f files)
  have "length (filter (\<lambda>t. \<not> tResolved t \<and> tMessages t \<noteq> []) ts) + length (filter tResolved ts) +
      length (filter (\<lambda>t. \<not> tResolved t \<and> tMessages t = []) ts) = length ts" for ts :: "thread list"
    by (induction ts) auto
  from this [of "snd f"] show ?case
    using Cons by (simp add: open_rows_def rows_of_file)
qed (simp add: open_rows_def)

section \<open>People\<close>

text \<open>The parties of an author, and what the folded people say of them.\<close>

definition known_as :: "jstr \<Rightarrow> jstr \<times> party \<Rightarrow> bool" where
  "known_as i dp = (i \<noteq> [] \<and> (\<exists>a. pAuthor (snd dp) = Some a \<and> aid a = i))"

definition says :: "(jstr \<times> party) list \<Rightarrow> jstr \<Rightarrow> person \<Rightarrow> bool" where
  "says ds i p =
     (aid (psAuthor p) = i \<and> distinct (psDocuments p) \<and>
      set (psDocuments p) = {d. d \<noteq> [] \<and> (\<exists>q. (d, q) \<in> set ds \<and> known_as i (d, q))} \<and>
      (psTyping p \<longleftrightarrow> (\<exists>dp \<in> set ds. known_as i dp \<and> pTyping (snd dp))))"

definition told :: "(jstr \<times> party) list \<Rightarrow> person option \<Rightarrow> jstr \<Rightarrow> bool" where
  "told ds v i =
     (case v of None \<Rightarrow> \<not> (\<exists>dp \<in> set ds. known_as i dp)
      | Some p \<Rightarrow> (\<exists>dp \<in> set ds. known_as i dp) \<and> says ds i p)"

definition people_ok :: "(jstr \<times> party) list \<Rightarrow> (jstr \<times> person) list \<times> nat \<Rightarrow> bool" where
  "people_ok ds acc =
     (distinct (map fst (fst acc)) \<and> (\<forall>i. told ds (map_of (fst acc) i) i) \<and>
      snd acc = length (filter (\<lambda>dp. \<not> (\<exists>i. known_as i dp)) ds))"

lemma told_other: "\<not> known_as i dp \<Longrightarrow> told ds v i \<Longrightarrow> told (ds @ [dp]) v i"
  by (cases dp) (auto simp: told_def says_def split: option.splits)

lemma add_party_ok:
  assumes "people_ok ds acc"
  shows "people_ok (ds @ [dp]) (add_party acc dp)"
proof -
  obtain known n where acc: "acc = (known, n)" by (cases acc)
  obtain d q where dp: "dp = (d, q)" by (cases dp)
  have ok: "distinct (map fst known)" "n = length (filter (\<lambda>dp. \<not> (\<exists>i. known_as i dp)) ds)"
    "told ds (map_of known i) i" for i
    using assms by (simp_all add: people_ok_def acc)
  show ?thesis
  proof (cases "\<exists>a. pAuthor q = Some a \<and> aid a \<noteq> []")
    case False
    then have no: "\<not> known_as i dp" for i
      by (auto simp: known_as_def dp)
    have step: "add_party acc dp = (known, n + 1)"
      using False by (auto simp: add_party_def acc dp split: option.splits)
    show ?thesis
      unfolding people_ok_def step fst_conv snd_conv using ok told_other [OF no] no by simp
  next
    case True
    then obtain a where a: "pAuthor q = Some a" "aid a \<noteq> []" by blast
    then have who: "known_as i dp \<longleftrightarrow> i = aid a" for i
      by (auto simp: known_as_def dp)
    define old where "old = (case map_of known (aid a) of Some o1 \<Rightarrow> o1
        | None \<Rightarrow> \<lparr>psAuthor = a, psDocuments = [], psTyping = False\<rparr>)"
    define new where "new = \<lparr>psAuthor = psAuthor old,
      psDocuments = (if d \<noteq> [] \<and> d \<notin> set (psDocuments old) then psDocuments old @ [d] else psDocuments old),
      psTyping = psTyping old \<or> pTyping q\<rparr>"
    have step: "add_party acc dp = (AList.update (aid a) new known, n)"
      using a by (simp add: add_party_def acc dp new_def old_def Let_def)
    have "says ds (aid a) old"
      using ok(3) [of "aid a"] by (auto simp: old_def told_def says_def split: option.splits)
    then have "told (ds @ [dp]) (Some new) (aid a)"
      using who unfolding dp by (auto simp: told_def says_def new_def)
    then have "told (ds @ [dp]) (map_of (AList.update (aid a) new known) i) i" for i
      using told_other [of i dp ds "map_of known i"] ok(3) [of i] who by (auto simp: update_conv')
    moreover have "filter (\<lambda>dp. \<not> (\<exists>i. known_as i dp)) (ds @ [dp]) = filter (\<lambda>dp. \<not> (\<exists>i. known_as i dp)) ds"
      using who by simp
    ultimately show ?thesis
      unfolding people_ok_def step fst_conv snd_conv using ok(1,2) by (simp add: distinct_update)
  qed
qed

lemma people_folded: "people_ok ds (foldl add_party ([], 0) ds)"
proof (induction ds rule: rev_induct)
  case (snoc dp ds)
  then show ?case
    using add_party_ok by simp
qed (simp add: people_ok_def told_def)

section \<open>Properties\<close>

text \<open>
  C19: the inbox shows a prefix of the open threads ranked by need (naming me, then waiting on
  me, then the rest; newest first within each; then by path), at most the maximum. What is cut
  off is counted and needs me no more than what is shown, nobody is counted twice, and what was
  seen is what is open, what is resolved and the threads emptied of every message.
\<close>

theorem inbox_ranks_and_counts:
  assumes lc: "signed_comparator lc" and r: "r = inbox ell lc files me (Some n)" and all: "all = open_rows ell me files"
  shows "\<exists>hidden. mset (ibItems r @ hidden) = mset all \<and>
    sorted_wrt (\<lambda>x y. by_need lc x y \<le> 0) (ibItems r @ hidden) \<and>
    length (ibItems r) = min n (length all) \<and> length hidden = ibTruncated r \<and>
    (\<forall>x\<in>set (ibItems r). \<forall>y\<in>set hidden. inbox_band x \<le> inbox_band y) \<and>
    ibOpen r = length all \<and> ibMentions r + ibWaiting r \<le> ibOpen r \<and>
    ibOpen r + ibResolved r + sum_list (map (\<lambda>f. length (filter (\<lambda>t. \<not> tResolved t \<and> tMessages t = []) (snd f))) files) = ibSeen r"
proof -
  let ?ranked = "js_sort (by_need lc) all"
  note cut = comparator.cut_off [OF signed_comparator.is_comparator [OF by_need_signed [OF lc]], where n = n and xs = all]
  have need: "inbox_band x \<le> inbox_band y" if "x \<in> set (take n ?ranked)" "y \<in> set (drop n ?ranked)" for x y
    using cut(5) [OF that] by (auto simp: by_need_def Let_def split: if_splits)
  have len: "length ?ranked = length all"
    by (metis mset_js_sort size_mset)
  have parts: "ibItems r = take n ?ranked" "ibTruncated r = length all - n" "ibOpen r = length all"
    "ibMentions r = length (filter iiMentionsMe ?ranked)"
    "ibWaiting r = length (filter (\<lambda>i. iiWaitingOnMe i \<and> \<not> iiMentionsMe i) ?ranked)"
    "ibResolved r = sum_list (map (\<lambda>f. length (filter tResolved (snd f))) files)"
    "ibSeen r = sum_list (map (\<lambda>f. length (snd f)) files)"
    by (simp_all add: r inbox_def Let_def all [symmetric] len)
  have "ibWaiting r \<le> length (filter (\<lambda>i. \<not> iiMentionsMe i) ?ranked)"
    unfolding parts by (rule length_filter_mono) blast
  then have "ibMentions r + ibWaiting r \<le> ibOpen r"
    using sum_length_filter_compl [of iiMentionsMe ?ranked] by (simp add: parts len)
  then show ?thesis
    using cut(1-4) need parts(2,3) open_and_resolved [of ell me files] unfolding parts(1,6,7) all
    by (intro exI [of _ "drop n ?ranked"]) (simp add: all)
qed


lemma inbox_ranks_and_counts_witness:
  "let me = Some (\<lparr>rid = ''m1'', rname = ''Roma'', rkind = ''human'', rkey = [], runnamed = False, remail = None\<rparr> :: author_rec);
       by = (\<lparr>rid = ''a2'', rname = ''Ann'', rkind = ''human'', rkey = [], runnamed = False, remail = None\<rparr> :: author_rec);
       msg = (\<lambda>t. \<lparr>mId = ''1'', mAuthor = [], mAt = None, mBody = Some t, mBy = by\<rparr>);
       thr = (\<lambda>i t. \<lparr>tId = i, tScope = ''document'', tQuote = [], tOccurrence = 0, tAnchor = None, tResolved = False, tMessages = [msg t], tTasks = []\<rparr>);
       r = inbox [] (by_key (\<lambda>s. int (length s))) [(''a.md'', [thr ''t1'' ''see this'', thr ''t2'' ''@roma look''])] me (Some 1)
   in ibTruncated r = 1 \<and> map iiThread (ibItems r) = [''t2''] \<and> ibMentions r + ibWaiting r \<le> ibOpen r"
proof -
  let ?me = "Some (\<lparr>rid = ''m1'', rname = ''Roma'', rkind = ''human'', rkey = [], runnamed = False, remail = None\<rparr> :: author_rec)"
  let ?by = "\<lparr>rid = ''a2'', rname = ''Ann'', rkind = ''human'', rkey = [], runnamed = False, remail = None\<rparr> :: author_rec"
  let ?thr = "\<lambda>i t. \<lparr>tId = i, tScope = ''document'', tQuote = [], tOccurrence = 0, tAnchor = None, tResolved = False,
    tMessages = [\<lparr>mId = ''1'', mAuthor = [], mAt = None, mBody = Some t, mBy = ?by\<rparr>], tTasks = []\<rparr>"
  let ?r = "inbox [] (by_key (\<lambda>s. int (length s))) [(''a.md'', [?thr ''t1'' ''see this'', ?thr ''t2'' ''@roma look''])] ?me (Some 1)"
  have "ibTruncated ?r = 1" "map iiThread (ibItems ?r) = [''t2'']"
    by code_simp+
  with inbox_ranks_and_counts [OF key_cmp.signed_comparator_axioms [of "\<lambda>s. int (length s)"] refl refl] show ?thesis
    unfolding Let_def by metis
qed

text \<open>
  One row for one person. The people of a project are one row for each id that some party
  carries, with that author, exactly the documents their parties have open, each once, and typing when
  any of their parties is; the parties without an id are counted and shown nowhere.
\<close>

theorem people_once_with_their_documents:
  "let r = people_of lc ds; rows = ppPeople r
   in distinct (map (\<lambda>p. aid (psAuthor p)) rows) \<and>
      set (map (\<lambda>p. aid (psAuthor p)) rows) = {i. \<exists>dp. dp \<in> set ds \<and> known_as i dp} \<and>
      (\<forall>p \<in> set rows. says ds (aid (psAuthor p)) p) \<and>
      ppAnonymous r = length (filter (\<lambda>dp. case pAuthor (snd dp) of None \<Rightarrow> True | Some a \<Rightarrow> aid a = []) ds)"
proof -
  obtain known n where f: "foldl add_party ([], 0) ds = (known, n)" by fastforce
  let ?cmp = "\<lambda>a b. lc (aname (psAuthor a)) (aname (psAuthor b))"
  have ok: "distinct (map fst known)" "\<And>i. told ds (map_of known i) i" "n = length (filter (\<lambda>dp. \<not> (\<exists>i. known_as i dp)) ds)"
    using people_folded [of ds] by (auto simp: people_ok_def f)
  have row: "says ds i p" if "(i, p) \<in> set known" for i p
    using ok(2) [of i] map_of_is_SomeI [OF ok(1) that] by (simp add: told_def)
  then have ids: "map (\<lambda>p. aid (psAuthor p)) (map snd known) = map fst known"
    by (auto simp: says_def)
  have "mset (map (\<lambda>p. aid (psAuthor p)) (js_sort ?cmp (map snd known))) = mset (map fst known)"
    by (simp only: mset_map mset_js_sort ids [symmetric])
  then have "distinct (map (\<lambda>p. aid (psAuthor p)) (js_sort ?cmp (map snd known)))"
    using ok(1) mset_eq_imp_distinct_iff by blast
  moreover have "set (map fst known) = {i. \<exists>dp. dp \<in> set ds \<and> known_as i dp}"
  proof -
    have "i \<in> set (map fst known) \<longleftrightarrow> (\<exists>dp. dp \<in> set ds \<and> known_as i dp)" for i
      using ok(2) [of i] by (cases "map_of known i") (auto simp: told_def map_of_eq_None_iff dest: map_of_SomeD intro: rev_image_eqI)
    then show ?thesis by blast
  qed
  moreover have "set (map (\<lambda>p. aid (psAuthor p)) (js_sort ?cmp (map snd known))) = set (map fst known)"
    by (simp only: set_map set_js_sort flip: ids)
  moreover have "says ds (aid (psAuthor p)) p" if "p \<in> set (js_sort ?cmp (map snd known))" for p
  proof -
    obtain i where "(i, p) \<in> set known"
      using \<open>p \<in> set (js_sort ?cmp (map snd known))\<close> by auto
    then show ?thesis
      using row says_def by metis
  qed
  moreover have "(\<not> (\<exists>i. known_as i dp)) = (case pAuthor (snd dp) of None \<Rightarrow> True | Some a \<Rightarrow> aid a = [])" for dp
    by (auto simp: known_as_def split: option.splits)
  ultimately show ?thesis
    using ok(3) by (simp add: people_of_def f Let_def)
qed

text \<open>
  An age is off by less than one of its unit. It reads as just now only in the first
  minute; otherwise it is a number of minutes below 60, hours below 24, days below 30, months of thirty
  days below 12, or years of twelve such months, never zero, and less than one of them
  away from the time that passed.
\<close>

theorem age_within_a_unit:
  assumes "date at = Some ms"
  shows "age_text date at now = ''just now'' \<and> now - ms < 60000 \<or>
    (\<exists>n u w most. (u, w, most) \<in> {(''m'', 60000, Some 60), (''h'', 3600000, Some 24), (''d'', 86400000, Some 30),
        (''mo'', 2592000000, Some 12), (''y'', 31104000000, None)} \<and>
      age_text date at now = unit_text n u \<and> 1 \<le> n \<and> (case most of None \<Rightarrow> True | Some m \<Rightarrow> n < m) \<and> \<bar>now - ms - n * w\<bar> < w)"
proof -
  define s where "s = max 0 (round_div (now - ms) 1000)"
  define mi where "mi = round_div s 60"
  define h where "h = round_div mi 60"
  define d where "d = round_div h 24"
  define mo where "mo = round_div d 30"
  define y where "y = round_div mo 12"
  note bounds = round_div_bounds [of 1000 "now - ms"] round_div_bounds [of 60 s, folded mi_def] round_div_bounds [of 60 mi, folded h_def]
    round_div_bounds [of 24 h, folded d_def] round_div_bounds [of 30 d, folded mo_def] round_div_bounds [of 12 mo, folded y_def]
  have age: "age_text date at now = (if s < 60 then ''just now'' else if mi < 60 then unit_text mi ''m''
      else if h < 24 then unit_text h ''h'' else if d < 30 then unit_text d ''d''
      else if mo < 12 then unit_text mo ''mo'' else unit_text y ''y'')"
    by (simp add: age_text_def assms Let_def s_def mi_def h_def d_def mo_def y_def)
  have here: ?thesis if "age_text date at now = unit_text n u" "1 \<le> n" "\<bar>now - ms - n * w\<bar> < w" "(case most of None \<Rightarrow> True | Some m \<Rightarrow> n < m)"
    "(u, w, most) \<in> {(''m'', 60000, Some 60), (''h'', 3600000, Some 24), (''d'', 86400000, Some 30), (''mo'', 2592000000, Some 12), (''y'', 31104000000, None)}"
    for n u w most
    using that by blast
  consider "s < 60" | "60 \<le> s" "mi < 60" | "60 \<le> s" "60 \<le> mi" "h < 24" | "60 \<le> s" "60 \<le> mi" "24 \<le> h" "d < 30"
    | "60 \<le> s" "60 \<le> mi" "24 \<le> h" "30 \<le> d" "mo < 12" | "60 \<le> s" "60 \<le> mi" "24 \<le> h" "30 \<le> d" "12 \<le> mo"
    by linarith
  then show ?thesis
  proof cases
    case 1
    then show ?thesis using bounds(1,2) by (auto simp: age s_def)
  next
    case 2
    then have "1 \<le> mi" "\<bar>now - ms - mi * 60000\<bar> < 60000"
      using bounds(1-4) by (auto simp: s_def)
    then show ?thesis using 2 by (intro here [of mi "''m''" 60000 "Some 60"]) (auto simp: age)
  next
    case 3
    then have "1 \<le> h" "\<bar>now - ms - h * 3600000\<bar> < 3600000"
      using bounds(1-6) by (auto simp: s_def)
    then show ?thesis using 3 by (intro here [of h "''h''" 3600000 "Some 24"]) (auto simp: age)
  next
    case 4
    then have "1 \<le> d" "\<bar>now - ms - d * 86400000\<bar> < 86400000"
      using bounds(1-8) by (auto simp: s_def)
    then show ?thesis using 4 by (intro here [of d "''d''" 86400000 "Some 30"]) (auto simp: age)
  next
    case 5
    then have "1 \<le> mo" "\<bar>now - ms - mo * 2592000000\<bar> < 2592000000"
      using bounds(1-10) by (auto simp: s_def)
    then show ?thesis using 5 by (intro here [of mo "''mo''" 2592000000 "Some 12"]) (auto simp: age)
  next
    case 6
    then have "1 \<le> y" "\<bar>now - ms - y * 31104000000\<bar> < 31104000000"
      using bounds by (auto simp: s_def)
    then show ?thesis using 6 by (intro here [of y "''y''" 31104000000 "None"]) (auto simp: age)
  qed
qed

end
