(* ===== verification/Quality_Anchor.thy ===== *)
theory Quality_Anchor
  imports Section_Move Md_Rewrap
begin

text \<open>
  browser/quality-anchor.js: where the anchors of a finding are in an open document. A
  document is its flattened index (the text and, for every character, its position) and its
  headings. A span is the n-th place where the quote stands, found exactly or, when it stands
  nowhere exactly, by its words; a section reaches from the heading a breadcrumb names to the
  next heading that is not deeper. The theorems are what a range found says of the document,
  that "not there" and "stopped looking" are told apart, the extent of a section, and that
  every anchor is counted once.
\<close>

section \<open>Searching\<close>

definition OCCURRENCE_LIMIT :: nat where "OCCURRENCE_LIMIT = 500"

text \<open>\<open>text.indexOf(needle, from)\<close>.\<close>

fun find_sub :: "jstr \<Rightarrow> nat \<Rightarrow> jstr \<Rightarrow> nat option" where
  "find_sub needle i [] = (if needle = [] then Some i else None)"
| "find_sub needle i (c # r) = (if starts_with (c # r) needle then Some i else find_sub needle (i + 1) r)"

definition index_of :: "jstr \<Rightarrow> jstr \<Rightarrow> nat \<Rightarrow> nat option" where
  "index_of body needle from = find_sub needle (min from (length body)) (drop from body)"

text \<open>The loop of \<open>locateExact\<close>, entered at a position found.\<close>

function exact_from :: "jstr \<Rightarrow> jstr \<Rightarrow> nat \<Rightarrow> nat list \<Rightarrow> nat option \<Rightarrow> nat list \<times> bool" where
  "exact_from body needle limit positions None = (positions, False)"
| "exact_from body needle limit positions (Some at) =
     (let ps = positions @ [at]
      in if length ps \<ge> limit then (ps, index_of body needle (at + 1) \<noteq> None)
         else exact_from body needle limit ps (index_of body needle (at + 1)))"
  by pat_completeness auto
termination
  by (relation "measure (\<lambda>(body, needle, limit, positions, at). case at of None \<Rightarrow> 0 | Some _ \<Rightarrow> Suc limit - length positions)")
    (auto split: option.splits)

definition locate_exact :: "jstr \<Rightarrow> jstr \<Rightarrow> nat \<Rightarrow> nat list \<times> bool" where
  "locate_exact body needle limit = exact_from body needle limit [] (index_of body needle 0)"

text \<open>The words with any run of white space between them, where the text starts: the length matched.\<close>

fun match_words :: "jstr list \<Rightarrow> jstr \<Rightarrow> nat option" where
  "match_words [] s = Some 0"
| "match_words [w] s = (if starts_with s w then Some (length w) else None)"
| "match_words (w # v # ws) s =
     (if \<not> starts_with s w then None
      else let r = drop (length w) s; n = length (takeWhile is_space r)
           in if n = 0 then None
              else map_option (\<lambda>m. length w + n + m) (match_words (v # ws) (drop n r)))"

fun find_words :: "jstr list \<Rightarrow> nat \<Rightarrow> jstr \<Rightarrow> (nat \<times> nat) option" where
  "find_words ws i [] = None"
| "find_words ws i (c # r) =
     (case match_words ws (c # r) of Some n \<Rightarrow> Some (i, n) | None \<Rightarrow> find_words ws (i + 1) r)"

text \<open>\<open>pattern.exec(text)\<close> from \<open>lastIndex\<close>.\<close>

definition exec_words :: "jstr \<Rightarrow> jstr list \<Rightarrow> nat \<Rightarrow> (nat \<times> nat) option" where
  "exec_words body ws from = find_words ws from (drop from body)"

function loose_from ::
  "jstr \<Rightarrow> jstr list \<Rightarrow> nat \<Rightarrow> (nat \<times> nat) list \<Rightarrow> (nat \<times> nat) option \<Rightarrow> (nat \<times> nat) list \<times> bool" where
  "loose_from body ws limit positions None = (positions, False)"
| "loose_from body ws limit positions (Some m) =
     (let ps = positions @ [m]; last_index = fst m + snd m
      in if length ps \<ge> limit then (ps, exec_words body ws last_index \<noteq> None)
         else loose_from body ws limit ps (exec_words body ws last_index))"
  by pat_completeness auto
termination
  by (relation "measure (\<lambda>(body, ws, limit, positions, m). case m of None \<Rightarrow> 0 | Some _ \<Rightarrow> Suc limit - length positions)")
    (auto split: option.splits)

definition locate_loose :: "jstr \<Rightarrow> jstr \<Rightarrow> nat \<Rightarrow> (nat \<times> nat) list \<times> bool" where
  "locate_loose body needle limit =
     (let ws = tokenize_words needle
      in if ws = [] then ([], False) else loose_from body ws limit [] (exec_words body ws 0))"

section \<open>Spans\<close>

record text_index =
  ixText :: jstr
  ixMap :: "nat list"

definition map_at :: "nat list \<Rightarrow> nat \<Rightarrow> nat option" where
  "map_at m i = (if i < length m then Some (m ! i) else None)"

definition map_range :: "nat list \<Rightarrow> nat \<Rightarrow> nat \<Rightarrow> (nat \<times> nat) option" where
  "map_range m startIdx endIdx =
     (case (map_at m startIdx, map_at m (endIdx - 1)) of (Some a, Some b) \<Rightarrow> Some (a, b + 1) | _ \<Rightarrow> None)"

datatype range = Range nat nat | Cut_short | Gone

definition range_or_gone :: "(nat \<times> nat) option \<Rightarrow> range" where
  "range_or_gone r = (case r of Some (a, b) \<Rightarrow> Range a b | None \<Rightarrow> Gone)"

definition resolve_span :: "text_index \<Rightarrow> jstr \<Rightarrow> nat \<Rightarrow> range" where
  "resolve_span index quote occurrence =
     (let body = ixText index; exact = locate_exact body quote OCCURRENCE_LIMIT;
          loose = locate_loose body quote OCCURRENCE_LIMIT
      in if quote = [] then Gone
         else if fst exact \<noteq> [] then
           (if occurrence < length (fst exact)
            then range_or_gone (map_range (ixMap index) (fst exact ! occurrence) (fst exact ! occurrence + length quote))
            else if snd exact then Cut_short else Gone)
         else if fst loose \<noteq> [] then
           (if occurrence < length (fst loose)
            then (let (at, n) = fst loose ! occurrence in range_or_gone (map_range (ixMap index) at (at + n)))
            else if snd loose then Cut_short else Gone)
         else Gone)"

section \<open>Sections\<close>

record page_heading =
  pgLevel :: nat
  pgText :: jstr
  pgFrom :: nat
  pgIndex :: nat

text \<open>The longest suffix of at least two segments that some heading reads as.\<close>

fun suffix_heading :: "page_heading list \<Rightarrow> jstr list \<Rightarrow> nat \<Rightarrow> page_heading option" where
  "suffix_heading hs segments 0 = None"
| "suffix_heading hs segments (Suc n) =
     (if Suc n < 2 then None
      else
        let joined = normalize_text (join '' '' (drop (length segments - Suc n) segments))
        in if joined = [] then suffix_heading hs segments n
           else case List.find (\<lambda>h. normalize_text (pgText h) = joined) hs of
               Some h \<Rightarrow> Some h
             | None \<Rightarrow> suffix_heading hs segments n)"

definition match_heading :: "page_heading list \<Rightarrow> jstr \<Rightarrow> page_heading option" where
  "match_heading hs sectionPath =
     (let leaf = section_leaf sectionPath; nleaf = normalize_text leaf; segments = crumbs sectionPath
      in if hs = [] \<or> leaf = [] then None
         else case List.find (\<lambda>h. pgText h = leaf) hs of
             Some h \<Rightarrow> Some h
           | None \<Rightarrow>
               (case (if nleaf \<noteq> [] then List.find (\<lambda>h. normalize_text (pgText h) = nleaf) hs else None) of
                  Some h \<Rightarrow> Some h
                | None \<Rightarrow> suffix_heading hs segments (length segments)))"

definition text_end :: "text_index \<Rightarrow> nat" where
  "text_end index = (if ixMap index \<noteq> [] then last (ixMap index) + 2 else 0)"

text \<open>What follows a heading in an ordered list: \<open>ordered.indexOf(heading)\<close> and the entries past it.\<close>

fun entries_after :: "'a \<Rightarrow> 'a list \<Rightarrow> 'a list" where
  "entries_after x [] = []"
| "entries_after x (y # ys) = (if y = x then ys else entries_after x ys)"

definition resolve_section :: "text_index \<Rightarrow> page_heading list \<Rightarrow> jstr \<Rightarrow> nat \<Rightarrow> (nat \<times> nat \<times> page_heading) option" where
  "resolve_section index hs sectionPath occurrence =
     (case match_heading hs sectionPath of
        None \<Rightarrow> None
      | Some matched \<Rightarrow>
          (case List.find (\<lambda>h. pgText h = pgText matched \<and> pgIndex h = occurrence) hs of
             None \<Rightarrow> None
           | Some h \<Rightarrow>
               (let ordered = js_sort (by_key (\<lambda>h. int (pgFrom h))) hs;
                    upto = (case List.find (\<lambda>k. pgLevel k \<le> pgLevel h) (entries_after h ordered) of
                              Some k \<Rightarrow> pgFrom k | None \<Rightarrow> text_end index)
                in Some (pgFrom h, upto, h))))"

section \<open>Anchors and findings\<close>

record anchor_rec =
  plFile :: jstr
  plGranularity :: jstr
  plText :: jstr
  plSection :: jstr
  plOccurrence :: nat

definition resolve_anchor :: "text_index \<Rightarrow> page_heading list \<Rightarrow> anchor_rec \<Rightarrow> range" where
  "resolve_anchor index hs p =
     (if plGranularity p = ''span'' then resolve_span index (plText p) (plOccurrence p)
      else if plGranularity p = ''section'' then
        (case resolve_section index hs (plSection p) (plOccurrence p) of Some (a, b, h) \<Rightarrow> Range a b | None \<Rightarrow> Gone)
      else Gone)"

record placed =
  pcRanges :: "(nat \<times> nat \<times> anchor_rec) list"
  pcResolved :: nat
  pcOrphaned :: nat
  pcTruncated :: nat

definition place_one :: "text_index \<Rightarrow> page_heading list \<Rightarrow> placed \<Rightarrow> anchor_rec \<Rightarrow> placed" where
  "place_one index hs r p =
     (case resolve_anchor index hs p of
        Cut_short \<Rightarrow> r\<lparr>pcTruncated := pcTruncated r + 1, pcOrphaned := pcOrphaned r + 1\<rparr>
      | Range a b \<Rightarrow> r\<lparr>pcRanges := pcRanges r @ [(a, b, p)], pcResolved := pcResolved r + 1\<rparr>
      | Gone \<Rightarrow> r\<lparr>pcOrphaned := pcOrphaned r + 1\<rparr>)"

definition resolve_finding :: "text_index \<Rightarrow> page_heading list \<Rightarrow> anchor_rec list \<Rightarrow> jstr option \<Rightarrow> placed" where
  "resolve_finding index hs all file =
     foldl (place_one index hs) \<lparr>pcRanges = [], pcResolved = 0, pcOrphaned = 0, pcTruncated = 0\<rparr>
       (case file of None \<Rightarrow> all | Some f \<Rightarrow> filter (\<lambda>p. plFile p = f) all)"

section \<open>The exact search finds the occurrences in order\<close>

text \<open>The positions a text stands at: the specification the search is measured by.\<close>

definition occurrences :: "jstr \<Rightarrow> jstr \<Rightarrow> nat list" where
  "occurrences body q = filter (\<lambda>i. starts_with (drop i body) q) [0..<length body]"

fun places :: "jstr \<Rightarrow> nat \<Rightarrow> jstr \<Rightarrow> nat list" where
  "places q i [] = []"
| "places q i (c # r) = (if starts_with (c # r) q then i # places q (i + 1) r else places q (i + 1) r)"

lemma places_filter: "places q i s = filter (\<lambda>p. starts_with (drop (p - i) s) q) [i..<i + length s]"
proof (induction q i s rule: places.induct)
  case (2 q i c r)
  have "drop (p - i) (c # r) = drop (p - Suc i) r" if "Suc i \<le> p" for p
  proof -
    have "p - i = Suc (p - Suc i)"
      using that by simp
    then show ?thesis by (metis drop_Suc_Cons)
  qed
  then have "filter (\<lambda>p. starts_with (drop (p - i) (c # r)) q) [Suc i..<Suc i + length r] =
      filter (\<lambda>p. starts_with (drop (p - Suc i) r) q) [Suc i..<Suc i + length r]"
    by (intro filter_cong) (auto simp only: set_upt atLeastLessThan_iff)
  moreover have "[i..<i + length (c # r)] = i # [Suc i..<Suc i + length r]"
    using upt_conv_Cons [of i "i + length (c # r)"] by (simp del: upt_Suc)
  ultimately show ?case
    using 2 by (simp del: upt_Suc)
qed simp

lemma places_occurrences: "places q 0 body = occurrences body q"
  by (simp add: places_filter occurrences_def)

definition first_of :: "'a list \<Rightarrow> 'a option" where
  "first_of xs = (case xs of [] \<Rightarrow> None | x # _ \<Rightarrow> Some x)"

lemma find_sub_places: "q \<noteq> [] \<Longrightarrow> find_sub q i s = first_of (places q i s)"
  by (induction q i s rule: find_sub.induct) (simp_all add: first_of_def)

lemma places_tail:
  "places q i s = p # ps \<Longrightarrow> i \<le> p \<and> p < i + length s \<and> ps = places q (p + 1) (drop (p + 1 - i) s)"
proof (induction q i s rule: places.induct)
  case (2 q i c r)
  then show ?case
    by (cases "starts_with (c # r) q") (auto simp: Suc_diff_le)
qed simp

lemma index_of_places: "q \<noteq> [] \<Longrightarrow> i \<le> length body \<Longrightarrow> index_of body q i = first_of (places q i (drop i body))"
  by (simp add: index_of_def find_sub_places)

lemma exact_from_places:
  assumes "q \<noteq> []" "i \<le> length body" "length acc < limit"
  shows "exact_from body q limit acc (first_of (places q i (drop i body))) =
    (acc @ take (limit - length acc) (places q i (drop i body)), limit - length acc < length (places q i (drop i body)))"
  using assms(2,3)
proof (induction "length (places q i (drop i body))" arbitrary: i acc)
  case 0
  then show ?case by (simp add: first_of_def)
next
  case (Suc n)
  then obtain p ps where pl: "places q i (drop i body) = p # ps"
    by (cases "places q i (drop i body)") auto
  have p: "i \<le> p" "p < length body" and ps: "ps = places q (p + 1) (drop (p + 1) body)"
    using places_tail [OF pl] Suc.prems(1) by auto
  have nxt: "index_of body q (p + 1) = first_of ps"
    using index_of_places [OF assms(1), of "p + 1" body] p ps by simp
  show ?case
  proof (cases "length (acc @ [p]) \<ge> limit")
    case True
    then have "limit - length acc = 1"
      using Suc.prems(2) by simp
    then show ?thesis
      using True nxt by (cases ps) (auto simp: pl first_of_def Let_def)
  next
    case False
    have "n = length ps"
      using Suc.hyps(2) pl by simp
    then have "exact_from body q limit (acc @ [p]) (first_of ps) =
        (acc @ [p] @ take (limit - length (acc @ [p])) ps, limit - length (acc @ [p]) < length ps)"
      using Suc.hyps(1) [of "p + 1" "acc @ [p]"] p ps False by simp
    moreover have "limit - length acc = Suc (limit - length (acc @ [p]))"
      using False by simp
    ultimately show ?thesis
      using False nxt by (simp add: pl first_of_def Let_def)
  qed
qed

lemma locate_exact_occurrences:
  assumes "q \<noteq> []" "0 < limit"
  shows "locate_exact body q limit = (take limit (occurrences body q), limit < length (occurrences body q))"
  using exact_from_places [OF assms(1), of 0 body "[]" limit] index_of_places [OF assms(1), of 0 body] assms(2)
  by (simp add: locate_exact_def places_occurrences)

section \<open>The loose search finds the words\<close>

lemma match_words_reads:
  "match_words ws s = Some n \<Longrightarrow> \<forall>w\<in>set ws. word w \<Longrightarrow> n \<le> length s \<and> tokenize_words (take n s) = ws"
proof (induction ws s arbitrary: n rule: match_words.induct)
  case (2 w s)
  then show ?case
    by (auto simp: starts_with_iff tok_word split: if_splits)
next
  case (3 w v ws s)
  let ?r = "drop (length w) s"
  let ?n = "length (takeWhile is_space ?r)"
  obtain m where sw: "starts_with s w" and k: "?n \<noteq> 0"
    and m: "match_words (v # ws) (drop ?n ?r) = Some m" and n: "n = length w + ?n + m"
    using "3.prems"(1) by (auto simp: Let_def split: if_splits)
  have ih: "m \<le> length (drop ?n ?r)" "tokenize_words (take m (drop ?n ?r)) = v # ws"
    using "3.IH" [OF _ refl refl k m] sw "3.prems"(2) by auto
  have s: "s = w @ takeWhile is_space ?r @ drop ?n ?r"
    using sw by (metis append_take_drop_id dropWhile_eq_drop starts_with_def takeWhile_dropWhile_id)
  have "take n s = w @ takeWhile is_space ?r @ take m (drop ?n ?r)"
    unfolding n by (subst s) (simp add: take_add)
  moreover have "spaces (takeWhile is_space ?r)"
    by (auto simp: spaces_def list_all_iff dest: set_takeWhileD)
  moreover have "takeWhile is_space ?r \<noteq> []"
    using k by auto
  ultimately have "tokenize_words (take n s) = tokenize_words w @ v # ws"
    using tok_sep ih(2) by simp
  moreover have "n \<le> length s"
    using ih(1) n sw length_takeWhile_le [of is_space ?r] by (auto simp: starts_with_iff)
  ultimately show ?case
    using "3.prems"(2) by (simp add: tok_word)
qed simp

text \<open>A text that starts with a word and reads as the given words is matched where it stands.\<close>

lemma tok_first_word:
  assumes "tokenize_words t = w # ws" "\<not> is_space (hd t)"
  obtains r where "t = w @ r" "tokenize_words r = ws" "r = [] \<or> is_space (hd r)"
proof -
  let ?w = "takeWhile (\<lambda>c. \<not> is_space c) t" and ?r = "dropWhile (\<lambda>c. \<not> is_space c) t"
  have t: "t = ?w @ ?r" by simp
  have "t \<noteq> []"
    using assms(1) by auto
  then have "word ?w"
    using assms(2) by (cases t) (auto simp: word_def list_all_iff dest: set_takeWhileD)
  have r: "?r = [] \<or> is_space (hd ?r)"
    using hd_dropWhile [of "\<lambda>c. \<not> is_space c" t] by auto
  have "tokenize_words t = ?w # tokenize_words ?r"
  proof (cases ?r)
    case Nil
    then show ?thesis
      using t \<open>word ?w\<close> tok_word by (metis append_Nil2 tok_Nil)
  next
    case (Cons c r')
    then have "tokenize_words (?w @ c # r') = tokenize_words ?w @ tokenize_words r'" "is_space c"
      using r tok_append by simp_all
    then show ?thesis
      using t \<open>word ?w\<close> tok_word [of ?w] Cons by (metis append_Cons append_Nil tok_space)
  qed
  then show thesis
    using that [of ?r] assms(1) r by simp
qed

lemma match_words_complete:
  "tokenize_words t = ws \<Longrightarrow> ws \<noteq> [] \<Longrightarrow> \<not> is_space (hd t) \<Longrightarrow> \<exists>n. match_words ws (t @ u) = Some n"
proof (induction ws arbitrary: t)
  case (Cons w ws)
  obtain r where r: "t = w @ r" "tokenize_words r = ws" "r = [] \<or> is_space (hd r)"
    using tok_first_word [OF Cons.prems(1,3)] .
  show ?case
  proof (cases ws)
    case Nil
    then show ?thesis
      using r(1) by (simp add: starts_with_def)
  next
    case (Cons v vs)
    let ?sp = "takeWhile is_space r" and ?t = "dropWhile is_space r"
    have "r \<noteq> []" "is_space (hd r)"
      using r(2,3) Cons by auto
    then have "?sp \<noteq> []"
      by (cases r) auto
    have sp: "spaces ?sp"
      by (auto simp: spaces_def list_all_iff dest: set_takeWhileD)
    have t: "tokenize_words ?t = ws"
      using tok_prefix [OF sp, of ?t] r(2) by simp
    then have "?t \<noteq> []"
      using Cons tok_Nil by (metis list.distinct(1))
    then have h: "\<not> is_space (hd ?t)"
      by (rule hd_dropWhile)
    have tw: "takeWhile is_space (r @ u) = ?sp"
      using \<open>?t \<noteq> []\<close> by (auto simp: takeWhile_append)
    have "drop (length ?sp) (r @ u) = ?t @ u"
      by (metis append_assoc append_eq_conv_conj takeWhile_dropWhile_id)
    then show ?thesis
      using Cons.IH [OF t _ h] Cons \<open>?sp \<noteq> []\<close> tw r(1) by (auto simp: Let_def starts_with_def)
  qed
qed simp

lemma find_words_spec:
  "case find_words ws i s of
     Some (p, n) \<Rightarrow> i \<le> p \<and> p < i + length s \<and> match_words ws (drop (p - i) s) = Some n
   | None \<Rightarrow> \<forall>j<length s. match_words ws (drop j s) = None"
proof (induction ws i s rule: find_words.induct)
  case (2 ws i c r)
  show ?case
  proof (cases "match_words ws (c # r)")
    case None
    have "drop (p - i) (c # r) = drop (p - Suc i) r" if "Suc i \<le> p" for p
    proof -
      have "p - i = Suc (p - Suc i)"
        using that by simp
      then show ?thesis by (metis drop_Suc_Cons)
    qed
    then show ?thesis
      using 2 [OF None] None by (auto split: option.splits simp: less_Suc_eq_0_disj simp del: drop_Cons')
  qed simp
qed simp

definition stands :: "jstr \<Rightarrow> jstr list \<Rightarrow> nat \<times> nat \<Rightarrow> bool" where
  "stands body ws m = (fst m < length body \<and> match_words ws (drop (fst m) body) = Some (snd m))"

lemma exec_words_stands:
  assumes "exec_words body ws from = Some m"
  shows "stands body ws m"
proof -
  obtain p n where m: "m = (p, n)" by (cases m)
  have "case exec_words body ws from of Some (p, n) \<Rightarrow> from \<le> p \<and> p < from + length (drop from body) \<and>
      match_words ws (drop (p - from) (drop from body)) = Some n | None \<Rightarrow> True"
    using find_words_spec [where ws = ws and i = "from" and s = "drop from body"] by (auto simp: exec_words_def split: option.splits)
  then have p: "from \<le> p" "p < from + length (drop from body)" "match_words ws (drop (p - from) (drop from body)) = Some n"
    unfolding assms m by (simp_all only: option.case prod.case)
  then have "drop (p - from) (drop from body) = drop p body"
    by simp
  then show ?thesis
    using p by (simp add: stands_def m)
qed

lemma loose_from_stands:
  "\<forall>m\<in>set acc. stands body ws m \<Longrightarrow> (case m of None \<Rightarrow> True | Some x \<Rightarrow> stands body ws x) \<Longrightarrow>
   \<forall>x\<in>set (fst (loose_from body ws limit acc m)). stands body ws x"
proof (induction body ws limit acc m rule: loose_from.induct)
  case (2 body ws limit acc m)
  have "case exec_words body ws (fst m + snd m) of None \<Rightarrow> True | Some x \<Rightarrow> stands body ws x"
    using exec_words_stands by (auto split: option.splits)
  then show ?case
    using 2 by (auto simp: Let_def)
qed simp

lemma loose_from_limit:
  "length acc < limit \<Longrightarrow> snd (loose_from body ws limit acc m) \<Longrightarrow> limit \<le> length (fst (loose_from body ws limit acc m))"
  by (induction body ws limit acc m rule: loose_from.induct) (auto simp: Let_def)

lemma loose_from_some: "fst (loose_from body ws limit acc (Some m)) \<noteq> []"
proof -
  have "length acc \<le> length (fst (loose_from body ws limit acc m))" for acc m
    by (induction body ws limit acc m rule: loose_from.induct) (auto simp: Let_def dest: Suc_leD)
  from this [of "acc @ [m]" "exec_words body ws (fst m + snd m)"] show ?thesis
    by (auto simp: Let_def)
qed

lemma locate_loose_reads:
  assumes "(i, n) \<in> set (fst (locate_loose body q limit))"
  shows "0 < n" "i + n \<le> length body" "tokenize_words (take n (drop i body)) = tokenize_words q"
proof -
  let ?ws = "tokenize_words q"
  have ne: "?ws \<noteq> []"
    using assms by (auto simp: locate_loose_def Let_def split: if_splits)
  have "case exec_words body ?ws 0 of None \<Rightarrow> True | Some x \<Rightarrow> stands body ?ws x"
    using exec_words_stands by (auto split: option.splits)
  then have "stands body ?ws (i, n)"
    using assms loose_from_stands [of "[]" body ?ws "exec_words body ?ws 0" limit] ne
    by (simp add: locate_loose_def Let_def)
  then have m: "i < length body" "match_words ?ws (drop i body) = Some n"
    by (simp_all add: stands_def)
  have "n \<le> length (drop i body) \<and> tokenize_words (take n (drop i body)) = ?ws"
    by (rule match_words_reads [OF m(2)]) (use tok_words in blast)
  then show "i + n \<le> length body" "tokenize_words (take n (drop i body)) = ?ws" and "0 < n"
    using m(1) ne by (auto intro: gr0I)
qed

lemma locate_loose_none:
  assumes "fst (locate_loose body q limit) = []" "tokenize_words q \<noteq> []"
  shows "tokenize_words (take n (drop i body)) \<noteq> tokenize_words q"
proof
  assume r: "tokenize_words (take n (drop i body)) = tokenize_words q"
  have "exec_words body (tokenize_words q) 0 = None"
    using assms loose_from_some [of body "tokenize_words q" limit "[]"]
    by (cases "exec_words body (tokenize_words q) 0") (simp_all add: locate_loose_def Let_def)
  then have none: "match_words (tokenize_words q) (drop j body) = None" if "j < length body" for j
    using find_words_spec [where ws = "tokenize_words q" and i = 0 and s = body] that by (simp add: exec_words_def)
  let ?t = "take n (drop i body)"
  let ?sp = "takeWhile is_space ?t" and ?u = "dropWhile is_space ?t"
  have "spaces ?sp"
    by (auto simp: spaces_def list_all_iff dest: set_takeWhileD)
  then have u: "tokenize_words ?u = tokenize_words q"
    using tok_prefix [of ?sp ?u] r by simp
  then have "?u \<noteq> []"
    using assms(2) tok_Nil by metis
  then have h: "\<not> is_space (hd ?u)"
    by (rule hd_dropWhile)
  have "drop i body = ?t @ drop n (drop i body)"
    by (rule append_take_drop_id [symmetric])
  then have "drop i body = ?sp @ ?u @ drop n (drop i body)"
    by (metis append.assoc takeWhile_dropWhile_id)
  then have d: "drop (length ?sp + i) body = ?u @ drop n (drop i body)"
    by (metis append_eq_conv_conj drop_drop)
  then have "length ?sp + i < length body"
    using \<open>?u \<noteq> []\<close> by (metis append_is_Nil_conv drop_eq_Nil linorder_not_le)
  then show False
    using none match_words_complete [OF u assms(2) h] d by (metis option.distinct(1))
qed

section \<open>The extent of a section\<close>

text \<open>A heading reads as a breadcrumb: by its last segment, or by a run of segments at its end.\<close>

definition reads_as :: "jstr \<Rightarrow> page_heading \<Rightarrow> bool" where
  "reads_as sectionPath h =
     (let leaf = section_leaf sectionPath; segments = crumbs sectionPath; t = normalize_text (pgText h)
      in leaf \<noteq> [] \<and>
         (pgText h = leaf \<or> t \<noteq> [] \<and> t = normalize_text leaf \<or>
          (\<exists>n\<in>{2..length segments}. t \<noteq> [] \<and> t = normalize_text (join '' '' (drop (length segments - n) segments)))))"

lemma find_none: "List.find P xs = None \<longleftrightarrow> (\<forall>x\<in>set xs. \<not> P x)"
  by (induction xs) auto

lemma find_some: "List.find P xs = Some x \<Longrightarrow> x \<in> set xs \<and> P x"
  by (induction xs) (auto split: if_splits)

lemma suffix_heading_spec:
  "case suffix_heading hs segments n of
     Some h \<Rightarrow> h \<in> set hs \<and> (\<exists>m\<in>{2..n}. normalize_text (pgText h) \<noteq> [] \<and>
       normalize_text (pgText h) = normalize_text (join '' '' (drop (length segments - m) segments)))
   | None \<Rightarrow> \<forall>h\<in>set hs. \<forall>m\<in>{2..n}. normalize_text (pgText h) \<noteq> [] \<longrightarrow>
       normalize_text (pgText h) \<noteq> normalize_text (join '' '' (drop (length segments - m) segments))"
proof (induction n)
  case (Suc n)
  let ?j = "normalize_text (join '' '' (drop (length segments - Suc n) segments))"
  show ?case
  proof (cases "Suc n < 2 \<or> ?j = [] \<or> List.find (\<lambda>h. normalize_text (pgText h) = ?j) hs = None")
    case True
    then have "suffix_heading hs segments (Suc n) = suffix_heading hs segments n \<or> Suc n < 2"
      by (auto simp: Let_def)
    moreover have "\<forall>h\<in>set hs. 2 \<le> Suc n \<longrightarrow> normalize_text (pgText h) \<noteq> [] \<longrightarrow> normalize_text (pgText h) \<noteq> ?j"
      using True by (auto simp: find_none)
    ultimately show ?thesis
      using Suc by (auto split: option.splits simp: le_Suc_eq simp del: suffix_heading.simps(2)) (auto split: if_splits)
  next
    case False
    then obtain h where h: "List.find (\<lambda>h. normalize_text (pgText h) = ?j) hs = Some h"
      by auto
    then show ?thesis
      using False find_some [OF h] by (auto simp: Let_def)
  qed
qed simp

lemma match_heading_spec:
  "case match_heading hs sectionPath of
     Some h \<Rightarrow> h \<in> set hs \<and> reads_as sectionPath h
   | None \<Rightarrow> \<forall>h\<in>set hs. \<not> reads_as sectionPath h"
proof -
  let ?leaf = "section_leaf sectionPath"
  let ?exact = "List.find (\<lambda>h. pgText h = ?leaf) hs"
  let ?norm = "if normalize_text ?leaf \<noteq> [] then List.find (\<lambda>h. normalize_text (pgText h) = normalize_text ?leaf) hs else None"
  let ?suffix = "suffix_heading hs (crumbs sectionPath) (length (crumbs sectionPath))"
  note suffix = suffix_heading_spec [where hs = hs and segments = "crumbs sectionPath" and n = "length (crumbs sectionPath)"]
  consider "hs = [] \<or> ?leaf = []" | h where "hs \<noteq> []" "?leaf \<noteq> []" "?exact = Some h"
    | h where "hs \<noteq> []" "?leaf \<noteq> []" "?exact = None" "?norm = Some h"
    | "hs \<noteq> []" "?leaf \<noteq> []" "?exact = None" "?norm = None"
    by (metis not_None_eq)
  then show ?thesis
  proof cases
    case 1
    then show ?thesis by (auto simp: match_heading_def Let_def reads_as_def)
  next
    case 2
    then show ?thesis
      using find_some [OF 2(3)] by (simp add: match_heading_def Let_def reads_as_def)
  next
    case 3
    then have "h \<in> set hs \<and> normalize_text (pgText h) = normalize_text ?leaf \<and> normalize_text ?leaf \<noteq> []"
      by (auto dest: find_some split: if_splits)
    then show ?thesis
      using 3 by (simp add: match_heading_def Let_def reads_as_def)
  next
    case 4
    have m: "match_heading hs sectionPath = ?suffix"
      using 4 by (simp add: match_heading_def Let_def)
    have no: "pgText h \<noteq> ?leaf" "normalize_text (pgText h) \<noteq> [] \<Longrightarrow> normalize_text (pgText h) \<noteq> normalize_text ?leaf"
      if "h \<in> set hs" for h
      using 4(3,4) that by (auto simp: find_none split: if_splits)
    show ?thesis
      unfolding m using suffix no 4(2) by (auto split: option.splits simp: reads_as_def Let_def)
  qed
qed

text \<open>In an ordered list of headings with positions of their own, those after one are those past it.\<close>

lemma entries_after_append: "x \<notin> set xs \<Longrightarrow> entries_after x (xs @ x # ys) = ys"
  by (induction xs) auto

lemma sorted_headings_after:
  assumes "distinct (map pgFrom hs)" "h \<in> set hs"
  defines "later \<equiv> entries_after h (js_sort (by_key (\<lambda>h. int (pgFrom h))) hs)"
  shows "set later = {g \<in> set hs. pgFrom h < pgFrom g}" "sorted (map pgFrom later)"
proof -
  let ?o = "js_sort (by_key (\<lambda>h. int (pgFrom h))) hs"
  have "sorted (map (\<lambda>h. int (pgFrom h)) ?o)"
    by (rule sort_by_key_sorted)
  then have so: "sorted (map pgFrom ?o)"
    by (simp add: sorted_iff_nth_mono)
  have "mset (map pgFrom ?o) = mset (map pgFrom hs)"
    by simp
  then have d: "distinct (map pgFrom ?o)"
    using assms(1) by (metis distinct_count_atmost_1 mset_eq_setD)
  obtain xs ys where o: "?o = xs @ h # ys"
    using assms(2) split_list by (metis set_js_sort)
  have "h \<notin> set xs"
    using d by (auto simp: o)
  then have a: "later = ys"
    unfolding later_def o by (rule entries_after_append)
  have so': "sorted (map pgFrom xs @ pgFrom h # map pgFrom ys)" and d': "distinct (map pgFrom xs @ pgFrom h # map pgFrom ys)"
    using so d unfolding o by simp_all
  have "pgFrom x \<le> pgFrom h" "pgFrom x \<noteq> pgFrom h" if "x \<in> set xs" for x
    using so' d' that by (auto simp: sorted_append image_iff)
  then have lt: "pgFrom x < pgFrom h" if "x \<in> set xs" for x
    using that by (simp add: order_le_neq_trans)
  have "pgFrom h \<le> pgFrom y" "pgFrom h \<noteq> pgFrom y" if "y \<in> set ys" for y
    using so' d' that by (auto simp: sorted_append image_iff)
  then have gt: "pgFrom h < pgFrom y" if "y \<in> set ys" for y
    using that by (simp add: order_le_neq_trans)
  have "set hs = set xs \<union> {h} \<union> set ys"
    using arg_cong [OF o, of set] by auto
  then show "set later = {g \<in> set hs. pgFrom h < pgFrom g}"
    using lt gt a by (auto dest: order.asym)
  show "sorted (map pgFrom later)"
    using so' by (simp add: a sorted_append)
qed

lemma find_least:
  assumes "sorted (map f xs)" "List.find P xs = Some x" "y \<in> set xs" "P y"
  shows "f x \<le> f y"
  using assms by (induction xs) (auto split: if_splits)

lemma section_parts:
  assumes "resolve_section index hs sectionPath k = Some (a, b, h)" "distinct (map pgFrom hs)"
  shows "h \<in> set hs" "pgIndex h = k" "a = pgFrom h" "\<exists>m\<in>set hs. reads_as sectionPath m \<and> pgText m = pgText h"
    "\<forall>g\<in>set hs. a < pgFrom g \<and> pgLevel g \<le> pgLevel h \<longrightarrow> b \<le> pgFrom g"
    "b = text_end index \<and> (\<forall>g\<in>set hs. a < pgFrom g \<longrightarrow> pgLevel h < pgLevel g) \<or>
     (\<exists>g\<in>set hs. b = pgFrom g \<and> a < b \<and> pgLevel g \<le> pgLevel h)"
proof -
  let ?later = "entries_after h (js_sort (by_key (\<lambda>h. int (pgFrom h))) hs)"
  let ?nxt = "List.find (\<lambda>k. pgLevel k \<le> pgLevel h) ?later"
  obtain m where m: "match_heading hs sectionPath = Some m"
    and f: "List.find (\<lambda>h. pgText h = pgText m \<and> pgIndex h = k) hs = Some h"
    and b: "b = (case ?nxt of Some g \<Rightarrow> pgFrom g | None \<Rightarrow> text_end index)" and a: "a = pgFrom h"
    using assms(1) by (auto simp: resolve_section_def Let_def split: option.splits)
  have h: "h \<in> set hs" "pgText h = pgText m" "pgIndex h = k"
    using find_some [OF f] by auto
  then show "h \<in> set hs" "pgIndex h = k" "a = pgFrom h" "\<exists>m\<in>set hs. reads_as sectionPath m \<and> pgText m = pgText h"
    using a match_heading_spec [of hs sectionPath] m by auto
  note later = sorted_headings_after [OF assms(2) h(1)]
  show "\<forall>g\<in>set hs. a < pgFrom g \<and> pgLevel g \<le> pgLevel h \<longrightarrow> b \<le> pgFrom g"
    using later find_least [OF later(2), of "\<lambda>k. pgLevel k \<le> pgLevel h"]
    by (auto simp: b a find_none split: option.splits)
  show "b = text_end index \<and> (\<forall>g\<in>set hs. a < pgFrom g \<longrightarrow> pgLevel h < pgLevel g) \<or>
     (\<exists>g\<in>set hs. b = pgFrom g \<and> a < b \<and> pgLevel g \<le> pgLevel h)"
  proof (cases ?nxt)
    case None
    then have "\<forall>g\<in>set ?later. pgLevel h < pgLevel g"
      using iffD1 [OF find_none None] by (simp add: not_le)
    then show ?thesis
      using None later(1) by (simp add: b a)
  next
    case (Some g)
    then show ?thesis
      using later(1) find_some [OF Some] by (auto simp: b a)
  qed
qed

lemma section_of_no_heading:
  assumes "\<forall>h\<in>set hs. \<not> reads_as sectionPath h"
  shows "resolve_section index hs sectionPath k = None"
  using match_heading_spec [of hs sectionPath] assms
  by (auto simp: resolve_section_def split: option.splits)

section \<open>Counting\<close>

definition range_of :: "text_index \<Rightarrow> page_heading list \<Rightarrow> anchor_rec \<Rightarrow> (nat \<times> nat \<times> anchor_rec) list" where
  "range_of index hs p = (case resolve_anchor index hs p of Range a b \<Rightarrow> [(a, b, p)] | _ \<Rightarrow> [])"

lemma place_all:
  "foldl (place_one index hs) r ps =
     \<lparr>pcRanges = pcRanges r @ concat (map (range_of index hs) ps),
      pcResolved = pcResolved r + length (filter (\<lambda>p. resolve_anchor index hs p \<notin> {Cut_short, Gone}) ps),
      pcOrphaned = pcOrphaned r + length (filter (\<lambda>p. resolve_anchor index hs p \<in> {Cut_short, Gone}) ps),
      pcTruncated = pcTruncated r + length (filter (\<lambda>p. resolve_anchor index hs p = Cut_short) ps)\<rparr>"
  by (induction ps arbitrary: r) (auto simp: place_one_def range_of_def split: range.splits)

section \<open>Properties\<close>

text \<open>
  C8: a quote is found where it stands. In an index with a position for every character, the
  n-th anchor of a quote that stands in the text is exactly its n-th occurrence; past the last
  one it is gone, and past the limit the search says that it stopped looking. A quote that
  stands nowhere exactly is found only over text that reads as its words, and its first
  anchor is gone only when no stretch of the text reads so.
\<close>

theorem span_where_quote_stands:
  assumes "length (ixMap index) = length (ixText index)" and "q \<noteq> []"
  shows "(occurrences (ixText index) q \<noteq> [] \<longrightarrow>
      resolve_span index q k =
        (let at = occurrences (ixText index) q
         in if k < min OCCURRENCE_LIMIT (length at)
            then Range (ixMap index ! (at ! k)) (ixMap index ! (at ! k + length q - 1) + 1)
            else if OCCURRENCE_LIMIT < length at then Cut_short else Gone)) \<and>
    (occurrences (ixText index) q = [] \<longrightarrow>
      (\<forall>a b. resolve_span index q k = Range a b \<longrightarrow>
        (\<exists>i n. 0 < n \<and> i + n \<le> length (ixText index) \<and> a = ixMap index ! i \<and> b = ixMap index ! (i + n - 1) + 1 \<and>
          tokenize_words (js_slice (ixText index) i (i + n)) = tokenize_words q)) \<and>
      (resolve_span index q k = Cut_short \<longrightarrow> OCCURRENCE_LIMIT \<le> k) \<and>
      (resolve_span index q 0 = Gone \<and> tokenize_words q \<noteq> [] \<longrightarrow>
        (\<forall>i n. tokenize_words (js_slice (ixText index) i (i + n)) \<noteq> tokenize_words q)))"
proof -
  let ?t = "ixText index"
  let ?loose = "locate_loose ?t q OCCURRENCE_LIMIT"
  have lim: "0 < OCCURRENCE_LIMIT"
    by (simp add: OCCURRENCE_LIMIT_def)
  note exact = locate_exact_occurrences [OF assms(2) lim, of ?t]
  have found: "range_or_gone (map_range (ixMap index) i (i + n)) = Range (ixMap index ! i) (ixMap index ! (i + n - 1) + 1)"
    if "0 < n" "i + n \<le> length ?t" for i n
    using that assms(1) by (auto simp: range_or_gone_def map_range_def map_at_def)
  have occ: "at + length q \<le> length ?t" if "at \<in> set (occurrences ?t q)" for at
    using that by (auto simp: occurrences_def starts_with_iff dest: arg_cong [where f = length])
  have "resolve_span index q k =
        (let at = occurrences ?t q
         in if k < min OCCURRENCE_LIMIT (length at)
            then Range (ixMap index ! (at ! k)) (ixMap index ! (at ! k + length q - 1) + 1)
            else if OCCURRENCE_LIMIT < length at then Cut_short else Gone)" if "occurrences ?t q \<noteq> []"
    using that assms(2) lim found [of "length q"] occ [OF nth_mem]
    by (auto simp: resolve_span_def exact Let_def)
  moreover have r: "resolve_span index q m =
      (if m < length (fst ?loose) then (let (at, n) = fst ?loose ! m in Range (ixMap index ! at) (ixMap index ! (at + n - 1) + 1))
       else if snd ?loose \<and> fst ?loose \<noteq> [] then Cut_short else Gone)" if "occurrences ?t q = []" for m
  proof -
    have "range_or_gone (map_range (ixMap index) i (i + n)) = Range (ixMap index ! i) (ixMap index ! (i + n - 1) + 1)"
      if "m < length (fst ?loose)" "fst ?loose ! m = (i, n)" for i n
      using found locate_loose_reads [of i n ?t q OCCURRENCE_LIMIT] that nth_mem by metis
    then show ?thesis
      using that assms(2) by (auto simp: resolve_span_def exact Let_def split: prod.split)
  qed
  moreover have "\<exists>i n. 0 < n \<and> i + n \<le> length ?t \<and> a = ixMap index ! i \<and> b = ixMap index ! (i + n - 1) + 1 \<and>
      tokenize_words (js_slice ?t i (i + n)) = tokenize_words q"
    if none: "occurrences ?t q = []" and at: "resolve_span index q k = Range a b" for a b
  proof -
    obtain i n where m: "k < length (fst ?loose)" "fst ?loose ! k = (i, n)"
      "a = ixMap index ! i" "b = ixMap index ! (i + n - 1) + 1"
      using at unfolding r [OF none] by (auto split: if_splits prod.splits)
    then have "(i, n) \<in> set (fst ?loose)"
      by (metis nth_mem)
    from locate_loose_reads [OF this] m(3,4) show ?thesis
      by (intro exI [of _ i] exI [of _ n]) (simp add: js_slice_def)
  qed
  moreover have "OCCURRENCE_LIMIT \<le> k" if "occurrences ?t q = []" "resolve_span index q k = Cut_short"
  proof -
    have "snd ?loose" "length (fst ?loose) \<le> k"
      using that(2) unfolding r [OF that(1)] by (auto split: if_splits prod.splits)
    then show ?thesis
      using loose_from_limit [of "[]" OCCURRENCE_LIMIT ?t "tokenize_words q" "exec_words ?t (tokenize_words q) 0"] lim
      by (auto simp: locate_loose_def Let_def split: if_splits)
  qed
  moreover have "tokenize_words (js_slice ?t i (i + n)) \<noteq> tokenize_words q"
    if "occurrences ?t q = []" "resolve_span index q 0 = Gone" "tokenize_words q \<noteq> []" for i n
  proof -
    have "fst ?loose = []"
      using that(2) unfolding r [OF that(1)] by (auto split: if_splits prod.splits)
    from locate_loose_none [OF this that(3)] show ?thesis
      by (simp add: js_slice_def)
  qed
  ultimately show ?thesis
    by blast
qed

definition sample_index :: text_index where
  "sample_index = \<lparr>ixText = ''a bb a  bb'', ixMap = [1, 2, 3, 4, 5, 6, 7, 8, 9, 10]\<rparr>"

theorem span_where_quote_stands_witness:
  "resolve_span sample_index ''bb'' 1 = Range 9 11"
proof -
  have occ: "occurrences (ixText sample_index) ''bb'' = [2, 8]"
    by code_simp
  have "resolve_span sample_index ''bb'' 1 =
        (let at = occurrences (ixText sample_index) ''bb''
         in if 1 < min OCCURRENCE_LIMIT (length at)
            then Range (ixMap sample_index ! (at ! 1)) (ixMap sample_index ! (at ! 1 + length ''bb'' - 1) + 1)
            else if OCCURRENCE_LIMIT < length at then Cut_short else Gone)"
    by (rule span_where_quote_stands [THEN conjunct1, THEN mp]) (simp_all add: occ, simp_all add: sample_index_def)
  then show ?thesis
    unfolding occ by (simp add: sample_index_def OCCURRENCE_LIMIT_def)
qed

text \<open>
  C25: a section is its heading and what is under it. With headings at positions of their own,
  a section is found only under a heading that some heading reading as the breadcrumb shares
  its text with, with the number asked for; it starts at that heading and ends at the first
  later heading of the same or a higher level, or at the end of the document when all later
  ones are deeper. When no heading reads as the breadcrumb, none is guessed.
\<close>

theorem section_reaches_next_peer:
  assumes "distinct (map pgFrom hs)"
  shows "(resolve_section index hs path k = Some (a, b, h) \<longrightarrow>
      h \<in> set hs \<and> pgIndex h = k \<and> a = pgFrom h \<and> (\<exists>m\<in>set hs. reads_as path m \<and> pgText m = pgText h) \<and>
      (\<forall>g\<in>set hs. a < pgFrom g \<and> pgLevel g \<le> pgLevel h \<longrightarrow> b \<le> pgFrom g) \<and>
      (b = text_end index \<and> (\<forall>g\<in>set hs. a < pgFrom g \<longrightarrow> pgLevel h < pgLevel g) \<or>
       (\<exists>g\<in>set hs. b = pgFrom g \<and> a < b \<and> pgLevel g \<le> pgLevel h))) \<and>
    ((\<forall>h\<in>set hs. \<not> reads_as path h) \<longrightarrow> resolve_section index hs path k = None)"
  by (intro conjI impI section_parts [OF _ assms] section_of_no_heading; assumption)

definition sample_headings :: "page_heading list" where
  "sample_headings = [\<lparr>pgLevel = 1, pgText = ''A'', pgFrom = 0, pgIndex = 0\<rparr>,
     \<lparr>pgLevel = 2, pgText = ''B'', pgFrom = 4, pgIndex = 0\<rparr>, \<lparr>pgLevel = 1, pgText = ''C'', pgFrom = 8, pgIndex = 0\<rparr>]"

theorem section_reaches_next_peer_witness:
  "(\<exists>g \<in> set sample_headings. pgFrom g = 8 \<and> 0 < pgFrom g \<and> pgLevel g \<le> 1) \<and>
   resolve_section sample_index sample_headings ''Z'' 0 = None"
proof -
  have d: "distinct (map pgFrom sample_headings)"
    by (simp add: sample_headings_def)
  have r: "resolve_section sample_index sample_headings ''A'' 0 =
      Some (0, 8, \<lparr>pgLevel = 1, pgText = ''A'', pgFrom = 0, pgIndex = 0\<rparr>)"
    by (simp add: resolve_section_def match_heading_def Let_def section_leaf_def crumbs_def js_trim_def is_space_def
        sample_headings_def by_key_def)
  have z: "list_all (\<lambda>h. \<not> reads_as ''Z'' h) sample_headings"
    by (simp add: reads_as_def section_leaf_def crumbs_def js_trim_def is_space_def sample_headings_def
        normalize_text_def is_word_char_def js_lower_def Let_def)
  have "(8 :: nat) = text_end sample_index \<and> (\<forall>g\<in>set sample_headings. 0 < pgFrom g \<longrightarrow> 1 < pgLevel g) \<or>
      (\<exists>g\<in>set sample_headings. 8 = pgFrom g \<and> 0 < (8 :: nat) \<and> pgLevel g \<le> 1)"
    using section_reaches_next_peer [OF d, THEN conjunct1, THEN mp, OF r] by simp
  moreover have "text_end sample_index \<noteq> 8"
    by (simp add: text_end_def sample_index_def)
  moreover have "resolve_section sample_index sample_headings ''Z'' 0 = None"
    using section_reaches_next_peer [OF d, THEN conjunct2, THEN mp] z by (simp add: list_all_iff)
  ultimately show ?thesis
    by force
qed

text \<open>
  Every anchor is counted once. Of the anchors of a finding in the open file, the resolved
  and the orphaned add up to all, those the search gave up on are counted among the orphaned,
  and the ranges are those of the resolved anchors, one each, in order.
\<close>

theorem anchors_counted_once:
  "let r = resolve_finding index hs all file;
       ps = (case file of None \<Rightarrow> all | Some f \<Rightarrow> filter (\<lambda>p. plFile p = f) all)
   in pcResolved r + pcOrphaned r = length ps \<and> pcTruncated r \<le> pcOrphaned r \<and>
      length (pcRanges r) = pcResolved r \<and>
      map (\<lambda>(a, b, p). p) (pcRanges r) = filter (\<lambda>p. \<exists>a b. resolve_anchor index hs p = Range a b) ps \<and>
      set (pcRanges r) \<subseteq> {(a, b, p). resolve_anchor index hs p = Range a b}"
proof -
  define ps where "ps = (case file of None \<Rightarrow> all | Some f \<Rightarrow> filter (\<lambda>p. plFile p = f) all)"
  define ranged where "ranged p \<longleftrightarrow> (\<exists>a b. resolve_anchor index hs p = Range a b)" for p
  have all: "resolve_finding index hs all file =
      foldl (place_one index hs) \<lparr>pcRanges = [], pcResolved = 0, pcOrphaned = 0, pcTruncated = 0\<rparr> ps"
    by (simp add: ps_def resolve_finding_def)
  have lost: "resolve_anchor index hs p \<in> {Cut_short, Gone} \<longleftrightarrow> \<not> ranged p" for p
    by (cases "resolve_anchor index hs p") (auto simp: ranged_def)
  have places: "map (\<lambda>(a, b, p). p) (concat (map (range_of index hs) ps)) = filter ranged ps"
    by (induction ps) (auto simp: range_of_def ranged_def split: range.splits)
  have sound: "set (concat (map (range_of index hs) ps)) \<subseteq> {(a, b, p). resolve_anchor index hs p = Range a b}"
    by (auto simp: range_of_def split: range.splits)
  have sum: "length (filter ranged ps) + length (filter (\<lambda>p. \<not> ranged p) ps) = length ps"
    by (rule sum_length_filter_compl)
  have cut: "length (filter (\<lambda>p. resolve_anchor index hs p = Cut_short) ps) \<le> length (filter (\<lambda>p. \<not> ranged p) ps)"
    unfolding lost [symmetric] by (induction ps) auto
  have count: "length (concat (map (range_of index hs) ps)) = length (filter ranged ps)"
    using arg_cong [OF places, of length] by simp
  show ?thesis
    unfolding Let_def ps_def [symmetric] all place_all lost ranged_def [symmetric]
    using places sound sum cut count by simp
qed

end
