(* ===== verification/Viewer_Homes.thy ===== *)
theory Viewer_Homes
  imports Studio_Prelude
begin

text \<open>
  node/viewer-credentials.js and node/viewer-credentials-env.js: one credential home per viewer
  of a shared session. The directory of the homes is a list of names, each a home or a link to
  one; a home is its top-level entries. Any file operation may throw, which an argument decides;
  the SHA-256 of a key in hexadecimal is an argument. The theorems are that no two connections
  ever work in one home unless they announced the same viewer, what adopting a viewer moves, and
  what environment a plugin host gets; the counterexamples at the end say what adoption deletes
  and what a name can write into a git configuration.
\<close>

section \<open>The directory of the homes\<close>

text \<open>An entry of a home: a file, or a folder with the files under it by their path.\<close>

datatype item = File jstr | Folder "(jstr \<times> jstr) list"

datatype node = Home "(jstr \<times> item) list" | Link jstr

type_synonym homes = "(jstr \<times> node) list"

text \<open>The directory a path leads to: the kernel follows at most forty links.\<close>

fun follow :: "nat \<Rightarrow> homes \<Rightarrow> jstr \<Rightarrow> jstr option" where
  "follow n r p =
     (case map_of r p of
        Some (Home es) \<Rightarrow> Some p
      | Some (Link t) \<Rightarrow> (case n of 0 \<Rightarrow> None | Suc m \<Rightarrow> follow m r t)
      | None \<Rightarrow> None)"

declare follow.simps [simp del]

definition leads_to :: "homes \<Rightarrow> jstr \<Rightarrow> jstr option" where
  "leads_to r p = follow 40 r p"

definition entries :: "homes \<Rightarrow> jstr \<Rightarrow> (jstr \<times> item) list" where
  "entries r p = (case map_of r p of Some (Home es) \<Rightarrow> es | _ \<Rightarrow> [])"

definition put_entry :: "jstr \<Rightarrow> jstr \<Rightarrow> item \<Rightarrow> homes \<Rightarrow> homes" where
  "put_entry p e i r = AList.update p (Home (AList.update e i (entries r p))) r"

definition drop_entry :: "jstr \<Rightarrow> jstr \<Rightarrow> homes \<Rightarrow> homes" where
  "drop_entry p e r = AList.update p (Home (AList.delete e (entries r p))) r"

text \<open>The calls of the file system that may throw.\<close>

datatype fs_call = Mkdir jstr | Write jstr | Unlink jstr | Rename jstr | Remove jstr | Symlink jstr

type_synonym faults = "fs_call \<Rightarrow> bool"

section \<open>Names and directories\<close>

definition name_char :: "char \<Rightarrow> bool" where
  "name_char c \<longleftrightarrow> c \<in> set ''ABCDEFGHIJKLMNOPQRSTUVWXYZabcdefghijklmnopqrstuvwxyz0123456789._-''"

definition strip_dashes :: "jstr \<Rightarrow> jstr" where
  "strip_dashes s = rev (dropWhile (\<lambda>c. c = CHR ''-'') (rev (dropWhile (\<lambda>c. c = CHR ''-'') s)))"

definition directory_name_for :: "(jstr \<Rightarrow> jstr) \<Rightarrow> jstr \<Rightarrow> jstr" where
  "directory_name_for hex key =
     (let readable = take 48 (strip_dashes (map (\<lambda>c. if name_char c then c else CHR ''-'') key))
      in (if readable \<noteq> [] then readable else ''viewer'') @ ''-'' @ take 12 (hex key))"

text \<open>None is a call that throws.\<close>

definition ensure_directory :: "faults \<Rightarrow> jstr \<Rightarrow> homes \<Rightarrow> homes option" where
  "ensure_directory fails p r =
     (if fails (Mkdir p) then None
      else case map_of r p of
          None \<Rightarrow> Some (AList.update p (Home []) r)
        | Some n \<Rightarrow> if leads_to r p \<noteq> None then Some r else None)"

section \<open>The git configuration of a home\<close>

text \<open>What the identity provider stated: a name and an address, each a string or not.\<close>

record viewer_person =
  vpName :: "jstr option"
  vpEmail :: "jstr option"

definition trimmed_or :: "jstr option \<Rightarrow> jstr" where
  "trimmed_or v = (case v of Some t \<Rightarrow> js_trim t | None \<Rightarrow> [])"

definition git_identity_config :: "jstr \<Rightarrow> viewer_person option \<Rightarrow> jstr" where
  "git_identity_config containerConfigPath person =
     (let nm = (case person of Some p \<Rightarrow> trimmed_or (vpName p) | None \<Rightarrow> []);
          email = (case person of Some p \<Rightarrow> trimmed_or (vpEmail p) | None \<Rightarrow> [])
      in join [LF]
          ([''# Written by Constructor Studio. This directory is the plugin host HOME,'',
            ''# so this is the global git config every tool running in it reads.'',
            ''[include]'', [TAB] @ ''path = '' @ containerConfigPath] @
           (if nm \<noteq> [] \<or> email \<noteq> []
            then [''[user]''] @ (if nm \<noteq> [] then [[TAB] @ ''name = '' @ nm] else []) @
              (if email \<noteq> [] then [[TAB] @ ''email = '' @ email] else [])
            else [])) @ [LF])"

definition write_git_config :: "faults \<Rightarrow> jstr \<Rightarrow> jstr \<Rightarrow> viewer_person option \<Rightarrow> homes \<Rightarrow> homes" where
  "write_git_config fails container p person r =
     (case leads_to r p of
        None \<Rightarrow> r
      | Some d \<Rightarrow>
          (let body = git_identity_config container person
           in case map_of (entries r d) ''.gitconfig'' of
                Some (File old) \<Rightarrow> if old = body \<or> fails (Write p) then r else put_entry d ''.gitconfig'' (File body) r
              | Some (Folder fs) \<Rightarrow> r
              | None \<Rightarrow> if fails (Write p) then r else put_entry d ''.gitconfig'' (File body) r))"

section \<open>Redirecting the anonymous home\<close>

text \<open>The loop over the entries; the flag says that no call threw.\<close>

fun move_entries :: "faults \<Rightarrow> jstr \<Rightarrow> jstr \<Rightarrow> jstr list \<Rightarrow> homes \<Rightarrow> homes \<times> bool" where
  "move_entries fails anonymous own [] r = (r, True)"
| "move_entries fails anonymous own (e # es) r =
     (case leads_to r own of
        None \<Rightarrow> (r, False)
      | Some d \<Rightarrow>
          if map_of (entries r d) e \<noteq> None then move_entries fails anonymous own es r
          else case map_of (entries r anonymous) e of
              None \<Rightarrow> (r, False)
            | Some i \<Rightarrow> if fails (Rename e) then (r, False)
                        else move_entries fails anonymous own es (put_entry d e i (drop_entry anonymous e r)))"

definition link_home :: "faults \<Rightarrow> jstr \<Rightarrow> jstr \<Rightarrow> homes \<Rightarrow> homes" where
  "link_home fails anonymous own r =
     (if map_of r anonymous = None \<and> \<not> fails (Symlink anonymous) then AList.update anonymous (Link own) r else r)"

definition redirect_home :: "faults \<Rightarrow> jstr \<Rightarrow> jstr \<Rightarrow> homes \<Rightarrow> homes" where
  "redirect_home fails anonymous own r =
     (case map_of r anonymous of
        Some (Link t) \<Rightarrow>
          if t = own \<or> fails (Unlink anonymous) then r
          else link_home fails anonymous own (AList.delete anonymous r)
      | Some (Home es) \<Rightarrow>
          (case move_entries fails anonymous own (map fst es) r of
             (r', False) \<Rightarrow> r'
           | (r', True) \<Rightarrow> if fails (Remove anonymous) then r'
                          else link_home fails anonymous own (AList.delete anonymous r'))
      | None \<Rightarrow> link_home fails anonymous own r)"

section \<open>A connection\<close>

text \<open>\<open>viewerKey\<close> is only ever a non-empty string: the empty list stands for undefined.\<close>

record connection =
  cnId :: jstr
  cnKey :: jstr
  cnPerson :: "viewer_person option"

definition session_name :: "jstr \<Rightarrow> jstr" where
  "session_name i = ''session-'' @ i"

definition home_name :: "(jstr \<Rightarrow> jstr) \<Rightarrow> connection \<Rightarrow> jstr" where
  "home_name hex c = (if cnKey c \<noteq> [] then directory_name_for hex (cnKey c) else session_name (cnId c))"

definition home :: "(jstr \<Rightarrow> jstr) \<Rightarrow> jstr \<Rightarrow> faults \<Rightarrow> connection \<Rightarrow> homes \<Rightarrow> (jstr \<times> homes) option" where
  "home hex container fails c r =
     (case ensure_directory fails (home_name hex c) r of
        None \<Rightarrow> None
      | Some r' \<Rightarrow> Some (home_name hex c, write_git_config fails container (home_name hex c) (cnPerson c) r'))"

definition stated :: "viewer_person \<Rightarrow> viewer_person" where
  "stated p = \<lparr>vpName = map_option (take 120) (vpName p), vpEmail = map_option (take 200) (vpEmail p)\<rparr>"

text \<open>The home answered, None when the call throws, with the connection and the directory after it.\<close>

definition set_viewer ::
  "(jstr \<Rightarrow> jstr) \<Rightarrow> jstr \<Rightarrow> faults \<Rightarrow> jstr \<Rightarrow> viewer_person option \<Rightarrow> connection \<Rightarrow> homes \<Rightarrow> jstr option \<times> connection \<times> homes" where
  "set_viewer hex container fails viewerKey person c r =
     (let key = js_trim viewerKey; c1 = c\<lparr>cnPerson := map_option stated person\<rparr>
      in if key \<noteq> [] \<and> key = cnKey c1 then
           (case home hex container fails c1 r of
              None \<Rightarrow> (None, c1, r)
            | Some (p, r') \<Rightarrow> (Some p, c1, write_git_config fails container p (cnPerson c1) r'))
         else if key = [] then
           (case home hex container fails c1 r of None \<Rightarrow> (None, c1, r) | Some (p, r') \<Rightarrow> (Some p, c1, r'))
         else
           (let anonymous = session_name (cnId c1); own = directory_name_for hex key
            in case ensure_directory fails own r of
                 None \<Rightarrow> (None, c1, r)
               | Some r' \<Rightarrow>
                   (Some own, c1\<lparr>cnKey := key\<rparr>,
                    write_git_config fails container own (cnPerson c1) (redirect_home fails anonymous own r'))))"

section \<open>The environment of a plugin host\<close>

type_synonym env = "(jstr \<times> jstr) list"

definition below :: "jstr \<Rightarrow> jstr \<Rightarrow> jstr" where
  "below p e = p @ ''/'' @ e"

text \<open>\<open>readStoredKey\<close> of the home's own key file.\<close>

definition read_stored_key :: "homes \<Rightarrow> jstr \<Rightarrow> jstr option" where
  "read_stored_key r p =
     (case leads_to r p of
        None \<Rightarrow> None
      | Some d \<Rightarrow>
          (case map_of (entries r d) ''.claude'' of
             Some (Folder fs) \<Rightarrow>
               (case map_of fs ''anthropic-api-key'' of
                  Some t \<Rightarrow> if js_trim t \<noteq> [] then Some (js_trim t) else None
                | None \<Rightarrow> None)
           | _ \<Rightarrow> None))"

definition home_variables :: "bool \<Rightarrow> jstr \<Rightarrow> env" where
  "home_variables movable h =
     (if movable then [(''HOME'', h), (''USERPROFILE'', h), (''XDG_CONFIG_HOME'', below h ''.config''),
        (''XDG_DATA_HOME'', below h ''.local/share''), (''XDG_CACHE_HOME'', below h ''.cache'')] else []) @
     [(''CODEX_HOME'', below h ''.codex''), (''CLAUDE_CONFIG_DIR'', below h ''.claude''), (''STUDIO_CREDENTIAL_HOME'', h)]"

definition assign :: "env \<Rightarrow> env \<Rightarrow> env" where
  "assign target source = foldl (\<lambda>t kv. AList.update (fst kv) (snd kv) t) target source"

definition assistant_environment :: "bool \<Rightarrow> jstr \<Rightarrow> jstr option \<Rightarrow> env \<Rightarrow> env" where
  "assistant_environment movable h stored base =
     (let e = assign base (home_variables movable h)
      in case stored of Some k \<Rightarrow> AList.update ''ANTHROPIC_API_KEY'' k e | None \<Rightarrow> AList.delete ''ANTHROPIC_API_KEY'' e)"

definition ensure_folder :: "faults \<Rightarrow> jstr \<Rightarrow> jstr \<Rightarrow> homes \<Rightarrow> homes option" where
  "ensure_folder fails p e r =
     (case leads_to r p of
        None \<Rightarrow> None
      | Some d \<Rightarrow>
          if fails (Mkdir (below p e)) then None
          else case map_of (entries r d) e of
              None \<Rightarrow> Some (put_entry d e (Folder []) r)
            | Some (Folder fs) \<Rightarrow> Some r
            | Some (File t) \<Rightarrow> None)"

text \<open>The two directories in turn; a failure ends it where it stands.\<close>

definition ensure_assistant_homes :: "faults \<Rightarrow> jstr \<Rightarrow> homes \<Rightarrow> homes" where
  "ensure_assistant_homes fails p r =
     (case ensure_folder fails p ''.codex'' r of
        None \<Rightarrow> r
      | Some r1 \<Rightarrow> (case ensure_folder fails p ''.claude'' r1 of None \<Rightarrow> r1 | Some r2 \<Rightarrow> r2))"

text \<open>\<open>ViewerCredentialsEnvironment.process\<close>; the root of the homes is an absolute path.\<close>

definition process_env ::
  "(jstr \<Rightarrow> jstr) \<Rightarrow> jstr \<Rightarrow> jstr \<Rightarrow> bool \<Rightarrow> faults \<Rightarrow> connection \<Rightarrow> env \<Rightarrow> homes \<Rightarrow> env \<times> homes" where
  "process_env hex container root movable fails c env r =
     (case home hex container fails c r of
        None \<Rightarrow> (env, r)
      | Some (p, r1) \<Rightarrow>
          (let prepared = assistant_environment movable (below root p) (read_stored_key r1 p) env;
               assigned = assign env prepared
           in (if map_of prepared ''ANTHROPIC_API_KEY'' \<in> {None, Some []} then AList.delete ''ANTHROPIC_API_KEY'' assigned else assigned,
               ensure_assistant_homes fails p r1)))"

section \<open>What stands under a name\<close>

text \<open>The kind of a node: a home, or a link to a name. Where a path leads depends on the kinds alone.\<close>

definition kind :: "homes \<Rightarrow> jstr \<Rightarrow> jstr option option" where
  "kind r p = (case map_of r p of None \<Rightarrow> None | Some (Home es) \<Rightarrow> Some None | Some (Link t) \<Rightarrow> Some (Some t))"

lemma kind_home: "kind r p = Some None \<longleftrightarrow> (\<exists>es. map_of r p = Some (Home es))"
  by (auto simp: kind_def split: option.splits node.splits)

lemma kind_none: "kind r p = None \<longleftrightarrow> map_of r p = None"
  by (auto simp: kind_def split: option.splits node.splits)

lemma kind_update [simp]: "kind (AList.update p n r) q = (if q = p then Some (case n of Home es \<Rightarrow> None | Link t \<Rightarrow> Some t) else kind r q)"
  by (simp add: kind_def update_conv' split: node.splits)

lemma kind_delete [simp]: "kind (AList.delete p r) q = (if q = p then None else kind r q)"
  by (simp add: kind_def delete_conv')

lemma entries_home [simp]: "map_of r p = Some (Home es) \<Longrightarrow> entries r p = es"
  by (simp add: entries_def)

lemma entries_update [simp]: "entries (AList.update p (Home es) r) q = (if q = p then es else entries r q)"
  by (simp add: entries_def update_conv')

lemma entries_link [simp]: "entries (AList.update p (Link t) r) q = (if q = p then [] else entries r q)"
  by (simp add: entries_def update_conv')

lemma entries_delete [simp]: "entries (AList.delete p r) q = (if q = p then [] else entries r q)"
  by (simp add: entries_def delete_conv')

lemma follow_home: "follow n r p = Some d \<Longrightarrow> kind r d = Some None"
  by (induction n r p rule: follow.induct) (auto simp: kind_home follow.simps split: option.splits node.splits nat.splits)

lemma leads_to_home: "leads_to r p = Some d \<Longrightarrow> kind r d = Some None"
  unfolding leads_to_def by (rule follow_home)

lemma leads_to_self [simp]: "kind r p = Some None \<Longrightarrow> leads_to r p = Some p"
  by (auto simp: leads_to_def kind_home follow.simps)

lemma leads_to_link:
  assumes "kind r p = Some (Some t)" "kind r t = Some None"
  shows "leads_to r p = Some t"
proof -
  obtain es where "map_of r p = Some (Link t)" "map_of r t = Some (Home es)"
    using assms by (auto simp: kind_def split: option.splits node.splits)
  then have "follow (Suc n) r p = Some t" for n
    by (simp add: follow.simps [of "Suc n"] follow.simps [of n])
  from this [of 39] show ?thesis
    by (simp add: leads_to_def)
qed

lemma leads_to_cases:
  assumes "leads_to r p = Some d"
  shows "kind r p = Some None \<and> d = p \<or> (\<exists>t. kind r p = Some (Some t))"
  using assms by (auto simp: leads_to_def kind_def follow.simps split: option.splits node.splits)

lemma kind_put_entry [simp]: "kind r d = Some None \<Longrightarrow> kind (put_entry d e i r) = kind r"
  by (rule ext) (auto simp: put_entry_def)

lemma kind_drop_entry [simp]: "kind r d = Some None \<Longrightarrow> kind (drop_entry d e r) = kind r"
  by (rule ext) (auto simp: drop_entry_def)

lemma kind_write_git_config [simp]: "kind (write_git_config fails container p person r) = kind r"
  by (auto simp: write_git_config_def Let_def dest: leads_to_home split: option.splits item.splits)

lemma kind_delete_fun: "kind (AList.delete p r) = (kind r)(p := None)"
  by (rule ext) simp

lemma kind_ensure_directory:
  "ensure_directory fails p r = Some r' \<Longrightarrow> kind r' = (if kind r p = None then (kind r)(p \<mapsto> None) else kind r)"
  by (auto simp: ensure_directory_def fun_eq_iff kind_none split: if_splits option.splits)

lemma kind_ensure_folder: "ensure_folder fails p e r = Some r' \<Longrightarrow> kind r' = kind r"
  by (auto simp: ensure_folder_def dest: leads_to_home split: if_splits option.splits item.splits)

lemma kind_ensure_assistant_homes [simp]: "kind (ensure_assistant_homes fails p r) = kind r"
  using kind_ensure_folder [of fails p] by (fastforce simp: ensure_assistant_homes_def split: option.splits)

lemma kind_move_entries:
  "kind r anonymous = Some None \<Longrightarrow> kind (fst (move_entries fails anonymous own es r)) = kind r"
proof (induction es arbitrary: r)
  case (Cons e es)
  have "kind (put_entry d e i (drop_entry anonymous e r)) = kind r" if "leads_to r own = Some d" for d i
    using leads_to_home [OF that] Cons.prems by simp
  then show ?case
    using Cons by (auto split: option.splits)
qed simp

lemma kind_link_home: "kind (link_home fails anonymous own r) =
    (if kind r anonymous = None \<and> \<not> fails (Symlink anonymous) then (kind r)(anonymous \<mapsto> Some own) else kind r)"
  by (auto simp: link_home_def fun_eq_iff kind_none)

lemma kind_redirect_home:
  "kind (redirect_home fails anonymous own r) \<in> {kind r, (kind r)(anonymous := None), (kind r)(anonymous \<mapsto> Some own)}"
proof (cases "map_of r anonymous")
  case None
  then show ?thesis by (simp add: redirect_home_def kind_link_home)
next
  case (Some n)
  then show ?thesis
  proof (cases n)
    case (Home es)
    obtain r' ok where m: "move_entries fails anonymous own (map fst es) r = (r', ok)"
      by fastforce
    then have "kind r' = kind r"
      using kind_move_entries [of r anonymous fails own "map fst es"] Some Home by (simp add: kind_home)
    then show ?thesis
      using Some Home m by (cases ok) (simp_all add: redirect_home_def kind_link_home kind_delete_fun)
  next
    case (Link t)
    then show ?thesis
      using Some by (simp add: redirect_home_def kind_link_home kind_delete_fun)
  qed
qed

section \<open>Connections on one file system\<close>

text \<open>
  The world: the homes, the connections, the paths their plugin hosts were given, and which
  keys each connection announced. A new connection's id is fresh, being a random UUID, and no
  two keys in use share a directory name, which ends in 48 bits of a SHA-256.
\<close>

record world =
  wHomes :: homes
  wConns :: "connection list"
  wHosts :: "(jstr \<times> jstr) list"
  wTold :: "(jstr \<times> jstr) list"

definition no_clash :: "(jstr \<Rightarrow> jstr) \<Rightarrow> jstr \<Rightarrow> world \<Rightarrow> bool" where
  "no_clash hex key w \<longleftrightarrow>
     (\<forall>(i, k) \<in> set (wTold w). directory_name_for hex k = directory_name_for hex key \<longrightarrow> k = key) \<and>
     (\<forall>c \<in> set (wConns w). session_name (cnId c) \<noteq> directory_name_for hex key) \<and>
     (\<forall>t. kind (wHomes w) (directory_name_for hex key) \<noteq> Some (Some t))"

inductive step :: "(jstr \<Rightarrow> jstr) \<Rightarrow> jstr \<Rightarrow> jstr \<Rightarrow> bool \<Rightarrow> world \<Rightarrow> world \<Rightarrow> bool"
  for hex container root movable where
  connect: "i \<notin> cnId ` set (wConns w) \<Longrightarrow> kind (wHomes w) (session_name i) = None \<Longrightarrow>
    step hex container root movable w (w\<lparr>wConns := wConns w @ [\<lparr>cnId = i, cnKey = [], cnPerson = None\<rparr>]\<rparr>)"
| announce: "wConns w = xs @ c # ys \<Longrightarrow> key = js_trim vk \<Longrightarrow> (key \<noteq> [] \<longrightarrow> no_clash hex key w) \<Longrightarrow>
    set_viewer hex container fails vk person c (wHomes w) = (res, c', r) \<Longrightarrow>
    step hex container root movable w
      (w\<lparr>wConns := xs @ c' # ys, wHomes := r, wTold := (if key \<noteq> [] \<and> res \<noteq> None then [(cnId c, key)] else []) @ wTold w\<rparr>)"
| fork: "c \<in> set (wConns w) \<Longrightarrow> home hex container fails c (wHomes w) = Some (p, r1) \<Longrightarrow>
    process_env hex container root movable fails c env (wHomes w) = (env', r) \<Longrightarrow>
    step hex container root movable w (w\<lparr>wHomes := r, wHosts := (cnId c, p) # wHosts w\<rparr>)"
| work: "(i, p) \<in> set (wHosts w) \<Longrightarrow> leads_to (wHomes w) p = Some d \<Longrightarrow>
    r \<in> {put_entry d e it (wHomes w), drop_entry d e (wHomes w)} \<Longrightarrow>
    step hex container root movable w (w\<lparr>wHomes := r\<rparr>)"

inductive reachable :: "(jstr \<Rightarrow> jstr) \<Rightarrow> jstr \<Rightarrow> jstr \<Rightarrow> bool \<Rightarrow> world \<Rightarrow> bool"
  for hex container root movable where
  start: "reachable hex container root movable \<lparr>wHomes = r, wConns = [], wHosts = [], wTold = []\<rparr>"
| more: "reachable hex container root movable w \<Longrightarrow> step hex container root movable w w' \<Longrightarrow> reachable hex container root movable w'"

section \<open>No home is shared\<close>

text \<open>
  Every announced key has a home of its own, and the anonymous name of a connection is free, its
  own home, or a link to the home of a key it announced.
\<close>

definition separate :: "(jstr \<Rightarrow> jstr) \<Rightarrow> world \<Rightarrow> bool" where
  "separate hex w \<longleftrightarrow>
     distinct (map cnId (wConns w)) \<and>
     (\<forall>d t. d \<in> set (wConns w) \<longrightarrow> kind (wHomes w) (session_name (cnId d)) = Some (Some t) \<longrightarrow>
        (\<exists>k. (cnId d, k) \<in> set (wTold w) \<and> t = directory_name_for hex k)) \<and>
     (\<forall>d. d \<in> set (wConns w) \<longrightarrow> cnKey d \<noteq> [] \<longrightarrow> (cnId d, cnKey d) \<in> set (wTold w)) \<and>
     (\<forall>i k. (i, k) \<in> set (wTold w) \<longrightarrow> kind (wHomes w) (directory_name_for hex k) = Some None) \<and>
     (\<forall>i k d. (i, k) \<in> set (wTold w) \<longrightarrow> d \<in> set (wConns w) \<longrightarrow> session_name (cnId d) \<noteq> directory_name_for hex k) \<and>
     (\<forall>i k j k'. (i, k) \<in> set (wTold w) \<longrightarrow> (j, k') \<in> set (wTold w) \<longrightarrow>
        directory_name_for hex k = directory_name_for hex k' \<longrightarrow> k = k') \<and>
     (\<forall>i p. (i, p) \<in> set (wHosts w) \<longrightarrow> i \<in> cnId ` set (wConns w) \<and>
        (p = session_name i \<or> (\<exists>k. (i, k) \<in> set (wTold w) \<and> p = directory_name_for hex k)))"

lemma separateI:
  assumes "distinct (map cnId (wConns w))"
    and "\<And>d t. d \<in> set (wConns w) \<Longrightarrow> kind (wHomes w) (session_name (cnId d)) = Some (Some t) \<Longrightarrow>
      \<exists>k. (cnId d, k) \<in> set (wTold w) \<and> t = directory_name_for hex k"
    and "\<And>d. d \<in> set (wConns w) \<Longrightarrow> cnKey d \<noteq> [] \<Longrightarrow> (cnId d, cnKey d) \<in> set (wTold w)"
    and "\<And>i k. (i, k) \<in> set (wTold w) \<Longrightarrow> kind (wHomes w) (directory_name_for hex k) = Some None"
    and "\<And>i k d. (i, k) \<in> set (wTold w) \<Longrightarrow> d \<in> set (wConns w) \<Longrightarrow> session_name (cnId d) \<noteq> directory_name_for hex k"
    and "\<And>i k j k'. (i, k) \<in> set (wTold w) \<Longrightarrow> (j, k') \<in> set (wTold w) \<Longrightarrow>
      directory_name_for hex k = directory_name_for hex k' \<Longrightarrow> k = k'"
    and "\<And>i p. (i, p) \<in> set (wHosts w) \<Longrightarrow> i \<in> cnId ` set (wConns w) \<and>
      (p = session_name i \<or> (\<exists>k. (i, k) \<in> set (wTold w) \<and> p = directory_name_for hex k))"
  shows "separate hex w"
  unfolding separate_def using assms(1-6) assms(7) by (intro conjI allI impI) (assumption | rule assms | erule assms(7) [THEN conjunct1] | erule assms(7) [THEN conjunct2])+

lemma separateD:
  assumes "separate hex w"
  shows "distinct (map cnId (wConns w))"
    and "\<And>d t. d \<in> set (wConns w) \<Longrightarrow> kind (wHomes w) (session_name (cnId d)) = Some (Some t) \<Longrightarrow>
      \<exists>k. (cnId d, k) \<in> set (wTold w) \<and> t = directory_name_for hex k"
    and "\<And>d. d \<in> set (wConns w) \<Longrightarrow> cnKey d \<noteq> [] \<Longrightarrow> (cnId d, cnKey d) \<in> set (wTold w)"
    and "\<And>i k. (i, k) \<in> set (wTold w) \<Longrightarrow> kind (wHomes w) (directory_name_for hex k) = Some None"
    and "\<And>i k d. (i, k) \<in> set (wTold w) \<Longrightarrow> d \<in> set (wConns w) \<Longrightarrow> session_name (cnId d) \<noteq> directory_name_for hex k"
    and "\<And>i k j k'. (i, k) \<in> set (wTold w) \<Longrightarrow> (j, k') \<in> set (wTold w) \<Longrightarrow>
      directory_name_for hex k = directory_name_for hex k' \<Longrightarrow> k = k'"
    and "\<And>i p. (i, p) \<in> set (wHosts w) \<Longrightarrow> i \<in> cnId ` set (wConns w) \<and>
      (p = session_name i \<or> (\<exists>k. (i, k) \<in> set (wTold w) \<and> p = directory_name_for hex k))"
  using assms unfolding separate_def by - ((elim conjE)?, (assumption | blast))+

lemma session_name_inj [simp]: "session_name i = session_name j \<longleftrightarrow> i = j"
  by (simp add: session_name_def)

lemma home_kind:
  assumes "home hex container fails c r = Some (p, r')"
  shows "p = home_name hex c \<and> kind r' = (if kind r p = None then (kind r)(p \<mapsto> None) else kind r)"
  using assms kind_ensure_directory by (auto simp: home_def split: option.splits)

lemma set_viewer_kinds:
  assumes "set_viewer hex container fails vk person c r = (res, c', r')"
  defines "key \<equiv> js_trim vk"
  shows "cnId c' = cnId c"
    "key = [] \<or> key = cnKey c \<or> res = None \<Longrightarrow> cnKey c' = cnKey c \<and>
      (kind r' = kind r \<or> kind r (home_name hex c) = None \<and> kind r' = (kind r)(home_name hex c \<mapsto> None))"
    "key \<noteq> [] \<Longrightarrow> key \<noteq> cnKey c \<Longrightarrow> res \<noteq> None \<Longrightarrow> cnKey c' = key \<and>
      (\<exists>r0. kind r0 = (if kind r (directory_name_for hex key) = None then (kind r)(directory_name_for hex key \<mapsto> None) else kind r) \<and>
        kind r' = kind (redirect_home fails (session_name (cnId c)) (directory_name_for hex key) r0))"
proof -
  have hn: "home_name hex (c\<lparr>cnPerson := x\<rparr>) = home_name hex c" for x
    by (simp add: home_name_def)
  show "cnId c' = cnId c"
    using assms(1) by (auto simp: set_viewer_def Let_def split: if_splits option.splits)
  show "key = [] \<or> key = cnKey c \<or> res = None \<Longrightarrow> cnKey c' = cnKey c \<and>
      (kind r' = kind r \<or> kind r (home_name hex c) = None \<and> kind r' = (kind r)(home_name hex c \<mapsto> None))"
    using assms(1) unfolding key_def
    by (auto simp: set_viewer_def Let_def hn dest!: home_kind split: if_splits option.splits)
  show "key \<noteq> [] \<Longrightarrow> key \<noteq> cnKey c \<Longrightarrow> res \<noteq> None \<Longrightarrow> cnKey c' = key \<and>
      (\<exists>r0. kind r0 = (if kind r (directory_name_for hex key) = None then (kind r)(directory_name_for hex key \<mapsto> None) else kind r) \<and>
        kind r' = kind (redirect_home fails (session_name (cnId c)) (directory_name_for hex key) r0))"
    using assms(1) unfolding key_def
    by (auto simp: set_viewer_def Let_def dest!: kind_ensure_directory split: if_splits option.splits)
qed

lemma separate_announced:
  assumes "separate hex w" "wConns w = xs @ c # ys" "no_clash hex key w" "key \<noteq> []"
    and "cnId c' = cnId c" "cnKey c' = key"
    and r0: "kind r0 = (if kind (wHomes w) (directory_name_for hex key) = None
      then (kind (wHomes w))(directory_name_for hex key \<mapsto> None) else kind (wHomes w))"
    and r: "kind r \<in> {kind r0, (kind r0)(session_name (cnId c) := None),
      (kind r0)(session_name (cnId c) \<mapsto> Some (directory_name_for hex key))}"
  shows "separate hex (w\<lparr>wConns := xs @ c' # ys, wHomes := r, wTold := (cnId c, key) # wTold w\<rparr>)"
proof -
  define own where "own = directory_name_for hex key"
  have clash: "\<And>i k. (i, k) \<in> set (wTold w) \<Longrightarrow> directory_name_for hex k = own \<Longrightarrow> k = key"
    "\<And>d. d \<in> set (wConns w) \<Longrightarrow> session_name (cnId d) \<noteq> own" "\<And>t. kind (wHomes w) own \<noteq> Some (Some t)"
    using assms(3) by (auto simp: no_clash_def own_def)
  have c: "c \<in> set (wConns w)"
    using assms(2) by simp
  note sep = separateD [OF assms(1)]
  have ids: "cnId ` set (xs @ c' # ys) = cnId ` set (wConns w)" "map cnId (xs @ c' # ys) = map cnId (wConns w)"
    using assms(2,5) by simp_all
  have old: "d \<in> set (wConns w)" if "d \<in> set (xs @ c' # ys)" "d \<noteq> c'" for d
    using that assms(2) by auto
  have named: "\<exists>d'\<in>set (wConns w). cnId d' = cnId d" if "d \<in> set (xs @ c' # ys)" for d
    using that assms(2,5) by auto
  have free: "session_name (cnId d) \<noteq> own" if "d \<in> set (xs @ c' # ys)" for d
    using named [OF that] clash(2) by metis
  have away: "kind r p = kind (wHomes w) p" if "p \<noteq> session_name (cnId c)" "p \<noteq> own" for p
    using r r0 that by (auto simp: own_def split: if_splits)
  have made: "kind r own = Some None"
    using r r0 clash(2) [OF c] clash(3) by (auto simp: own_def [symmetric] split: if_splits) (metis option.exhaust)+
  have link: "\<exists>k. (cnId d, k) \<in> set ((cnId c, key) # wTold w) \<and> t = directory_name_for hex k"
    if d: "d \<in> set (xs @ c' # ys)" "kind r (session_name (cnId d)) = Some (Some t)" for d t
  proof (cases "cnId d = cnId c")
    case True
    then show ?thesis
      using d(2) r r0 sep(2) [OF c] clash(2) [OF c] by (auto simp: own_def [symmetric] split: if_splits)
  next
    case False
    obtain d' where d': "d' \<in> set (wConns w)" "cnId d' = cnId d"
      using named [OF d(1)] by blast
    have "kind (wHomes w) (session_name (cnId d')) = Some (Some t)"
      using away [of "session_name (cnId d)"] d(2) False free [OF d(1)] d'(2) by simp
    from sep(2) [OF d'(1) this] show ?thesis
      by (auto simp: d'(2))
  qed
  have stands: "kind r (directory_name_for hex k) = Some None" if "(i, k) \<in> set ((cnId c, key) # wTold w)" for i k
    using that made away [of "directory_name_for hex k"] sep(4,5) c unfolding own_def by (metis Pair_inject set_ConsD)
  have apart: "session_name (cnId d) \<noteq> directory_name_for hex k"
    if "(i, k) \<in> set ((cnId c, key) # wTold w)" "d \<in> set (xs @ c' # ys)" for i k d
    using that free [OF that(2)] named [OF that(2)] sep(5) unfolding own_def by (metis Pair_inject set_ConsD)
  have one: "k = k'" if "(i, k) \<in> set ((cnId c, key) # wTold w)" "(j, k') \<in> set ((cnId c, key) # wTold w)"
      "directory_name_for hex k = directory_name_for hex k'" for i k j k'
    using that clash(1) sep(6) unfolding own_def by (metis Pair_inject set_ConsD)
  have held: "(cnId d, cnKey d) \<in> set ((cnId c, key) # wTold w)" if "d \<in> set (xs @ c' # ys)" "cnKey d \<noteq> []" for d
    using that old [OF that(1)] sep(3) [of d] assms(5,6) by (cases "d = c'") auto
  have hosts: "i \<in> cnId ` set (xs @ c' # ys) \<and>
      (p = session_name i \<or> (\<exists>k. (i, k) \<in> set ((cnId c, key) # wTold w) \<and> p = directory_name_for hex k))"
    if "(i, p) \<in> set (wHosts w)" for i p
    using sep(7) [OF that] by (auto simp only: ids list.set insert_iff)
  let ?w = "w\<lparr>wConns := xs @ c' # ys, wHomes := r, wTold := (cnId c, key) # wTold w\<rparr>"
  have w: "wConns ?w = xs @ c' # ys" "wHomes ?w = r" "wTold ?w = (cnId c, key) # wTold w" "wHosts ?w = wHosts w"
    by simp_all
  have distinct: "distinct (map cnId (xs @ c' # ys))"
    using sep(1) by (simp only: ids(2))
  show ?thesis
    by (intro separateI; unfold w) (rule distinct | erule (1) link | erule (1) held | erule stands | erule (1) apart | erule (2) one | erule hosts)+
qed

text \<open>A home made where nothing stood, and a connection that keeps its key.\<close>

lemma separate_new_home:
  assumes "separate hex w" "kind r = (if kind (wHomes w) p = None then (kind (wHomes w))(p \<mapsto> None) else kind (wHomes w))"
  shows "separate hex (w\<lparr>wHomes := r\<rparr>)"
proof -
  have "kind (wHomes w) q = Some (Some t)" if "kind r q = Some (Some t)" for q t
    using that assms(2) by (auto split: if_splits)
  moreover have "kind r q = Some None" if "kind (wHomes w) q = Some None" for q
    using that assms(2) by auto
  ultimately show ?thesis
    using assms(1) unfolding separate_def by simp
qed

lemma separate_kinds: "separate hex w \<Longrightarrow> kind r = kind (wHomes w) \<Longrightarrow> separate hex (w\<lparr>wHomes := r\<rparr>)"
  by (simp add: separate_def)

lemma separate_conn:
  "separate hex w \<Longrightarrow> wConns w = xs @ c # ys \<Longrightarrow> cnId c' = cnId c \<Longrightarrow> cnKey c' = cnKey c \<Longrightarrow>
   separate hex (w\<lparr>wConns := xs @ c' # ys\<rparr>)"
  unfolding separate_def by simp

lemma separate_told_again:
  assumes "separate hex w" "x \<in> set (wTold w)"
  shows "separate hex (w\<lparr>wTold := x # wTold w\<rparr>)"
proof -
  let ?w = "w\<lparr>wTold := x # wTold w\<rparr>"
  have w: "set (wTold ?w) = set (wTold w)" "wConns ?w = wConns w" "wHomes ?w = wHomes w" "wHosts ?w = wHosts w"
    using assms(2) by auto
  show ?thesis
    using assms(1) unfolding separate_def w .
qed

lemma separate_host:
  assumes "separate hex w" "i \<in> cnId ` set (wConns w)" "p = session_name i \<or> (\<exists>k. (i, k) \<in> set (wTold w) \<and> p = directory_name_for hex k)"
  shows "separate hex (w\<lparr>wHosts := (i, p) # wHosts w\<rparr>)"
  using assms unfolding separate_def by (simp add: image_iff)

lemma step_separate:
  assumes "step hex container root movable w w'" "separate hex w"
  shows "separate hex w'"
  using assms(1)
proof cases
  case (connect i)
  note sep = separateD [OF assms(2)]
  let ?c = "\<lparr>cnId = i, cnKey = [], cnPerson = None\<rparr>"
  have none: "session_name i \<noteq> directory_name_for hex k" if "(j, k) \<in> set (wTold w)" for j k
    using sep(4) [OF that] connect(3) by auto
  show ?thesis
    unfolding connect(1)
  proof (rule separateI)
    show "distinct (map cnId (wConns (w\<lparr>wConns := wConns w @ [?c]\<rparr>)))"
      using sep(1) connect(2) by auto
  qed (use sep(2-7) connect(3) none in \<open>auto split: if_splits\<close>)
next
  case (announce xs c ys key vk fails person res c' r)
  note kinds = set_viewer_kinds [OF announce(5)]
  show ?thesis
  proof (cases "key = [] \<or> key = cnKey c \<or> res = None")
    case True
    then have k: "cnKey c' = cnKey c" "kind r = kind (wHomes w) \<or>
        kind (wHomes w) (home_name hex c) = None \<and> kind r = (kind (wHomes w))(home_name hex c \<mapsto> None)"
      using kinds(2) announce(3) by auto
    have same: "separate hex (w\<lparr>wConns := xs @ c' # ys\<rparr>)"
      by (rule separate_conn [OF assms(2) announce(2) kinds(1) k(1)])
    then have conn: "separate hex (w\<lparr>wConns := xs @ c' # ys, wHomes := r\<rparr>)"
      using k(2) separate_kinds [OF same, of r] separate_new_home [OF same, of r "home_name hex c"] by auto
    show ?thesis
    proof (cases "key \<noteq> [] \<and> res \<noteq> None")
      case told: True
      then have "(cnId c, key) \<in> set (wTold w)"
        using True separateD(3) [OF assms(2), of c] announce(2) by auto
      then show ?thesis
        using separate_told_again [OF conn, of "(cnId c, key)"] told unfolding announce(1) by simp
    next
      case False
      then show ?thesis
        using conn unfolding announce(1) by auto
    qed
  next
    case False
    then obtain r0 where "cnKey c' = key"
        "kind r0 = (if kind (wHomes w) (directory_name_for hex key) = None
           then (kind (wHomes w))(directory_name_for hex key \<mapsto> None) else kind (wHomes w))"
        "kind r = kind (redirect_home fails (session_name (cnId c)) (directory_name_for hex key) r0)"
      using kinds(3) announce(3) by auto
    then have "separate hex (w\<lparr>wConns := xs @ c' # ys, wHomes := r, wTold := (cnId c, key) # wTold w\<rparr>)"
      using separate_announced [OF assms(2) announce(2) _ _ kinds(1), of key r0 r] announce(4) False kind_redirect_home by metis
    then show ?thesis
      using False unfolding announce(1) by simp
  qed
next
  case (fork c fails p r1 env env' r)
  have p: "p = home_name hex c" "kind r = (if kind (wHomes w) p = None then (kind (wHomes w))(p \<mapsto> None) else kind (wHomes w))"
    using home_kind [OF fork(3)] fork(3,4) by (auto simp: process_env_def Let_def)
  have "separate hex (w\<lparr>wHomes := r\<rparr>)"
    by (rule separate_new_home [OF assms(2) p(2)])
  moreover have "p = session_name (cnId c) \<or> (\<exists>k. (cnId c, k) \<in> set (wTold w) \<and> p = directory_name_for hex k)"
    using separateD(3) [OF assms(2) fork(2)] by (auto simp: p(1) home_name_def)
  ultimately show ?thesis
    using separate_host [of hex "w\<lparr>wHomes := r\<rparr>" "cnId c" p] fork(2) unfolding fork(1) by simp
next
  case (work i p d r it e)
  then have "kind r = kind (wHomes w)"
    using leads_to_home by auto
  from separate_kinds [OF assms(2) this] show ?thesis
    unfolding work(1) .
qed

lemma reachable_separate: "reachable hex container root movable w \<Longrightarrow> separate hex w"
proof (induction rule: reachable.induct)
  case (start r)
  then show ?case by (simp add: separate_def)
qed (rule step_separate)

section \<open>Adopting a viewer\<close>

lemma entries_put_entry [simp]: "entries (put_entry p e i r) q = (if q = p then AList.update e i (entries r p) else entries r q)"
  by (simp add: put_entry_def)

lemma entries_drop_entry [simp]: "entries (drop_entry p e r) q = (if q = p then AList.delete e (entries r p) else entries r q)"
  by (simp add: drop_entry_def)

text \<open>
  Moving the entries: what the viewer's home had stays, what was moved is there, what was not
  is where it was; without a fault every entry is there at the end.
\<close>

lemma move_entries_keeps:
  assumes "kind r anonymous = Some None" "kind r own = Some None" "own \<noteq> anonymous"
    and "move_entries fails anonymous own es r = (r', ok)"
  shows "\<And>e i. map_of (entries r own) e = Some i \<Longrightarrow> map_of (entries r' own) e = Some i"
    "\<And>e i. map_of (entries r anonymous) e = Some i \<Longrightarrow> map_of (entries r own) e = None \<Longrightarrow>
      map_of (entries r' own) e = Some i \<or> map_of (entries r' anonymous) e = Some i \<and> \<not> (ok \<and> e \<in> set es)"
    "\<And>e i. map_of (entries r' own) e = Some i \<Longrightarrow> map_of (entries r own) e = Some i \<or>
      map_of (entries r own) e = None \<and> map_of (entries r anonymous) e = Some i"
    "\<And>n. n \<noteq> own \<Longrightarrow> n \<noteq> anonymous \<Longrightarrow> map_of r' n = map_of r n"
    "(\<And>x. \<not> fails x) \<Longrightarrow> (\<And>e. e \<in> set es \<Longrightarrow> map_of (entries r anonymous) e \<noteq> None \<or> map_of (entries r own) e \<noteq> None) \<Longrightarrow> ok"
proof -
  have "(\<forall>e i. map_of (entries r own) e = Some i \<longrightarrow> map_of (entries r' own) e = Some i) \<and>
    (\<forall>e i. map_of (entries r anonymous) e = Some i \<longrightarrow> map_of (entries r own) e = None \<longrightarrow>
      map_of (entries r' own) e = Some i \<or> map_of (entries r' anonymous) e = Some i \<and> \<not> (ok \<and> e \<in> set es)) \<and>
    (\<forall>e i. map_of (entries r' own) e = Some i \<longrightarrow> map_of (entries r own) e = Some i \<or>
      map_of (entries r own) e = None \<and> map_of (entries r anonymous) e = Some i) \<and>
    (\<forall>n. n \<noteq> own \<longrightarrow> n \<noteq> anonymous \<longrightarrow> map_of r' n = map_of r n) \<and>
    ((\<forall>x. \<not> fails x) \<longrightarrow> (\<forall>e \<in> set es. map_of (entries r anonymous) e \<noteq> None \<or> map_of (entries r own) e \<noteq> None) \<longrightarrow> ok)"
    using assms(1,2,4)
  proof (induction es arbitrary: r)
    case (Cons e es)
    show ?case
    proof (cases "map_of (entries r own) e")
      case (Some i)
      then have "move_entries fails anonymous own es r = (r', ok)"
        using Cons.prems by simp
      from Cons.IH [OF Cons.prems(1,2) this] show ?thesis
        using Some by auto
    next
      case free: None
      show ?thesis
      proof (cases "map_of (entries r anonymous) e = None \<or> fails (Rename e)")
        case True
        with Cons.prems free show ?thesis by (auto split: option.splits)
      next
        case False
        then obtain i where i: "map_of (entries r anonymous) e = Some i" "\<not> fails (Rename e)" by auto
        let ?m = "put_entry own e i (drop_entry anonymous e r)"
        have k: "kind ?m = kind r"
          using Cons.prems by simp
        have "move_entries fails anonymous own es ?m = (r', ok)"
          using Cons.prems free i by simp
        note IH = Cons.IH [of ?m, unfolded k, OF Cons.prems(1,2) this]
        have at: "map_of (entries ?m own) x = (if x = e then Some i else map_of (entries r own) x)"
          "map_of (entries ?m anonymous) x = (if x = e then None else map_of (entries r anonymous) x)" for x
          using assms(3) by (simp_all add: update_conv' delete_conv')
        have other: "map_of ?m n = map_of r n" if "n \<noteq> own" "n \<noteq> anonymous" for n
          using that by (simp add: put_entry_def drop_entry_def update_conv')
        note parts = conjunct1 [OF IH] conjunct1 [OF conjunct2 [OF IH]] conjunct1 [OF conjunct2 [OF conjunct2 [OF IH]]]
          conjunct1 [OF conjunct2 [OF conjunct2 [OF conjunct2 [OF IH]]]] conjunct2 [OF conjunct2 [OF conjunct2 [OF conjunct2 [OF IH]]]]
        show ?thesis
        proof (intro conjI)
          show "\<forall>x j. map_of (entries r own) x = Some j \<longrightarrow> map_of (entries r' own) x = Some j"
            using parts(1) free unfolding at by (metis option.distinct(1))
          have "map_of (entries r' own) e = Some i"
            using parts(1) unfolding at by simp
          then show "\<forall>x j. map_of (entries r anonymous) x = Some j \<longrightarrow> map_of (entries r own) x = None \<longrightarrow>
              map_of (entries r' own) x = Some j \<or> map_of (entries r' anonymous) x = Some j \<and> \<not> (ok \<and> x \<in> set (e # es))"
            using parts(2) i unfolding at by (metis option.inject set_ConsD)
          show "\<forall>x j. map_of (entries r' own) x = Some j \<longrightarrow> map_of (entries r own) x = Some j \<or>
              map_of (entries r own) x = None \<and> map_of (entries r anonymous) x = Some j"
            using parts(3) i free unfolding at by (metis option.distinct(1))
          show "\<forall>n. n \<noteq> own \<longrightarrow> n \<noteq> anonymous \<longrightarrow> map_of r' n = map_of r n"
            using parts(4) other by simp
          show "(\<forall>x. \<not> fails x) \<longrightarrow> (\<forall>x \<in> set (e # es). map_of (entries r anonymous) x \<noteq> None \<or> map_of (entries r own) x \<noteq> None) \<longrightarrow> ok"
            using parts(5) unfolding at by (metis list.set_intros(2) option.distinct(1))
        qed
      qed
    qed
  qed auto
  then show "\<And>e i. map_of (entries r own) e = Some i \<Longrightarrow> map_of (entries r' own) e = Some i"
    "\<And>e i. map_of (entries r anonymous) e = Some i \<Longrightarrow> map_of (entries r own) e = None \<Longrightarrow>
      map_of (entries r' own) e = Some i \<or> map_of (entries r' anonymous) e = Some i \<and> \<not> (ok \<and> e \<in> set es)"
    "\<And>e i. map_of (entries r' own) e = Some i \<Longrightarrow> map_of (entries r own) e = Some i \<or>
      map_of (entries r own) e = None \<and> map_of (entries r anonymous) e = Some i"
    "\<And>n. n \<noteq> own \<Longrightarrow> n \<noteq> anonymous \<Longrightarrow> map_of r' n = map_of r n"
    "(\<And>x. \<not> fails x) \<Longrightarrow> (\<And>e. e \<in> set es \<Longrightarrow> map_of (entries r anonymous) e \<noteq> None \<or> map_of (entries r own) e \<noteq> None) \<Longrightarrow> ok"
    by blast+
qed

lemma link_home_entries [simp]: "map_of r anonymous \<noteq> Some (Home es) \<Longrightarrow> q \<noteq> anonymous \<Longrightarrow> entries (link_home fails anonymous own r) q = entries r q"
  by (simp add: link_home_def)

lemma link_home_other [simp]: "n \<noteq> anonymous \<Longrightarrow> map_of (link_home fails anonymous own r) n = map_of r n"
  by (simp add: link_home_def update_conv')

lemma entries_link_home [simp]: "n \<noteq> anonymous \<Longrightarrow> entries (link_home fails anonymous own r) n = entries r n"
  by (simp add: entries_def)

text \<open>Redirecting, whatever throws: nothing the viewer's home had is lost, nothing comes from elsewhere.\<close>

lemma redirect_keeps:
  fixes fails :: faults
  assumes "kind r own = Some None" "own \<noteq> anonymous"
  defines "r' \<equiv> redirect_home fails anonymous own r"
  shows "map_of (entries r own) e = Some i \<Longrightarrow> map_of (entries r' own) e = Some i"
    "map_of (entries r anonymous) e = Some i \<Longrightarrow> map_of (entries r own) e = None \<Longrightarrow>
      map_of (entries r' own) e = Some i \<or> map_of (entries r' anonymous) e = Some i"
    "map_of (entries r' own) e = Some i \<Longrightarrow> map_of (entries r own) e = Some i \<or>
      map_of (entries r own) e = None \<and> map_of (entries r anonymous) e = Some i"
    "n \<noteq> own \<Longrightarrow> n \<noteq> anonymous \<Longrightarrow> map_of r' n = map_of r n"
    "(\<And>x. \<not> fails x) \<Longrightarrow> leads_to r' anonymous = Some own"
    "(\<And>x. \<not> fails x) \<Longrightarrow> map_of (entries r own) e = None \<Longrightarrow> map_of (entries r' own) e = map_of (entries r anonymous) e"
proof -
  have all: "(map_of (entries r own) e = Some i \<longrightarrow> map_of (entries r' own) e = Some i) \<and>
    (map_of (entries r anonymous) e = Some i \<longrightarrow> map_of (entries r own) e = None \<longrightarrow>
      map_of (entries r' own) e = Some i \<or> map_of (entries r' anonymous) e = Some i) \<and>
    (map_of (entries r' own) e = Some i \<longrightarrow> map_of (entries r own) e = Some i \<or>
      map_of (entries r own) e = None \<and> map_of (entries r anonymous) e = Some i) \<and>
    (n \<noteq> own \<longrightarrow> n \<noteq> anonymous \<longrightarrow> map_of r' n = map_of r n) \<and>
    ((\<forall>x. \<not> fails x) \<longrightarrow> kind r' anonymous = Some (Some own)) \<and>
    ((\<forall>x. \<not> fails x) \<longrightarrow> map_of (entries r own) e = None \<longrightarrow> map_of (entries r' own) e = map_of (entries r anonymous) e)" for e i n
  proof (cases "kind r anonymous = Some None")
    case True
    then obtain es where es: "map_of r anonymous = Some (Home es)" by (auto simp: kind_home)
    obtain m ok where m: "move_entries fails anonymous own (map fst es) r = (m, ok)" by fastforce
    note moved = move_entries_keeps [OF True assms(1,2) m]
    have r': "r' = (if ok \<and> \<not> fails (Remove anonymous) then link_home fails anonymous own (AList.delete anonymous m) else m)"
      by (cases ok) (simp_all add: r'_def redirect_home_def es m)
    have dom: "e \<in> set (map fst es)" if "map_of (entries r anonymous) e = Some i" for e i
      using that es by (auto dest!: map_of_SomeD intro: rev_image_eqI)
    have ok: "ok" if "\<forall>x. \<not> fails x"
      using moved(5) that es by (auto simp: map_of_eq_None_iff)
    have at: "entries r' own = entries m own" "ok \<Longrightarrow> \<not> fails (Remove anonymous) \<Longrightarrow> entries r' anonymous = []"
      "\<not> (ok \<and> \<not> fails (Remove anonymous)) \<Longrightarrow> r' = m"
      using assms(2) by (auto simp: r' link_home_def)
    have linked: "kind r' anonymous = Some (Some own)" if "\<forall>x. \<not> fails x"
      using ok [OF that] that by (simp add: r' kind_link_home)
    have other: "map_of r' n = map_of r n" if "n \<noteq> own" "n \<noteq> anonymous"
      using moved(4) [OF that] that(2) by (simp add: r' delete_conv')
    have there: "map_of (entries r' own) e = Some i \<or> map_of (entries r' anonymous) e = Some i"
      if "map_of (entries r anonymous) e = Some i" "map_of (entries r own) e = None" for e i
      using moved(2) [OF that] dom [OF that(1)] at by (cases "ok \<and> \<not> fails (Remove anonymous)") auto
    have full: "map_of (entries r' own) e = map_of (entries r anonymous) e"
      if "\<forall>x. \<not> fails x" "map_of (entries r own) e = None" for e
    proof (cases "map_of (entries r anonymous) e")
      case None
      then show ?thesis using moved(3) [of e] that(2) at(1) by (cases "map_of (entries m own) e") auto
    next
      case (Some i)
      then show ?thesis using moved(2) [OF Some that(2)] dom [OF Some] ok [OF that(1)] at(1) by auto
    qed
    show ?thesis
      using moved(1,3) at(1) other linked there full by simp
  next
    case False
    then have none: "entries r anonymous = []"
      by (auto simp: entries_def kind_home split: option.splits node.splits)
    show ?thesis
    proof (cases "map_of r anonymous")
      case None
      then show ?thesis
        using assms(2) none by (auto simp: r'_def redirect_home_def kind_link_home kind_none)
    next
      case (Some nd)
      with False obtain t where t: "map_of r anonymous = Some (Link t)"
        by (cases nd) (auto simp: kind_home)
      then have "kind r anonymous = Some (Some t)"
        by (simp add: kind_def)
      with t show ?thesis
        using assms(2) none by (auto simp: r'_def redirect_home_def kind_link_home kind_delete_fun delete_conv')
    qed
  qed
  show "map_of (entries r own) e = Some i \<Longrightarrow> map_of (entries r' own) e = Some i"
    "map_of (entries r anonymous) e = Some i \<Longrightarrow> map_of (entries r own) e = None \<Longrightarrow>
      map_of (entries r' own) e = Some i \<or> map_of (entries r' anonymous) e = Some i"
    "map_of (entries r' own) e = Some i \<Longrightarrow> map_of (entries r own) e = Some i \<or>
      map_of (entries r own) e = None \<and> map_of (entries r anonymous) e = Some i"
    "n \<noteq> own \<Longrightarrow> n \<noteq> anonymous \<Longrightarrow> map_of r' n = map_of r n"
    "(\<And>x. \<not> fails x) \<Longrightarrow> map_of (entries r own) e = None \<Longrightarrow> map_of (entries r' own) e = map_of (entries r anonymous) e"
    using all by blast+
  have "kind r' own = Some None"
    using kind_redirect_home [of fails anonymous own r] assms(1,2) by (auto simp: r'_def)
  then show "leads_to r' anonymous = Some own" if "\<And>x. \<not> fails x"
    using leads_to_link all that by blast
qed

lemma host_leads:
  assumes "separate hex w" "(i, p) \<in> set (wHosts w)" "leads_to (wHomes w) p = Some d"
  shows "d = session_name i \<or> (\<exists>k. (i, k) \<in> set (wTold w) \<and> d = directory_name_for hex k)"
proof -
  note sep = separateD [OF assms(1)]
  from sep(7) [OF assms(2)] consider "p = session_name i" "i \<in> cnId ` set (wConns w)"
    | k where "(i, k) \<in> set (wTold w)" "p = directory_name_for hex k" by blast
  then show ?thesis
  proof cases
    case 1
    from leads_to_cases [OF assms(3)] show ?thesis
    proof (elim disjE conjE exE)
      fix t assume t: "kind (wHomes w) p = Some (Some t)"
      obtain c where c: "c \<in> set (wConns w)" "i = cnId c"
        using 1(2) by blast
      then obtain k where k: "(i, k) \<in> set (wTold w)" "t = directory_name_for hex k"
        using sep(2) [OF c(1)] t 1(1) by auto
      then have "leads_to (wHomes w) p = Some t"
        using leads_to_link [OF t] sep(4) by blast
      with assms(3) k show ?thesis by auto
    qed (simp add: 1)
  next
    case 2
    then show ?thesis
      using assms(3) sep(4) by auto
  qed
qed

lemma write_git_config_own:
  assumes "kind r own = Some None"
  shows "map_of (write_git_config fails container own person r) n = (if n = own then Some (Home (entries (write_git_config fails container own person r) own)) else map_of r n)"
    "e \<noteq> ''.gitconfig'' \<Longrightarrow> map_of (entries (write_git_config fails container own person r) own) e = map_of (entries r own) e"
    "\<not> fails (Write own) \<Longrightarrow> \<forall>fs. map_of (entries r own) ''.gitconfig'' \<noteq> Some (Folder fs) \<Longrightarrow>
      map_of (entries (write_git_config fails container own person r) own) ''.gitconfig'' = Some (File (git_identity_config container person))"
  using assms by (auto simp: write_git_config_def put_entry_def update_conv' kind_home entries_def Let_def split: option.splits item.splits)

lemma distinct_assign: "distinct (map fst t) \<Longrightarrow> distinct (map fst (assign t xs))"
  unfolding assign_def by (induction xs arbitrary: t) (simp_all add: distinct_update)

lemma map_of_assign: "distinct (map fst xs) \<Longrightarrow> map_of (assign t xs) k = (case map_of xs k of Some v \<Rightarrow> Some v | None \<Rightarrow> map_of t k)"
proof (induction xs arbitrary: t)
  case (Cons x xs)
  have "assign t (x # xs) = assign (AList.update (fst x) (snd x) t) xs"
    by (simp add: assign_def)
  moreover have "map_of xs (fst x) = None"
    using Cons.prems by (simp add: map_of_eq_None_iff)
  ultimately show ?case
    using Cons by (cases x) (auto simp: update_conv' split: option.split)
qed (simp add: assign_def)

lemma leads_to_cong: "kind r = kind r' \<Longrightarrow> leads_to r p = leads_to r' p"
proof -
  assume k: "kind r = kind r'"
  have by_kind: "follow n r p = (case kind r p of Some None \<Rightarrow> Some p
      | Some (Some t) \<Rightarrow> (case n of 0 \<Rightarrow> None | Suc m \<Rightarrow> follow m r t) | None \<Rightarrow> None)" for n r p
    by (subst follow.simps) (simp add: kind_def split: option.split node.split)
  have "follow n r p = follow n r' p" for n p
    by (induction n arbitrary: p) (subst (1 2) by_kind, simp add: k split: option.split)+
  then show ?thesis
    by (simp add: leads_to_def)
qed

section \<open>Properties\<close>

text \<open>
  C31: no home is shared between people. However connections come, announce themselves, start
  plugin hosts and work, and whichever file operations fail, the paths the plugin hosts of two
  connections were given lead to one directory only if both connections announced the same
  viewer, whose home it is.
\<close>

theorem homes_never_shared:
  assumes "reachable hex container root movable w"
    and "(i, p) \<in> set (wHosts w)" "(j, q) \<in> set (wHosts w)" "i \<noteq> j"
    and "leads_to (wHomes w) p = Some d" "leads_to (wHomes w) q = Some d"
  shows "\<exists>k. (i, k) \<in> set (wTold w) \<and> (j, k) \<in> set (wTold w) \<and> d = directory_name_for hex k"
proof -
  have sep: "separate hex w"
    by (rule reachable_separate [OF assms(1)])
  note parts = separateD [OF sep]
  have "session_name i' \<noteq> directory_name_for hex k" if "(i', p') \<in> set (wHosts w)" "(j', k) \<in> set (wTold w)" for i' p' j' k
    using parts(7) [OF that(1)] parts(5) [OF that(2)] by blast
  note apart = this [OF assms(2)] this [OF assms(3)]
  consider "d = session_name i" | k where "(i, k) \<in> set (wTold w)" "d = directory_name_for hex k"
    using host_leads [OF sep assms(2,5)] by blast
  then show ?thesis
  proof cases
    case 1
    then have "\<not> (\<exists>k. (j, k) \<in> set (wTold w) \<and> d = directory_name_for hex k)" "d \<noteq> session_name j"
      using apart(1) assms(4) by auto
    then show ?thesis
      using host_leads [OF sep assms(3,6)] by blast
  next
    case 2
    then have "d \<noteq> session_name j"
      using apart(2) by metis
    then obtain k' where k': "(j, k') \<in> set (wTold w)" "d = directory_name_for hex k'"
      using host_leads [OF sep assms(3,6)] by blast
    have "k = k'"
      by (rule parts(6) [OF 2(1) k'(1)]) (simp flip: 2(2) k'(2))
    with 2 k' show ?thesis by blast
  qed
qed

lemma reach_connect:
  "reachable hex container root movable \<lparr>wHomes = r, wConns = cs, wHosts = hs, wTold = ts\<rparr> \<Longrightarrow> i \<notin> cnId ` set cs \<Longrightarrow>
   map_of r (session_name i) = None \<Longrightarrow>
   reachable hex container root movable \<lparr>wHomes = r, wConns = cs @ [\<lparr>cnId = i, cnKey = [], cnPerson = None\<rparr>], wHosts = hs, wTold = ts\<rparr>"
  by (erule reachable.more) (use step.connect [where w = "\<lparr>wHomes = r, wConns = cs, wHosts = hs, wTold = ts\<rparr>"] in \<open>simp add: kind_none\<close>)

lemma reach_fork:
  "reachable hex container root movable \<lparr>wHomes = r, wConns = cs, wHosts = hs, wTold = ts\<rparr> \<Longrightarrow> c \<in> set cs \<Longrightarrow>
   home hex container fails c r = Some (p, r1) \<Longrightarrow> snd (process_env hex container root movable fails c env r) = r' \<Longrightarrow>
   reachable hex container root movable \<lparr>wHomes = r', wConns = cs, wHosts = (cnId c, p) # hs, wTold = ts\<rparr>"
  by (erule reachable.more) (use step.fork [where w = "\<lparr>wHomes = r, wConns = cs, wHosts = hs, wTold = ts\<rparr>"] in \<open>force simp: prod_eq_iff\<close>)

lemma reach_announce:
  assumes "reachable hex container root movable \<lparr>wHomes = r, wConns = xs @ c # ys, wHosts = hs, wTold = ts\<rparr>"
    and "set_viewer hex container fails vk person c r = (Some h, c', r')" "js_trim vk \<noteq> []"
    and "no_clash hex (js_trim vk) \<lparr>wHomes = r, wConns = xs @ c # ys, wHosts = hs, wTold = ts\<rparr>"
  shows "reachable hex container root movable \<lparr>wHomes = r', wConns = xs @ c' # ys, wHosts = hs, wTold = (cnId c, js_trim vk) # ts\<rparr>"
  using assms(1)
proof (rule reachable.more)
  let ?w = "\<lparr>wHomes = r, wConns = xs @ c # ys, wHosts = hs, wTold = ts\<rparr>"
  have sv: "set_viewer hex container fails vk person c (wHomes ?w) = (Some h, c', r')"
    using assms(2) by simp
  show "step hex container root movable ?w \<lparr>wHomes = r', wConns = xs @ c' # ys, wHosts = hs, wTold = (cnId c, js_trim vk) # ts\<rparr>"
    using step.announce [OF _ refl _ sv, where xs = xs and ys = ys] assms(3,4) by simp
qed

lemma homes_never_shared_witness:
  "\<exists>w k. reachable (\<lambda>_. ''0'') ''/c'' ''/r'' True w \<and> leads_to (wHomes w) ''session-a'' = leads_to (wHomes w) ''session-b'' \<and>
    (''a'', k) \<in> set (wTold w) \<and> (''b'', k) \<in> set (wTold w)"
proof -
  let ?hex = "\<lambda>_. ''0''" let ?d = "''roma-0''"
  let ?f = "\<lambda>x. case x of Write p \<Rightarrow> True | Mkdir p \<Rightarrow> p \<notin> {''session-a'', ''session-b'', ''roma-0''} | _ \<Rightarrow> False"
  let ?c = "\<lambda>i k. \<lparr>cnId = i, cnKey = k, cnPerson = None\<rparr>"
  let ?w = "\<lambda>r cs hs ts. \<lparr>wHomes = r, wConns = cs, wHosts = hs, wTold = ts\<rparr>"
  let ?r1 = "[(''session-a'', Home [])]" and ?r2 = "[(?d, Home []), (''session-a'', Link ?d)]"
  let ?r3 = "[(?d, Home []), (''session-a'', Link ?d), (''session-b'', Home [])]"
  let ?r4 = "[(?d, Home []), (''session-a'', Link ?d), (''session-b'', Link ?d)]"
  let ?ha = "[(''a'', ''session-a'')]" and ?hb = "[(''b'', ''session-b''), (''a'', ''session-a'')]"
  let ?reach = "reachable ?hex ''/c'' ''/r'' True"
  have eqs: "home ?hex ''/c'' ?f (?c ''a'' []) [] = Some (''session-a'', ?r1)"
    "snd (process_env ?hex ''/c'' ''/r'' True ?f (?c ''a'' []) [] []) = ?r1"
    "set_viewer ?hex ''/c'' ?f ''roma'' None (?c ''a'' []) ?r1 = (Some ?d, ?c ''a'' ''roma'', ?r2)"
    "home ?hex ''/c'' ?f (?c ''b'' []) ?r2 = Some (''session-b'', ?r3)"
    "snd (process_env ?hex ''/c'' ''/r'' True ?f (?c ''b'' []) [] ?r2) = ?r3"
    "set_viewer ?hex ''/c'' ?f ''roma'' None (?c ''b'' []) ?r3 = (Some ?d, ?c ''b'' ''roma'', ?r4)"
    "js_trim ''roma'' = ''roma''" "directory_name_for ?hex ''roma'' = ?d"
    by code_simp+
  have "?reach (?w [] [] [] [])"
    by (rule reachable.start)
  from reach_connect [OF this, of "''a''"] have "?reach (?w [] [?c ''a'' []] [] [])"
    by simp
  from reach_fork [OF this _ eqs(1,2)] have "?reach (?w ?r1 ([] @ [?c ''a'' []]) ?ha [])"
    by simp
  from reach_announce [OF this eqs(3)] have "?reach (?w ?r2 [?c ''a'' ''roma''] ?ha [(''a'', ''roma'')])"
    by (simp add: eqs(7,8) no_clash_def kind_def session_name_def)
  from reach_connect [OF this, of "''b''"] have "?reach (?w ?r2 [?c ''a'' ''roma'', ?c ''b'' []] ?ha [(''a'', ''roma'')])"
    by (simp add: session_name_def)
  from reach_fork [OF this _ eqs(4,5)] have "?reach (?w ?r3 ([?c ''a'' ''roma''] @ [?c ''b'' []]) ?hb [(''a'', ''roma'')])"
    by simp
  from reach_announce [OF this eqs(6)] have r: "?reach (?w ?r4 [?c ''a'' ''roma'', ?c ''b'' ''roma''] ?hb [(''b'', ''roma''), (''a'', ''roma'')])"
    by (simp add: eqs(7,8) no_clash_def kind_def session_name_def)
  let ?e = "?w ?r4 [?c ''a'' ''roma'', ?c ''b'' ''roma''] ?hb [(''b'', ''roma''), (''a'', ''roma'')]"
  have leads: "leads_to (wHomes ?e) ''session-a'' = Some ?d" "leads_to (wHomes ?e) ''session-b'' = Some ?d"
    by code_simp+
  have "\<exists>k. (''a'', k) \<in> set (wTold ?e) \<and> (''b'', k) \<in> set (wTold ?e) \<and> ?d = directory_name_for ?hex k"
    by (rule homes_never_shared [OF r _ _ _ leads]) simp_all
  with r leads show ?thesis by (intro exI [of _ ?e]) auto
qed



text \<open>
  C29: a plugin host's environment is its viewer's. Every variable the assistants look for their
  credentials in is the home of this connection, or below it, and the provider key is the one
  the viewer stored in that home or none at all, whatever the container was started with; nothing
  else changes. The one exception is a home that cannot be made: then the environment
  stays as it was.
\<close>

theorem environment_is_the_viewers:
  assumes "process_env hex container root movable fails c env r = (env', r')" "distinct (map fst env)"
  shows "(case home hex container fails c r of
      None \<Rightarrow> env' = env \<and> r' = r
    | Some (p, r1) \<Rightarrow>
        (let h = below root p
         in p = home_name hex c \<and>
            (\<forall>v. map_of env' v =
               (if v = ''ANTHROPIC_API_KEY'' then read_stored_key r1 p
                else if v = ''CODEX_HOME'' then Some (below h ''.codex'')
                else if v = ''CLAUDE_CONFIG_DIR'' then Some (below h ''.claude'')
                else if v = ''STUDIO_CREDENTIAL_HOME'' then Some h
                else if movable \<and> (v = ''HOME'' \<or> v = ''USERPROFILE'') then Some h
                else if movable \<and> v = ''XDG_CONFIG_HOME'' then Some (below h ''.config'')
                else if movable \<and> v = ''XDG_DATA_HOME'' then Some (below h ''.local/share'')
                else if movable \<and> v = ''XDG_CACHE_HOME'' then Some (below h ''.cache'')
                else map_of env v))))"
proof (cases "home hex container fails c r")
  case None
  then show ?thesis using assms(1) by (simp add: process_env_def)
next
  case (Some pr)
  obtain p r1 where pr: "pr = (p, r1)" by fastforce
  let ?h = "below root p"
  let ?vars = "home_variables movable ?h"
  define prepared where "prepared = assistant_environment movable ?h (read_stored_key r1 p) env"
  have stored: "read_stored_key r1 p \<noteq> Some []"
    by (auto simp: read_stored_key_def split: option.splits item.splits if_splits)
  have vars: "distinct (map fst ?vars)"
    by (cases movable) (simp_all add: home_variables_def)
  have "distinct (map fst prepared)"
    unfolding prepared_def assistant_environment_def Let_def
    by (simp add: distinct_update distinct_delete distinct_assign [OF assms(2)] split: option.split)
  then have get: "map_of (assign env prepared) v = (case map_of prepared v of Some x \<Rightarrow> Some x | None \<Rightarrow> map_of env v)" for v
    by (rule map_of_assign)
  have prep: "map_of prepared v = (if v = ''ANTHROPIC_API_KEY'' then read_stored_key r1 p
      else case map_of ?vars v of Some x \<Rightarrow> Some x | None \<Rightarrow> map_of env v)" for v
    unfolding prepared_def assistant_environment_def Let_def
    by (simp add: update_conv' delete_conv' map_of_assign [OF vars] split: option.split)
  have env': "env' = (if read_stored_key r1 p = None then AList.delete ''ANTHROPIC_API_KEY'' (assign env prepared) else assign env prepared)"
    using assms(1) Some pr stored prep [of "''ANTHROPIC_API_KEY''"] by (auto simp: process_env_def Let_def prepared_def)
  have "map_of env' v = (if v = ''ANTHROPIC_API_KEY'' then read_stored_key r1 p
      else case map_of ?vars v of Some x \<Rightarrow> Some x | None \<Rightarrow> map_of env v)" for v
    by (auto simp: env' delete_conv' get prep split: option.split)
  moreover have "p = home_name hex c"
    using home_kind Some pr by blast
  ultimately show ?thesis
    by (simp add: Some pr Let_def home_variables_def)
qed

lemma environment_is_the_viewers_witness:
  "map_of (fst (process_env (\<lambda>_. ''0'') ''/c'' ''/r'' True (\<lambda>_. False) \<lparr>cnId = ''a'', cnKey = [], cnPerson = None\<rparr>
     [(''ANTHROPIC_API_KEY'', ''container''), (''HOME'', ''/root'')] [])) ''ANTHROPIC_API_KEY'' = None"
proof -
  let ?e = "[(''ANTHROPIC_API_KEY'', ''container''), (''HOME'', ''/root'')]" and ?c = "\<lparr>cnId = ''a'', cnKey = [], cnPerson = None\<rparr>"
  let ?p = "process_env (\<lambda>_. ''0'') ''/c'' ''/r'' True (\<lambda>_. False) ?c ?e []"
  obtain p r1 where h: "home (\<lambda>_. ''0'') ''/c'' (\<lambda>_. False) ?c [] = Some (p, r1)" "read_stored_key r1 p = None"
  proof -
    have "read_stored_key (snd (the (home (\<lambda>_. ''0'') ''/c'' (\<lambda>_. False) ?c []))) (fst (the (home (\<lambda>_. ''0'') ''/c'' (\<lambda>_. False) ?c []))) = None"
      "home (\<lambda>_. ''0'') ''/c'' (\<lambda>_. False) ?c [] \<noteq> None"
      by code_simp+
    then show thesis using that by fastforce
  qed
  have "distinct (map fst ?e)"
    by simp
  from environment_is_the_viewers [OF prod.collapse [symmetric] this, of "\<lambda>_. ''0''" "''/c''" "''/r''" True "\<lambda>_. False" ?c "[]"]
  have "map_of (fst ?p) ''ANTHROPIC_API_KEY'' = read_stored_key r1 p"
    unfolding h(1) option.case prod.case Let_def
    by (elim conjE allE [of _ "''ANTHROPIC_API_KEY''"]) (simp only: simp_thms if_True)
  with h(2) show ?thesis
    by simp
qed

section \<open>What adoption deletes, and what a name can write\<close>

text \<open>
  Every home gets a \<open>.codex\<close> folder when a plugin host starts, so the home of a returning viewer
  has one. A login made before the viewer was known is then in the anonymous home's \<open>.codex\<close>,
  which is not moved, and is deleted with that home.
\<close>

lemma adoption_deletes_login:
  "let login = Folder [(''auth.json'', ''token'')];
       r = [(''roma-0'', Home [(''.codex'', Folder []), (''.claude'', Folder [])]), (''session-a'', Home [(''.codex'', login)])];
       r' = snd (snd (set_viewer (\<lambda>_. ''0'') ''/c'' (\<lambda>_. False) ''roma'' None \<lparr>cnId = ''a'', cnKey = [], cnPerson = None\<rparr> r))
   in map fst r' = [''roma-0'', ''session-a''] \<and> map_of r' ''session-a'' = Some (Link ''roma-0'') \<and>
      map_of (entries r' ''roma-0'') ''.codex'' = Some (Folder [])"
  by code_simp

text \<open>Only the ends of a name are trimmed: a line break in it starts a section of its own.\<close>

lemma name_writes_config:
  "let p = \<lparr>vpName = Some (''Eve'' @ [LF] @ ''[core]'' @ [LF] @ ''sshCommand = run''), vpEmail = None\<rparr>
   in drop 4 (split_on LF (git_identity_config ''/c'' (Some (stated p)))) =
      [''[user]'', [TAB] @ ''name = Eve'', ''[core]'', ''sshCommand = run'', []]"
  by code_simp

end
