(* ===== verification/Scan_Cache.thy ===== *)
theory Scan_Cache
  imports Studio_Prelude
begin

text \<open>
  The cache of browser/search-scan.js: file texts and per-query hits by modification time, under
  a budget of bytes. The Map of entries is an association list in insertion order, so the first
  is the oldest. The theorem is that over any sequence of operations the budget and the count
  of bytes hold, and that whatever is answered was put for that file at that time and nothing has
  happened to it since; a counterexample shows where the order is not that of use.
\<close>

section \<open>The cache\<close>

definition CACHE_BYTE_BUDGET :: int where "CACHE_BYTE_BUDGET = 24 * 1024 * 1024"

record 'h cache_entry =
  ceMtime :: int
  ceText :: jstr
  ceBytes :: int
  ceQueries :: "(jstr \<times> 'h) list"

record 'h cache =
  caBudget :: int
  caEntries :: "(jstr \<times> 'h cache_entry) list"
  caBytes :: int
  caHits :: nat
  caMisses :: nat

definition new_cache :: "int \<Rightarrow> 'h cache" where
  "new_cache byteBudget = \<lparr>caBudget = byteBudget, caEntries = [], caBytes = 0, caHits = 0, caMisses = 0\<rparr>"

text \<open>A Map with the key deleted and set again: the entry is the last.\<close>

definition touch :: "jstr \<Rightarrow> 'h cache_entry \<Rightarrow> 'h cache \<Rightarrow> 'h cache" where
  "touch key en c = c\<lparr>caEntries := AList.update key en (AList.delete key (caEntries c))\<rparr>"

definition cached_text :: "jstr \<Rightarrow> int \<Rightarrow> 'h cache \<Rightarrow> jstr option \<times> 'h cache" where
  "cached_text uri mtime c =
     (case map_of (caEntries c) uri of
        None \<Rightarrow> (None, c\<lparr>caMisses := caMisses c + 1\<rparr>)
      | Some en \<Rightarrow>
          if ceMtime en \<noteq> mtime then (None, c\<lparr>caMisses := caMisses c + 1\<rparr>)
          else (Some (ceText en), (touch uri en c)\<lparr>caHits := caHits c + 1\<rparr>))"

definition invalidate :: "jstr \<Rightarrow> 'h cache \<Rightarrow> bool \<times> 'h cache" where
  "invalidate uri c =
     (case map_of (caEntries c) uri of
        None \<Rightarrow> (False, c)
      | Some en \<Rightarrow> (True, c\<lparr>caBytes := caBytes c - ceBytes en, caEntries := AList.delete uri (caEntries c)\<rparr>))"

text \<open>The loop drops the first entry while the count is over the budget.\<close>

function evict :: "'h cache \<Rightarrow> 'h cache" where
  "evict c =
     (case caEntries c of
        [] \<Rightarrow> c
      | (oldest, en) # rest \<Rightarrow> if caBudget c < caBytes c then evict (snd (invalidate oldest c)) else c)"
  by pat_completeness auto
termination
proof (relation "measure (\<lambda>c. length (caEntries c))")
  fix c :: "'h cache" and p rest oldest en
  assume "caEntries c = p # rest" "(oldest, en) = p"
  moreover have "length (AList.delete oldest rest) \<le> length rest"
    by (rule length_delete_le)
  ultimately show "(snd (invalidate oldest c), c) \<in> measure (\<lambda>c. length (caEntries c))"
    by (auto simp: invalidate_def)
qed simp

declare evict.simps [simp del]

definition put_text :: "jstr \<Rightarrow> int \<Rightarrow> jstr \<Rightarrow> 'h cache \<Rightarrow> 'h cache" where
  "put_text uri mtime body c =
     (let b0 = (case map_of (caEntries c) uri of Some old \<Rightarrow> caBytes c - ceBytes old | None \<Rightarrow> caBytes c);
          size_of = int (length body) * 2;
          en = \<lparr>ceMtime = mtime, ceText = body, ceBytes = size_of, ceQueries = []\<rparr>
      in evict (c\<lparr>caEntries := AList.update uri en (caEntries c), caBytes := b0 + size_of\<rparr>))"

definition cached_hits :: "jstr \<Rightarrow> int \<Rightarrow> jstr \<Rightarrow> 'h cache \<Rightarrow> 'h option" where
  "cached_hits uri mtime key c =
     (case map_of (caEntries c) uri of
        None \<Rightarrow> None
      | Some en \<Rightarrow> if ceMtime en \<noteq> mtime then None else map_of (ceQueries en) key)"

definition ring_put :: "jstr \<Rightarrow> 'h \<Rightarrow> (jstr \<times> 'h) list \<Rightarrow> (jstr \<times> 'h) list" where
  "ring_put key hs qs =
     AList.update key hs (case qs of (k, v) # r \<Rightarrow> if 8 \<le> length qs then AList.delete k qs else qs | [] \<Rightarrow> qs)"

definition put_hits :: "jstr \<Rightarrow> int \<Rightarrow> jstr \<Rightarrow> 'h \<Rightarrow> 'h cache \<Rightarrow> 'h cache" where
  "put_hits uri mtime key hs c =
     (case map_of (caEntries c) uri of
        None \<Rightarrow> c
      | Some en \<Rightarrow>
          if ceMtime en \<noteq> mtime then c
          else c\<lparr>caEntries := AList.update uri (en\<lparr>ceQueries := ring_put key hs (ceQueries en)\<rparr>) (caEntries c)\<rparr>)"

definition drop_if :: "jstr \<Rightarrow> nat \<times> 'h cache \<Rightarrow> jstr \<Rightarrow> nat \<times> 'h cache" where
  "drop_if start nc key = (if starts_with key start then (fst nc + 1, snd (invalidate key (snd nc))) else nc)"

definition invalidate_prefix :: "jstr \<Rightarrow> 'h cache \<Rightarrow> nat \<times> 'h cache" where
  "invalidate_prefix start c = foldl (drop_if start) (0, c) (map fst (caEntries c))"

definition clear :: "'h cache \<Rightarrow> 'h cache" where
  "clear c = c\<lparr>caEntries := [], caBytes := 0\<rparr>"

section \<open>What was put last\<close>

text \<open>
  The operations in any order, and what they say of a file: the text last put with its time and
  the hits put for it since, nothing once it was invalidated.
\<close>

datatype 'h cache_op =
    Ask jstr int
  | Put jstr int jstr
  | Put_hits jstr int jstr 'h
  | Invalidate jstr
  | Invalidate_prefix jstr
  | Clear

fun apply_op :: "'h cache \<Rightarrow> 'h cache_op \<Rightarrow> 'h cache" where
  "apply_op c (Ask u m) = snd (cached_text u m c)"
| "apply_op c (Put u m t) = put_text u m t c"
| "apply_op c (Put_hits u m k h) = put_hits u m k h c"
| "apply_op c (Invalidate u) = snd (invalidate u c)"
| "apply_op c (Invalidate_prefix p) = snd (invalidate_prefix p c)"
| "apply_op c Clear = clear c"

type_synonym 'h known = "jstr \<Rightarrow> (int \<times> jstr \<times> (jstr \<Rightarrow> 'h option)) option"

fun say_op :: "'h known \<Rightarrow> 'h cache_op \<Rightarrow> 'h known" where
  "say_op k (Ask u m) = k"
| "say_op k (Put u m t) = k(u \<mapsto> (m, t, \<lambda>_. None))"
| "say_op k (Put_hits u m q h) =
     (case k u of Some (m', t, hs) \<Rightarrow> if m' = m then k(u \<mapsto> (m, t, hs(q \<mapsto> h))) else k | None \<Rightarrow> k)"
| "say_op k (Invalidate u) = k(u := None)"
| "say_op k (Invalidate_prefix p) = (\<lambda>u. if starts_with u p then None else k u)"
| "say_op k Clear = (\<lambda>_. None)"

text \<open>The accounts of the cache, and that it holds only what was put last.\<close>

definition weight :: "(jstr \<times> 'h cache_entry) list \<Rightarrow> int" where
  "weight xs = sum_list (map (\<lambda>ue. ceBytes (snd ue)) xs)"

definition cache_core :: "'h known \<Rightarrow> 'h cache \<Rightarrow> bool" where
  "cache_core k c \<longleftrightarrow>
     distinct (map fst (caEntries c)) \<and> caBytes c = weight (caEntries c) \<and>
     (\<forall>u en. map_of (caEntries c) u = Some en \<longrightarrow> ceBytes en = 2 * int (length (ceText en)) \<and>
        (\<exists>hs. k u = Some (ceMtime en, ceText en, hs) \<and> (\<forall>q h. map_of (ceQueries en) q = Some h \<longrightarrow> hs q = Some h)))"

definition cache_ok :: "'h known \<Rightarrow> 'h cache \<Rightarrow> bool" where
  "cache_ok k c \<longleftrightarrow> cache_core k c \<and> caBytes c \<le> max 0 (caBudget c)"

lemma weight_delete: "distinct (map fst xs) \<Longrightarrow>
    weight (AList.delete u xs) = weight xs - (case map_of xs u of Some en \<Rightarrow> ceBytes en | None \<Rightarrow> 0)"
proof (induction xs)
  case (Cons x xs)
  have "AList.delete u xs = xs" if "u \<notin> fst ` set xs" for u
    using that by simp
  with Cons show ?case
    by (cases x) (auto simp: weight_def map_of_eq_None_iff split: option.splits)
qed (simp add: weight_def)

lemma weight_update: "distinct (map fst xs) \<Longrightarrow>
    weight (AList.update u en xs) = weight xs + ceBytes en - (case map_of xs u of Some old \<Rightarrow> ceBytes old | None \<Rightarrow> 0)"
  by (induction xs) (auto simp: weight_def split: option.splits)

lemma core_delete:
  assumes "cache_core k c"
  shows "cache_core k (snd (invalidate u c))" "caBudget (snd (invalidate u c)) = caBudget c"
    "caEntries (snd (invalidate u c)) = AList.delete u (caEntries c)"
proof -
  have gone: "AList.delete u (caEntries c) = caEntries c" if "map_of (caEntries c) u = None"
    using that by (simp add: map_of_eq_None_iff)
  show e: "caEntries (snd (invalidate u c)) = AList.delete u (caEntries c)"
    by (auto simp: invalidate_def gone split: option.split)
  have "caBytes (snd (invalidate u c)) = weight (AList.delete u (caEntries c))"
    using assms weight_delete [of "caEntries c" u] by (auto simp: invalidate_def cache_core_def split: option.split)
  then show "cache_core k (snd (invalidate u c))"
    using assms unfolding cache_core_def e by (auto simp: distinct_delete delete_conv' split: if_splits)
  show "caBudget (snd (invalidate u c)) = caBudget c"
    by (simp add: invalidate_def split: option.split)
qed

lemma core_less: "cache_core k c \<Longrightarrow> (\<And>u en. map_of (caEntries c) u = Some en \<Longrightarrow> k' u = k u) \<Longrightarrow> cache_core k' c"
  unfolding cache_core_def by metis

lemma bytes_nonneg: "cache_core k c \<Longrightarrow> map_of (caEntries c) u = Some en \<Longrightarrow> 0 \<le> ceBytes en"
  unfolding cache_core_def by fastforce

lemma evict_ok:
  "cache_core k c \<Longrightarrow> cache_ok k (evict c) \<and> caBudget (evict c) = caBudget c"
proof (induction c rule: evict.induct)
  case (1 c)
  show ?case
  proof (cases "caEntries c")
    case Nil
    with 1(2) show ?thesis
      by (simp add: evict.simps [of c] cache_ok_def) (simp add: cache_core_def weight_def)
  next
    case (Cons p rest)
    obtain oldest en where p: "p = (oldest, en)" by fastforce
    show ?thesis
    proof (cases "caBudget c < caBytes c")
      case True
      then have "evict c = evict (snd (invalidate oldest c))"
        using Cons p by (simp add: evict.simps [of c])
      then show ?thesis
        using 1(1) [OF Cons p [symmetric] True] core_delete [OF 1(2), of oldest] by simp
    next
      case False
      then show ?thesis
        using Cons p 1(2) by (simp add: evict.simps [of c] cache_ok_def)
    qed
  qed
qed

lemma invalidate_ok:
  assumes "cache_ok k c"
  shows "cache_ok (k(u := None)) (snd (invalidate u c))"
proof -
  have core: "cache_core k c" and budget: "caBytes c \<le> max 0 (caBudget c)"
    using assms by (simp_all add: cache_ok_def)
  note del = core_delete [OF core, of u]
  have "caBytes (snd (invalidate u c)) \<le> caBytes c"
    using bytes_nonneg [OF core] by (auto simp: invalidate_def split: option.split)
  moreover have "cache_core (k(u := None)) (snd (invalidate u c))"
    by (rule core_less [OF del(1)]) (auto simp: del(3) delete_conv' split: if_splits)
  ultimately show ?thesis
    using budget del(2) by (simp add: cache_ok_def)
qed

lemma drop_prefix_ok:
  "cache_ok k c \<Longrightarrow> cache_ok (\<lambda>u. if u \<in> set us \<and> starts_with u start then None else k u) (snd (foldl (drop_if start) (n, c) us)) \<and>
   (\<forall>v en. map_of (caEntries (snd (foldl (drop_if start) (n, c) us))) v = Some en \<longrightarrow> map_of (caEntries c) v = Some en)"
proof (induction us arbitrary: k c n)
  case (Cons u us)
  let ?c = "snd (drop_if start (n, c) u)" and ?k = "if starts_with u start then k(u := None) else k"
  have step: "cache_ok ?k ?c"
    using invalidate_ok [OF Cons.prems, of u] Cons.prems by (simp add: drop_if_def)
  have less: "map_of (caEntries ?c) v = Some en \<Longrightarrow> map_of (caEntries c) v = Some en" for v en
    using core_delete(3) [of k c u] Cons.prems by (auto simp: drop_if_def cache_ok_def delete_conv' split: if_splits)
  have k: "(\<lambda>v. if v \<in> set us \<and> starts_with v start then None else ?k v) = (\<lambda>v. if v \<in> set (u # us) \<and> starts_with v start then None else k v)"
    by auto
  obtain m where "drop_if start (n, c) u = (m, ?c)"
    by (metis prod.collapse)
  then show ?case
    using Cons.IH [OF step, of m, unfolded k] less by simp
qed simp

lemma ring_put_get: "map_of (ring_put q h qs) x = Some y \<Longrightarrow> x = q \<and> y = h \<or> x \<noteq> q \<and> map_of qs x = Some y"
  by (auto simp: ring_put_def update_conv' delete_conv' split: if_splits list.splits)

lemma apply_op_ok:
  assumes "cache_ok k c"
  shows "cache_ok (say_op k p) (apply_op c p)"
proof -
  have core: "cache_core k c" and budget: "caBytes c \<le> max 0 (caBudget c)"
    using assms by (simp_all add: cache_ok_def)
  note parts = core [unfolded cache_core_def]
  show ?thesis
  proof (cases p)
    case (Ask u m)
    have "cache_ok k (touch u en c)" if "map_of (caEntries c) u = Some en" for en
      using parts budget that weight_delete [of "caEntries c" u] weight_update [of "AList.delete u (caEntries c)" u en]
      by (auto simp: touch_def cache_ok_def cache_core_def distinct_update distinct_delete update_conv' delete_conv' split: if_splits)
    moreover have "cache_ok k (d\<lparr>caHits := n\<rparr>) = cache_ok k d" "cache_ok k (d\<lparr>caMisses := n\<rparr>) = cache_ok k d" for d n
      by (simp_all add: cache_ok_def cache_core_def)
    ultimately show ?thesis
      using assms by (simp add: Ask cached_text_def split: option.split)
  next
    case (Put u m t)
    let ?en = "\<lparr>ceMtime = m, ceText = t, ceBytes = int (length t) * 2, ceQueries = []\<rparr>"
    let ?b = "case map_of (caEntries c) u of Some old \<Rightarrow> caBytes c - ceBytes old | None \<Rightarrow> caBytes c"
    have "cache_core (say_op k p) (c\<lparr>caEntries := AList.update u ?en (caEntries c), caBytes := ?b + int (length t) * 2\<rparr>)"
      using parts weight_update [of "caEntries c" u ?en] unfolding Put
      by (auto simp: cache_core_def distinct_update update_conv' split: if_splits option.split)
    from evict_ok [OF this] show ?thesis
      by (simp add: Put put_text_def Let_def)
  next
    case (Put_hits u m q h)
    show ?thesis
    proof (cases "map_of (caEntries c) u")
      case None
      then have "cache_core (say_op k p) c"
        using parts unfolding Put_hits cache_core_def by (auto split: option.split)
      then show ?thesis
        using budget by (simp add: Put_hits put_hits_def None cache_ok_def)
    next
      case (Some en)
      then obtain hs where hs: "k u = Some (ceMtime en, ceText en, hs)" "\<And>q h. map_of (ceQueries en) q = Some h \<Longrightarrow> hs q = Some h"
        "ceBytes en = 2 * int (length (ceText en))"
        using parts by blast
      show ?thesis
      proof (cases "ceMtime en = m")
        case True
        let ?en = "en\<lparr>ceQueries := ring_put q h (ceQueries en)\<rparr>"
        have "\<forall>q' h'. map_of (ceQueries ?en) q' = Some h' \<longrightarrow> (hs(q \<mapsto> h)) q' = Some h'"
          using hs(2) by (auto dest!: ring_put_get)
        then have "cache_core (say_op k p) (c\<lparr>caEntries := AList.update u ?en (caEntries c)\<rparr>)"
          using parts hs(1,3) True Some weight_update [of "caEntries c" u ?en] unfolding Put_hits cache_core_def
          by (auto simp: distinct_update update_conv' split: if_splits)
        then show ?thesis
          using budget True by (simp add: Put_hits put_hits_def Some cache_ok_def)
      next
        case False
        then show ?thesis
          using assms hs(1) by (simp add: Put_hits put_hits_def Some)
      qed
    qed
  next
    case (Invalidate u)
    then show ?thesis using invalidate_ok [OF assms] by simp
  next
    case (Invalidate_prefix start)
    let ?us = "map fst (caEntries c)" and ?d = "snd (invalidate_prefix start c)"
    note dropped = drop_prefix_ok [OF assms, where us = ?us and start = start and n = 0, folded invalidate_prefix_def]
    have known: "cache_core (\<lambda>u. if u \<in> set ?us \<and> starts_with u start then None else k u) ?d"
      and small: "caBytes ?d \<le> max 0 (caBudget ?d)"
      using conjunct1 [OF dropped] unfolding cache_ok_def by blast+
    from known have "cache_core (say_op k p) ?d"
    proof (rule core_less)
      fix u en assume "map_of (caEntries ?d) u = Some en"
      then have "(u, en) \<in> set (caEntries c)"
        using conjunct2 [OF dropped] map_of_SomeD by metis
      then have "u \<in> set ?us"
        by force
      then show "say_op k p u = (if u \<in> set ?us \<and> starts_with u start then None else k u)"
        by (simp add: Invalidate_prefix)
    qed
    with small show ?thesis
      by (simp add: Invalidate_prefix cache_ok_def)
  next
    case Clear
    then show ?thesis
      by (simp add: clear_def cache_ok_def cache_core_def weight_def)
  qed
qed

lemma run_ok: "cache_ok (foldl say_op (\<lambda>_. None) ps) (foldl apply_op (new_cache budget) ps)"
proof (induction ps rule: rev_induct)
  case Nil
  show ?case by (simp add: new_cache_def cache_ok_def cache_core_def weight_def)
next
  case (snoc p ps)
  then show ?case using apply_op_ok by simp
qed

section \<open>Properties\<close>

text \<open>
  C33: the cache answers only what is current. After any operations the bytes counted are those
  of the texts held and within the budget, and a text or the hits of a query are answered only
  if they were the last put for that file, at that modification time, with nothing put
  or invalidated since.
\<close>

theorem cache_answers_current:
  assumes "c = foldl apply_op (new_cache budget) ps" "k = foldl say_op (\<lambda>_. None) ps"
  shows "caBytes c = (\<Sum>(u, en)\<leftarrow>caEntries c. 2 * int (length (ceText en))) \<and> caBytes c \<le> max 0 (caBudget c) \<and>
    distinct (map fst (caEntries c)) \<and>
    (\<forall>u m t. fst (cached_text u m c) = Some t \<longrightarrow> (\<exists>hs. k u = Some (m, t, hs))) \<and>
    (\<forall>u m q h. cached_hits u m q c = Some h \<longrightarrow> (\<exists>t hs. k u = Some (m, t, hs) \<and> hs q = Some h))"
proof -
  have ok: "cache_core k c" "caBytes c \<le> max 0 (caBudget c)"
    using run_ok [of ps budget] by (simp_all add: cache_ok_def assms)
  note parts = ok(1) [unfolded cache_core_def]
  have "map (\<lambda>ue. ceBytes (snd ue)) (caEntries c) = map (\<lambda>(u, en). 2 * int (length (ceText en))) (caEntries c)"
    using parts by (auto simp: map_of_eq_Some_iff)
  from arg_cong [OF this, of sum_list] have "caBytes c = (\<Sum>(u, en)\<leftarrow>caEntries c. 2 * int (length (ceText en)))"
    using parts by (simp only: weight_def)
  moreover have held: "\<exists>hs. k u = Some (ceMtime en, ceText en, hs) \<and> (\<forall>q h. map_of (ceQueries en) q = Some h \<longrightarrow> hs q = Some h)"
    if "map_of (caEntries c) u = Some en" for u en
    using parts that by blast
  then have "\<exists>hs. k u = Some (m, t, hs)" if "fst (cached_text u m c) = Some t" for u m t
    using that by (cases "map_of (caEntries c) u") (fastforce simp: cached_text_def split: if_splits)+
  moreover have "\<exists>t hs. k u = Some (m, t, hs) \<and> hs q = Some h" if "cached_hits u m q c = Some h" for u m q h
    using that held [of u] by (cases "map_of (caEntries c) u") (fastforce simp: cached_hits_def split: if_splits)+
  ultimately show ?thesis
    using ok(2) parts by blast
qed

lemma cache_answers_current_witness:
  "\<exists>c. fst (cached_text ''a'' 2 (c :: unit cache)) = Some ''zz'' \<and> caBytes c = 4 \<and> caBytes c \<le> max 0 (caBudget c)"
proof -
  let ?c = "foldl apply_op (new_cache 4 :: unit cache) [Put ''b'' 1 ''y'', Put ''a'' 1 ''xx'', Put ''a'' 2 ''zz'']"
  have "fst (cached_text ''a'' 2 ?c) = Some ''zz'' \<and> caBytes ?c = 4"
    by (simp add: new_cache_def put_text_def evict.simps invalidate_def cached_text_def)
  with cache_answers_current [OF refl refl, of 4 "[Put ''b'' 1 ''y'', Put ''a'' 1 ''xx'', Put ''a'' 2 ''zz'']"] show ?thesis
    by blast
qed

section \<open>The order is not that of use\<close>

text \<open>
  A file whose text is put again keeps its old place in the Map: with the budget full it is
  evicted before a file nothing has asked for since.
\<close>

lemma rewritten_is_evicted:
  "map fst (caEntries (foldl apply_op (new_cache 8 :: unit cache)
      [Put ''a'' 1 ''xx'', Put ''b'' 1 ''yy'', Put ''a'' 2 ''zz'', Put ''c'' 1 ''w''])) = [''b'', ''c'']"
  by (simp add: new_cache_def put_text_def evict.simps invalidate_def)

end
