(* ===== verification/Search_Scan.thy ===== *)
theory Search_Scan
  imports Quality_Anchor Inbox
begin

text \<open>
  browser/search-scan.js but its cache: the search as arithmetic. What a query asks for, which
  lines of a file match and where, the line cut to a snippet with its marks moved along, the
  filters and the counts of the facets, the ranking and the grouping by file. The ellipsis and
  the dash, which are not Latin-1, \<open>Date.parse\<close>, the calendar, \<open>localeCompare\<close> and the
  floating-point age bonus of a score are arguments. The theorems are what the marks of a line
  cover, that a snippet marks the same text, and that a facet's count is what ticking it shows.
\<close>

section \<open>Vocabulary\<close>

definition MAX_HITS_PER_FILE :: nat where "MAX_HITS_PER_FILE = 60"
definition SNIPPET_MAX :: nat where "SNIPPET_MAX = 168"
definition DAY_MS :: int where "DAY_MS = 86400000"

definition CONTENT_TYPES :: "(jstr \<times> jstr) list" where
  "CONTENT_TYPES = [(''document'', ''Document''), (''comment'', ''Comment''), (''change'', ''Proposed change''),
     (''history'', ''History entry''), (''checklist'', ''Checklist item'')]"

definition KIND_PHRASE :: "(jstr \<times> jstr) list" where
  "KIND_PHRASE = [(''document'', ''document text''), (''comment'', ''comments''), (''change'', ''proposed changes''),
     (''history'', ''history entries''), (''checklist'', ''checklist items'')]"

definition DATE_BUCKETS :: "(jstr \<times> jstr) list" where
  "DATE_BUCKETS = [(''today'', ''Today''), (''last7'', ''Last 7 days''), (''last30'', ''Last 30 days'')]"

definition FACET_KEYS :: "jstr list" where
  "FACET_KEYS = [''project'', ''type'', ''contributor'', ''changed'', ''folder'']"

definition FACET_LABEL :: "jstr \<Rightarrow> jstr" where
  "FACET_LABEL k = (case map_of [(''project'', ''Project''), (''type'', ''Content type''), (''contributor'', ''Contributor''),
     (''changed'', ''Changed''), (''folder'', ''Folder'')] k of Some l \<Rightarrow> l | None \<Rightarrow> [])"

section \<open>Small texts\<close>

fun comma_digits :: "jstr \<Rightarrow> jstr" where
  "comma_digits (a # b # c # d # r) = a # b # c # CHR '','' # comma_digits (d # r)"
| "comma_digits s = s"

definition group_digits :: "nat \<Rightarrow> jstr" where
  "group_digits n = rev (comma_digits (rev (to_dec n)))"

definition plural_word :: "nat \<Rightarrow> jstr \<Rightarrow> jstr option \<Rightarrow> jstr" where
  "plural_word n one many = (if n = 1 then one else case many of Some m \<Rightarrow> if m \<noteq> [] then m else one @ ''s'' | None \<Rightarrow> one @ ''s'')"

definition after_last :: "char \<Rightarrow> jstr \<Rightarrow> jstr" where
  "after_last c s = rev (takeWhile (\<lambda>x. x \<noteq> c) (rev s))"

text \<open>
  The table is an object literal, so a key it does not have is looked up in \<open>Object.prototype\<close>:
  None is the value inherited there, which is no string.
\<close>

definition file_glyph_kind :: "jstr \<Rightarrow> jstr option" where
  "file_glyph_kind nm =
     (let base = map js_lower nm; extension = (if CHR ''.'' \<in> set base then after_last CHR ''.'' base else []);
          kinds = [(''md'', ''markdown''), (''markdown'', ''markdown''), (''html'', ''html''), (''htm'', ''html''),
            (''json'', ''data''), (''yaml'', ''data''), (''yml'', ''data''),
            (''csv'', ''table''), (''tsv'', ''table''), (''tab'', ''table''), (''psv'', ''table''),
            (''ts'', ''typescript''), (''tsx'', ''typescript''), (''js'', ''javascript''), (''jsx'', ''javascript''),
            (''py'', ''python''), (''sh'', ''terminal''), (''css'', ''style''), (''scss'', ''style''),
            (''xml'', ''markup''), (''svg'', ''vector''), (''png'', ''image''), (''jpg'', ''image''), (''jpeg'', ''image''),
            (''pdf'', ''pdf''), (''txt'', ''text''), (''lock'', ''package'')]
      in if base = ''package.json'' then Some ''package''
         else case map_of kinds extension of
             Some k \<Rightarrow> Some k
           | None \<Rightarrow> if extension \<in> {''constructor'', ''__proto__''} then None else Some ''file'')"

definition path_extension :: "jstr \<Rightarrow> jstr" where
  "path_extension p =
     (let ext = after_last CHR ''.'' p; stem = take (length p - length ext - 1) p
      in if CHR ''.'' \<in> set p \<and> CHR ''/'' \<notin> set ext \<and> after_last CHR ''/'' stem \<noteq> [] then map js_lower ext else [])"

definition folder_of :: "jstr \<Rightarrow> jstr" where
  "folder_of p = (if CHR ''/'' \<in> set p then take (length p - length (after_last CHR ''/'' p) - 1) p else [])"

definition folder_label :: "jstr \<Rightarrow> jstr" where
  "folder_label dir = (if dir \<noteq> [] then dir else ''Project root'')"

definition control_char :: "char \<Rightarrow> bool" where
  "control_char c = (let n = (of_char c :: nat) in n < 32 \<and> n \<notin> {9, 10, 13} \<or> 127 \<le> n \<and> n \<le> 159)"

text \<open>\<open>control / head.length > 0.06\<close>, in whole numbers.\<close>

definition is_probably_binary :: "jstr \<Rightarrow> bool" where
  "is_probably_binary body =
     (let head = take 4096 body
      in NUL \<in> set head \<or> head \<noteq> [] \<and> 6 * length head < 100 * length (filter control_char head))"

section \<open>The query\<close>

record query =
  quRaw :: jstr
  quTerms :: "jstr list"
  quPhrase :: jstr
  quTypes :: "jstr list"
  quAuthors :: "jstr list"
  quAfter :: "jstr option"
  quEmpty :: bool

function query_tokens :: "jstr \<Rightarrow> (bool \<times> jstr) list" where
  "query_tokens [] = []"
| "query_tokens (c # r) =
     (if is_space c then query_tokens r
      else if c = DQUOTE then
        (let token = takeWhile (\<lambda>x. x \<noteq> DQUOTE) r; rest = drop 1 (dropWhile (\<lambda>x. x \<noteq> DQUOTE) r)
         in (if token \<noteq> [] then [(True, token)] else []) @ query_tokens rest)
      else (False, takeWhile (\<lambda>x. \<not> is_space x) (c # r)) # query_tokens (dropWhile (\<lambda>x. \<not> is_space x) r))"
  by pat_completeness auto
termination
  by (relation "measure length")
    (auto simp: length_dropWhile_le le_imp_less_Suc intro!: le_imp_less_Suc intro: le_trans [OF diff_le_self length_dropWhile_le])

text \<open>\<open>/^(type|by|after):(.*)$/i\<close> on a token, with a value that is not empty.\<close>

definition filter_prefix :: "jstr \<Rightarrow> (jstr \<times> jstr) option" where
  "filter_prefix token =
     (case List.find (\<lambda>n. starts_with (map js_lower token) (n @ '':'')) [''type'', ''by'', ''after''] of
        None \<Rightarrow> None
      | Some n \<Rightarrow> if drop (length n + 1) token = [] then None else Some (n, drop (length n + 1) token))"

definition is_digit :: "char \<Rightarrow> bool" where
  "is_digit c \<longleftrightarrow> c \<in> set ''0123456789''"

definition digits_value :: "jstr \<Rightarrow> nat" where
  "digits_value ds = foldl (\<lambda>n c. n * 10 + (of_char c - 48)) 0 ds"

definition date_shaped :: "jstr \<Rightarrow> bool" where
  "date_shaped t = (length t = 10 \<and> (\<forall>i<10. if i = 4 \<or> i = 7 then t ! i = CHR ''-'' else is_digit (t ! i)))"

definition parse_after :: "(jstr \<Rightarrow> int option) \<Rightarrow> (int \<Rightarrow> jstr) \<Rightarrow> jstr \<Rightarrow> int \<Rightarrow> jstr option" where
  "parse_after date iso_date v now =
     (let token = map js_lower (js_trim v)
      in if token = ''today'' then Some ''today''
         else if token \<noteq> [] \<and> last token = CHR ''d'' \<and> butlast token \<noteq> [] \<and> list_all is_digit (butlast token) then
           (let days = digits_value (butlast token)
            in if days = 7 then Some ''last7'' else if days = 30 then Some ''last30'' else if days = 1 then Some ''today''
               else Some (''since:'' @ iso_date (now - int days * DAY_MS)))
         else if date_shaped token \<and> date token \<noteq> None then Some (''since:'' @ token)
         else None)"

definition dashed :: "jstr \<Rightarrow> jstr" where
  "dashed s = map (\<lambda>c. if c = CHR '' '' then CHR ''-'' else c) s"

definition wanted_type :: "jstr \<Rightarrow> jstr option" where
  "wanted_type v =
     (let wanted = map js_lower v
      in map_option fst (List.find (\<lambda>t. fst t = wanted \<or> map js_lower (snd t) = wanted \<or> dashed (map js_lower (snd t)) = wanted) CONTENT_TYPES))"

definition read_token ::
  "(jstr \<Rightarrow> int option) \<Rightarrow> (int \<Rightarrow> jstr) \<Rightarrow> int \<Rightarrow> query \<Rightarrow> bool \<times> jstr \<Rightarrow> query" where
  "read_token date iso_date now q qt =
     (let (quoted, token) = qt; as_term = q\<lparr>quTerms := quTerms q @ [map js_lower token]\<rparr>
      in case (if quoted then None else filter_prefix token) of
           None \<Rightarrow> as_term
         | Some (n, v) \<Rightarrow>
             if n = ''type'' then (case wanted_type v of Some t \<Rightarrow> q\<lparr>quTypes := quTypes q @ [t]\<rparr> | None \<Rightarrow> as_term)
             else if n = ''by'' then q\<lparr>quAuthors := quAuthors q @ [map js_lower v]\<rparr>
             else (case parse_after date iso_date v now of Some a \<Rightarrow> q\<lparr>quAfter := Some a\<rparr> | None \<Rightarrow> as_term))"

definition parse_query :: "(jstr \<Rightarrow> int option) \<Rightarrow> (int \<Rightarrow> jstr) \<Rightarrow> jstr \<Rightarrow> int \<Rightarrow> query" where
  "parse_query date iso_date raw now =
     (let q = foldl (read_token date iso_date now)
          \<lparr>quRaw = raw, quTerms = [], quPhrase = [], quTypes = [], quAuthors = [], quAfter = None, quEmpty = True\<rparr> (query_tokens raw)
      in q\<lparr>quPhrase := join '' '' (quTerms q), quEmpty := quTerms q = []\<rparr>)"

definition query_key :: "query \<Rightarrow> jstr" where
  "query_key q = join [NUL] (quTerms q)"

section \<open>Where a line matches\<close>

text \<open>A range is its start and its length.\<close>

type_synonym span = "nat \<times> nat"

definition by_range :: "span \<Rightarrow> span \<Rightarrow> int" where
  "by_range a b = (let d = int (fst a) - int (fst b) in if d \<noteq> 0 then d else int (snd a) - int (snd b))"

definition merge_step :: "span list \<Rightarrow> span \<Rightarrow> span list" where
  "merge_step out r =
     (if out \<noteq> [] \<and> fst r \<le> fst (last out) + snd (last out)
      then butlast out @ [(fst (last out), max (snd (last out)) (fst r + snd r - fst (last out)))]
      else out @ [r])"

definition merge_ranges :: "span list \<Rightarrow> span list" where
  "merge_ranges rs = foldl merge_step [] (js_sort by_range rs)"

lemma starts_with_length: "starts_with s p \<Longrightarrow> length p \<le> length s"
  by (auto simp: starts_with_iff)

lemma index_of_at:
  assumes "t \<noteq> []" "index_of body t i = Some at"
  shows "i \<le> at" "at + length t \<le> length body" "starts_with (drop at body) t"
    "\<And>j. i \<le> j \<Longrightarrow> j < at \<Longrightarrow> \<not> starts_with (drop j body) t"
proof -
  have i: "i \<le> length body"
    using assms by (cases "i \<le> length body") (auto simp: index_of_def)
  obtain ps where pl: "places t i (drop i body) = at # ps"
    using assms(2) index_of_places [OF assms(1) i] by (auto simp: first_of_def split: list.splits)
  have f: "places t i (drop i body) = filter (\<lambda>p. starts_with (drop p body) t) [i..<length body]"
    using i by (auto simp: places_filter intro: filter_cong)
  have "at \<in> set (filter (\<lambda>p. starts_with (drop p body) t) [i..<length body])"
    using pl f by (metis list.set_intros(1))
  then show at: "i \<le> at" "starts_with (drop at body) t" and "at + length t \<le> length body"
    using starts_with_length [of "drop at body" t] by auto
  have "sorted (at # ps)"
    using pl f by (metis sorted_wrt_filter sorted_upt)
  then have least: "at \<le> p" if "p \<in> set (places t i (drop i body))" for p
    using that pl by auto
  show "\<not> starts_with (drop j body) t" if "i \<le> j" "j < at" for j
  proof
    assume "starts_with (drop j body) t"
    then have "j \<in> set (places t i (drop i body))"
      using that \<open>at + length t \<le> length body\<close> by (simp add: f)
    with least that(2) show False by fastforce
  qed
qed

text \<open>
  The occurrences of one term, each looked for after the end of the one before; the code skips
  the empty term before it gets here.
\<close>

function term_spans :: "jstr \<Rightarrow> jstr \<Rightarrow> nat \<Rightarrow> span list" where
  "term_spans low t lo =
     (if t = [] then []
      else case index_of low t lo of
          None \<Rightarrow> []
        | Some at \<Rightarrow> (at, length t) # term_spans low t (at + max 1 (length t)))"
  by pat_completeness auto
termination
proof (relation "measure (\<lambda>(low, t, lo). length low - lo)")
  fix low t :: jstr and lo at :: nat
  assume "t \<noteq> []" "index_of low t lo = Some at"
  from index_of_at(1,2) [OF this] \<open>t \<noteq> []\<close> show "((low, t, at + max 1 (length t)), low, t, lo) \<in> measure (\<lambda>(low, t, lo). length low - lo)"
    by (cases t) auto
qed simp

declare term_spans.simps [simp del]

fun spans_of :: "jstr \<Rightarrow> jstr list \<Rightarrow> span list option" where
  "spans_of low [] = Some []"
| "spans_of low (t # ts) =
     (if t = [] then spans_of low ts
      else if term_spans low t 0 = [] then None
      else map_option (\<lambda>r. term_spans low t 0 @ r) (spans_of low ts))"

definition all_terms_in :: "jstr \<Rightarrow> jstr list \<Rightarrow> span list option" where
  "all_terms_in body terms =
     (if terms = [] then None
      else case spans_of (map js_lower body) terms of
          None \<Rightarrow> None
        | Some [] \<Rightarrow> None
        | Some rs \<Rightarrow> Some (merge_ranges rs))"

section \<open>The snippet\<close>

definition trim_end :: "jstr \<Rightarrow> jstr" where
  "trim_end s = rev (dropWhile is_space (rev s))"

definition extract_snippet :: "jstr \<Rightarrow> jstr \<Rightarrow> span list \<Rightarrow> nat \<Rightarrow> jstr \<times> span list" where
  "extract_snippet ell line ranges most =
     (let lead = length (takeWhile is_space line);
          body = trim_end (drop lead line);
          shifted = map (\<lambda>r. (fst r - lead, snd r))
            (filter (\<lambda>r. lead \<le> fst r \<and> fst r - lead + snd r \<le> length body) ranges)
      in if length body \<le> most then (body, shifted)
         else
           let fst_at = (case shifted of r # _ \<Rightarrow> fst r | [] \<Rightarrow> 0);
               start0 = fst_at - nat (round_div (int most) 3);
               stop = min (length body) (start0 + most);
               start = (if stop - start0 < most then stop - most else start0);
               head = (if 0 < start then ell else []);
               tail = (if stop < length body then ell else [])
           in (head @ js_slice body start stop @ tail,
               map (\<lambda>r. (fst r + length head - start, snd r))
                 (filter (\<lambda>r. start \<le> fst r \<and> fst r + snd r \<le> stop) shifted)))"

section \<open>Lines\<close>

text \<open>\<open>/^\s{0,3}(#{1,6})\s+(.*?)\s*#*\s*$/\<close>: the text of a heading, without the marks that close it.\<close>

definition closing :: "jstr \<Rightarrow> bool" where
  "closing s = list_all is_space (dropWhile (\<lambda>c. c = CHR ''#'') (dropWhile is_space s))"

fun upto_closing :: "jstr \<Rightarrow> jstr" where
  "upto_closing [] = []"
| "upto_closing (c # r) = (if closing (c # r) then [] else c # upto_closing r)"

definition heading_text :: "jstr \<Rightarrow> jstr option" where
  "heading_text line =
     (let lead = takeWhile is_space line; rest = drop (length lead) line;
          marks = takeWhile (\<lambda>c. c = CHR ''#'') rest; after = drop (length marks) rest;
          t = upto_closing (dropWhile is_space after)
      in if length lead \<le> 3 \<and> marks \<noteq> [] \<and> length marks \<le> 6 \<and> after \<noteq> [] \<and> is_space (hd after) \<and> CR \<notin> set t \<and> LF \<notin> set t
         then Some t else None)"

definition is_checklist_line :: "jstr \<Rightarrow> bool" where
  "is_checklist_line line =
     (case dropWhile is_space line of
        m # r \<Rightarrow> m \<in> set ''-*+'' \<and> r \<noteq> [] \<and> is_space (hd r) \<and>
          (case dropWhile is_space r of
             a # b # c # d # _ \<Rightarrow> a = CHR ''['' \<and> b \<in> set '' xX'' \<and> c = CHR '']'' \<and> is_space d
           | _ \<Rightarrow> False)
      | [] \<Rightarrow> False)"

record line_hit =
  lhKind :: jstr
  lhLine :: nat
  lhSection :: jstr
  lhText :: jstr
  lhOffsets :: "span list"

fun match_from :: "jstr \<Rightarrow> jstr list \<Rightarrow> nat \<Rightarrow> nat \<Rightarrow> jstr list \<Rightarrow> nat \<Rightarrow> jstr \<Rightarrow> line_hit list \<Rightarrow> line_hit list \<times> bool" where
  "match_from ell terms limit most [] i sec hits = (hits, False)"
| "match_from ell terms limit most (raw # ls) i sec hits =
     (let sec' = (case heading_text raw of Some h \<Rightarrow> h | None \<Rightarrow> sec)
      in case all_terms_in raw terms of
           None \<Rightarrow> match_from ell terms limit most ls (i + 1) sec' hits
         | Some ranges \<Rightarrow>
             if limit \<le> length hits then (hits, True)
             else
               let snippet = extract_snippet ell raw ranges most
               in match_from ell terms limit most ls (i + 1) sec'
                    (hits @ [\<lparr>lhKind = (if is_checklist_line raw then ''checklist'' else ''document''), lhLine = i + 1,
                       lhSection = sec', lhText = fst snippet, lhOffsets = snd snippet\<rparr>]))"

definition match_lines :: "jstr \<Rightarrow> jstr \<Rightarrow> query \<Rightarrow> nat option \<Rightarrow> nat \<Rightarrow> line_hit list \<times> bool \<times> nat" where
  "match_lines ell body q maxHits snippetMax =
     (let terms = quTerms q; limit = (case maxHits of None \<Rightarrow> MAX_HITS_PER_FILE | Some n \<Rightarrow> n);
          most = (if snippetMax \<noteq> 0 then snippetMax else SNIPPET_MAX); ls = split_on LF (unify_crlf body)
      in if terms = [] then ([], False, length ls)
         else let (hits, truncated) = match_from ell terms limit most ls 0 [] [] in (hits, truncated, length ls))"

definition match_snippet :: "jstr \<Rightarrow> jstr \<Rightarrow> query \<Rightarrow> nat \<Rightarrow> (jstr \<times> span list) option" where
  "match_snippet ell body q snippetMax =
     (case fst (match_lines ell body q (Some 1) snippetMax) of
        h # _ \<Rightarrow> Some (lhText h, lhOffsets h)
      | [] \<Rightarrow> None)"

section \<open>Dates\<close>

text \<open>The calendar of the browser says whether two instants are on one day.\<close>

definition date_buckets :: "(int \<Rightarrow> int \<Rightarrow> bool) \<Rightarrow> int option \<Rightarrow> int \<Rightarrow> jstr list" where
  "date_buckets same_day at now =
     (case at of None \<Rightarrow> []
      | Some t \<Rightarrow> (if same_day t now then [''today''] else []) @ (if now - 7 * DAY_MS \<le> t then [''last7''] else []) @
                 (if now - 30 * DAY_MS \<le> t then [''last30''] else []))"

definition since_value :: "jstr \<Rightarrow> jstr option" where
  "since_value v =
     (let r = drop 6 v in if starts_with v ''since:'' \<and> r \<noteq> [] \<and> CR \<notin> set r \<and> LF \<notin> set r then Some r else None)"

text \<open>A hit; when it changed is read already, None where that is absent or no date.\<close>

record hit =
  htUri :: jstr
  htProject :: jstr
  htProjectName :: jstr
  htPath :: jstr
  htDir :: "jstr option"
  htName :: jstr
  htGlyph :: jstr
  htKind :: jstr
  htAuthor :: jstr
  htChanged :: "int option"
  htLine :: nat
  htSection :: jstr
  htText :: jstr
  htScore :: "int option"

definition matches_changed :: "(jstr \<Rightarrow> int option) \<Rightarrow> (int \<Rightarrow> int \<Rightarrow> bool) \<Rightarrow> hit \<Rightarrow> jstr \<Rightarrow> int \<Rightarrow> bool" where
  "matches_changed date same_day h v now =
     (case since_value v of
        Some d \<Rightarrow> (case (htChanged h, date d) of (Some t, Some f) \<Rightarrow> f \<le> t | _ \<Rightarrow> False)
      | None \<Rightarrow> v \<in> set (date_buckets same_day (htChanged h) now))"

section \<open>Filters and facets\<close>

text \<open>The ticked values of each key; none is the same as no filter.\<close>

type_synonym filters = "jstr \<Rightarrow> jstr list"

definition facet_values :: "(int \<Rightarrow> int \<Rightarrow> bool) \<Rightarrow> hit \<Rightarrow> jstr \<Rightarrow> int \<Rightarrow> jstr list" where
  "facet_values same_day h key now =
     (if key = ''project'' then (if htProject h \<noteq> [] then [htProject h] else [])
      else if key = ''type'' then (if htKind h \<noteq> [] then [htKind h] else [])
      else if key = ''contributor'' then (if htAuthor h \<noteq> [] then [htAuthor h] else [])
      else if key = ''changed'' then date_buckets same_day (htChanged h) now
      else if key = ''folder'' then (case htDir h of Some d \<Rightarrow> [d] | None \<Rightarrow> [])
      else [])"

definition matches_filter ::
  "(jstr \<Rightarrow> int option) \<Rightarrow> (int \<Rightarrow> int \<Rightarrow> bool) \<Rightarrow> int \<Rightarrow> hit \<Rightarrow> jstr \<Rightarrow> jstr list \<Rightarrow> bool" where
  "matches_filter date same_day now h key vs =
     (vs = [] \<or>
      (if key = ''changed'' then list_ex (\<lambda>v. matches_changed date same_day h v now) vs
       else list_ex (\<lambda>v. v \<in> set vs) (facet_values same_day h key now)))"

definition apply_filters ::
  "(jstr \<Rightarrow> int option) \<Rightarrow> (int \<Rightarrow> int \<Rightarrow> bool) \<Rightarrow> int \<Rightarrow> filters \<Rightarrow> hit list \<Rightarrow> hit list" where
  "apply_filters date same_day now fs hits =
     filter (\<lambda>h. list_all (\<lambda>key. matches_filter date same_day now h key (fs key)) FACET_KEYS) hits"

definition add_count :: "(jstr \<times> nat) list \<Rightarrow> jstr \<Rightarrow> (jstr \<times> nat) list" where
  "add_count m v = AList.update v ((case map_of m v of Some n \<Rightarrow> n | None \<Rightarrow> 0) + 1) m"

definition count_values :: "(hit \<Rightarrow> jstr list) \<Rightarrow> hit list \<Rightarrow> (jstr \<times> nat) list" where
  "count_values vals hits = foldl add_count [] (concat (map vals hits))"

definition facet_counts ::
  "(jstr \<Rightarrow> int option) \<Rightarrow> (int \<Rightarrow> int \<Rightarrow> bool) \<Rightarrow> int \<Rightarrow> hit list \<Rightarrow> jstr \<Rightarrow> filters \<Rightarrow> (jstr \<times> nat) list \<times> hit list" where
  "facet_counts date same_day now hits key fs =
     (let pool = apply_filters date same_day now (fs(key := [])) hits
      in (count_values (\<lambda>h. facet_values same_day h key now) pool, pool))"

record facet =
  fcValue :: jstr
  fcLabel :: jstr
  fcCount :: nat

definition by_count :: "(jstr \<Rightarrow> jstr \<Rightarrow> int) \<Rightarrow> facet \<Rightarrow> facet \<Rightarrow> int" where
  "by_count lc a b = (let d = int (fcCount b) - int (fcCount a) in if d \<noteq> 0 then d else lc (fcLabel a) (fcLabel b))"

definition listed_facets ::
  "(jstr \<Rightarrow> jstr \<Rightarrow> int) \<Rightarrow> (jstr \<Rightarrow> jstr) \<Rightarrow> jstr \<Rightarrow> (jstr \<times> nat) list \<Rightarrow> facet list" where
  "listed_facets lc nm key counts =
     js_sort (by_count lc) (map (\<lambda>vn. \<lparr>fcValue = fst vn,
       fcLabel = (if key = ''folder'' then folder_label (fst vn) else nm (fst vn)), fcCount = snd vn\<rparr>) counts)"

definition count_at :: "(jstr \<times> nat) list \<Rightarrow> jstr \<Rightarrow> nat" where
  "count_at m v = (case map_of m v of Some n \<Rightarrow> n | None \<Rightarrow> 0)"

definition facets_for ::
  "(jstr \<Rightarrow> int option) \<Rightarrow> (int \<Rightarrow> int \<Rightarrow> bool) \<Rightarrow> (jstr \<Rightarrow> jstr \<Rightarrow> int) \<Rightarrow> (jstr \<Rightarrow> jstr) \<Rightarrow> jstr option \<Rightarrow> int \<Rightarrow>
   hit list \<Rightarrow> filters \<Rightarrow> (jstr \<times> facet list) list" where
  "facets_for date same_day lc nm since now hits fs =
     (let counts = (\<lambda>key. fst (facet_counts date same_day now hits key fs));
          pool = snd (facet_counts date same_day now hits ''changed'' fs);
          fixed = (\<lambda>key vl. \<lparr>fcValue = fst vl, fcLabel = snd vl, fcCount = count_at (counts key) (fst vl)\<rparr>)
      in [(''project'', listed_facets lc nm ''project'' (counts ''project'')),
          (''type'', map (fixed ''type'') CONTENT_TYPES),
          (''contributor'', listed_facets lc nm ''contributor'' (counts ''contributor'')),
          (''changed'', map (fixed ''changed'') DATE_BUCKETS @
             (case since of
                Some d \<Rightarrow> if d = [] then [] else
                  [\<lparr>fcValue = ''since:'' @ d, fcLabel = ''Since '' @ d,
                    fcCount = length (filter (\<lambda>h. matches_changed date same_day h (''since:'' @ d) now) pool)\<rparr>]
              | None \<Rightarrow> [])),
          (''folder'', listed_facets lc nm ''folder'' (counts ''folder''))])"

section \<open>Ranking\<close>

definition has_term :: "jstr \<Rightarrow> jstr \<Rightarrow> bool" where
  "has_term body t = (t \<noteq> [] \<and> find_sub t 0 body \<noteq> None)"

definition whole_term :: "jstr \<Rightarrow> jstr \<Rightarrow> bool" where
  "whole_term body t =
     (t \<noteq> [] \<and> list_ex (\<lambda>i. (i = 0 \<or> \<not> is_word_char (body ! (i - 1))) \<and>
        (i + length t = length body \<or> i + length t < length body \<and> \<not> is_word_char (body ! (i + length t)))) (occurrences body t))"

definition kind_score :: "jstr \<Rightarrow> int" where
  "kind_score k = (case map_of [(''document'', 100), (''checklist'', 96), (''comment'', 80), (''change'', 72), (''history'', 56)] k of
     Some n \<Rightarrow> n | None \<Rightarrow> 50)"

definition score_hit :: "(int \<Rightarrow> int) \<Rightarrow> hit \<Rightarrow> query \<Rightarrow> int \<Rightarrow> int" where
  "score_hit recency h q now =
     (let terms = quTerms q; body = map js_lower (htText h); sec = map js_lower (htSection h)
      in kind_score (htKind h) +
         (if list_ex (has_term (map js_lower (htName h))) terms then 40 else 0) +
         (if quPhrase q \<noteq> [] \<and> 1 < length terms \<and> has_term body (quPhrase q) then 25 else 0) +
         (if list_ex (whole_term body) terms then 15 else 0) +
         (if sec \<noteq> [] \<and> list_ex (has_term sec) terms then 10 else 0) +
         (case htChanged h of Some t \<Rightarrow> max 0 (20 - recency (max 0 (now - t))) | None \<Rightarrow> 0))"

definition scored :: "(int \<Rightarrow> int) \<Rightarrow> query \<Rightarrow> int \<Rightarrow> hit \<Rightarrow> hit" where
  "scored recency q now h = h\<lparr>htScore := Some (case htScore h of Some n \<Rightarrow> n | None \<Rightarrow> score_hit recency h q now)\<rparr>"

definition by_rank :: "(jstr \<Rightarrow> jstr \<Rightarrow> int) \<Rightarrow> hit \<Rightarrow> hit \<Rightarrow> int" where
  "by_rank lc a b =
     (let d = the (htScore b) - the (htScore a); p = lc (htPath a) (htPath b); l = int (htLine a) - int (htLine b);
          k = lc (htKind a) (htKind b)
      in if d \<noteq> 0 then d else if p \<noteq> 0 then p else if l \<noteq> 0 then l else if k \<noteq> 0 then k else lc (htText a) (htText b))"

definition rank_hits :: "(jstr \<Rightarrow> jstr \<Rightarrow> int) \<Rightarrow> (int \<Rightarrow> int) \<Rightarrow> query \<Rightarrow> int \<Rightarrow> hit list \<Rightarrow> hit list" where
  "rank_hits lc recency q now hits = js_sort (by_rank lc) (map (scored recency q now) hits)"

record hit_group =
  hgKey :: jstr
  hgHead :: hit
  hgHits :: "hit list"

definition hit_key :: "hit \<Rightarrow> jstr" where
  "hit_key h = (if htUri h \<noteq> [] then htUri h else htProject h @ ''/'' @ htPath h)"

definition add_hit :: "(jstr \<times> hit_group) list \<Rightarrow> hit \<Rightarrow> (jstr \<times> hit_group) list" where
  "add_hit groups h =
     (let g = (case map_of groups (hit_key h) of Some g1 \<Rightarrow> g1 | None \<Rightarrow> \<lparr>hgKey = hit_key h, hgHead = h, hgHits = []\<rparr>)
      in AList.update (hit_key h) (g\<lparr>hgHits := hgHits g @ [h]\<rparr>) groups)"

definition group_by_file :: "hit list \<Rightarrow> hit_group list" where
  "group_by_file hits = map snd (foldl add_hit [] hits)"

section \<open>What the panel says\<close>

definition search_count :: "nat \<Rightarrow> nat \<Rightarrow> jstr" where
  "search_count matches files =
     (if matches = 0 then ''No matches''
      else group_digits matches @ '' '' @ plural_word matches ''match'' (Some ''matches'') @ '' in '' @
        group_digits files @ '' '' @ plural_word files ''file'' None)"

record read_stats =
  rsFiles :: nat
  rsOps :: nat
  rsSkipped :: nat
  rsCapped :: nat

definition search_honesty :: "read_stats \<Rightarrow> jstr" where
  "search_honesty s =
     join (CHR '' '' # CHR 0xB7 # '' '')
       ([''read '' @ group_digits (rsFiles s) @ '' '' @ plural_word (rsFiles s) ''file'' None] @
        (if rsOps s \<noteq> 0 then [group_digits (rsOps s) @ '' comment '' @ plural_word (rsOps s) ''op'' None] else []) @
        (if rsSkipped s \<noteq> 0 then [group_digits (rsSkipped s) @ '' skipped''] else []) @
        (if rsCapped s \<noteq> 0 then [group_digits (rsCapped s) @ '' capped''] else []))"

definition blame_note :: "jstr \<Rightarrow> jstr \<Rightarrow> nat \<Rightarrow> (jstr \<times> nat) option \<Rightarrow> jstr" where
  "blame_note emdash key recovers dominant =
     (let many = plural_word recovers ''match'' (Some ''matches''); n = to_dec recovers @ '' '';
          are = '' '' @ plural_word recovers ''is'' (Some ''are'');
          phrase = (case dominant of
              Some (d, _) \<Rightarrow> if d = [] then ''another content type'' else (case map_of KIND_PHRASE d of Some p \<Rightarrow> p | None \<Rightarrow> d)
            | None \<Rightarrow> ''another content type'')
      in if key = ''type'' then
           (case dominant of
              Some (d, m) \<Rightarrow> if m < recovers then n @ many @ '' come back, mostly '' @ phrase
                            else n @ ''of the '' @ many @ are @ '' '' @ phrase
            | None \<Rightarrow> n @ ''of the '' @ many @ are @ '' '' @ phrase)
         else if key = ''contributor'' then n @ many @ '' have no author '' @ emdash @ '' document text never does''
         else if key = ''changed'' then n @ many @ are @ '' older than this''
         else if key = ''project'' then n @ many @ are @ '' in another project''
         else if key = ''folder'' then n @ many @ are @ '' in another folder''
         else n @ many @ '' come back without this'')"

record drop_row =
  drKey :: jstr
  drValues :: "jstr list"
  drRecovers :: nat
  drDominant :: "(jstr \<times> nat) option"
  drNote :: jstr

definition dominant_of :: "(jstr \<Rightarrow> jstr \<Rightarrow> int) \<Rightarrow> (jstr \<times> nat) list \<Rightarrow> (jstr \<times> nat) option" where
  "dominant_of lc tally =
     (case js_sort (\<lambda>a b. if snd a \<noteq> snd b then int (snd b) - int (snd a) else lc (fst a) (fst b)) tally of
        t # _ \<Rightarrow> Some t | [] \<Rightarrow> None)"

definition drop_row_for ::
  "(jstr \<Rightarrow> int option) \<Rightarrow> (int \<Rightarrow> int \<Rightarrow> bool) \<Rightarrow> (jstr \<Rightarrow> jstr \<Rightarrow> int) \<Rightarrow> jstr \<Rightarrow> int \<Rightarrow> hit list \<Rightarrow> filters \<Rightarrow> jstr \<Rightarrow> drop_row option" where
  "drop_row_for date same_day lc emdash now hits fs key =
     (let recovered = apply_filters date same_day now (fs(key := [])) hits;
          dominant = dominant_of lc (count_values (\<lambda>h. facet_values same_day h key now) recovered)
      in if fs key = [] \<or> recovered = [] then None
         else Some \<lparr>drKey = key, drValues = fs key, drRecovers = length recovered, drDominant = dominant,
                drNote = blame_note emdash key (length recovered) dominant\<rparr>)"

definition by_recovers :: "(jstr \<Rightarrow> jstr \<Rightarrow> int) \<Rightarrow> drop_row \<Rightarrow> drop_row \<Rightarrow> int" where
  "by_recovers lc a b =
     (let d = int (drRecovers b) - int (drRecovers a) in if d \<noteq> 0 then d else lc (FACET_LABEL (drKey a)) (FACET_LABEL (drKey b)))"

definition explain_empty ::
  "(jstr \<Rightarrow> int option) \<Rightarrow> (int \<Rightarrow> int \<Rightarrow> bool) \<Rightarrow> (jstr \<Rightarrow> jstr \<Rightarrow> int) \<Rightarrow> jstr \<Rightarrow> int \<Rightarrow> hit list \<Rightarrow> filters \<Rightarrow> nat \<times> drop_row list \<times> drop_row list" where
  "explain_empty date same_day lc emdash now hits fs =
     (let drops = js_sort (by_recovers lc) (List.map_filter (drop_row_for date same_day lc emdash now hits fs) FACET_KEYS)
      in (length hits, take 2 drops, drops))"


section \<open>What the marks of a line cover\<close>

text \<open>The positions a list of ranges covers: what two lists of marks are compared by.\<close>

definition covered :: "span list \<Rightarrow> nat set" where
  "covered rs = (\<Union>r \<in> set rs. {fst r ..< fst r + snd r})"

lemma covered_simps [js_simps]:
  "covered [] = {}" "covered (r # rs) = {fst r ..< fst r + snd r} \<union> covered rs" "covered (rs @ qs) = covered rs \<union> covered qs"
  by (auto simp: covered_def)

lemma index_of_None:
  "t \<noteq> [] \<Longrightarrow> index_of low t lo = None \<Longrightarrow> lo \<le> j \<Longrightarrow> \<not> starts_with (drop j low) t"
proof (cases "j < length low")
  case True
  assume t: "t \<noteq> []" "index_of low t lo = None" "lo \<le> j"
  then have "places t lo (drop lo low) = []"
    using index_of_places [of t lo low] True by (auto simp: first_of_def split: list.splits)
  then have "filter (\<lambda>p. starts_with (drop (p - lo) (drop lo low)) t) [lo..<lo + length (drop lo low)] = []"
    by (simp only: places_filter)
  then have "\<forall>p \<in> {lo..<length low}. \<not> starts_with (drop (p - lo + lo) low) t"
    using True t by (simp add: filter_empty_conv)
  then show ?thesis
    using True t(3) by (metis atLeastLessThan_iff le_add_diff_inverse2)
next
  case False
  assume "t \<noteq> []"
  with False show ?thesis by (simp add: starts_with_iff)
qed

lemma term_spans_sound:
  "t \<noteq> [] \<Longrightarrow> r \<in> set (term_spans low t lo) \<Longrightarrow>
   snd r = length t \<and> fst r + length t \<le> length low \<and> starts_with (drop (fst r) low) t"
proof (induction low t lo rule: term_spans.induct)
  case (1 low t lo)
  have "index_of low t lo \<noteq> None"
    using 1(2,3) term_spans.simps [of low t lo] by (cases "index_of low t lo") simp_all
  then obtain at where at: "index_of low t lo = Some at"
    by blast
  have u: "term_spans low t lo = (at, length t) # term_spans low t (at + max 1 (length t))"
    using 1(2) at term_spans.simps [of low t lo] by simp
  show ?case
    using 1(3) 1(1) [OF 1(2) at 1(2)] index_of_at [OF 1(2) at] unfolding u by auto
qed

lemma term_spans_cover:
  "t \<noteq> [] \<Longrightarrow> lo \<le> j \<Longrightarrow> starts_with (drop j low) t \<Longrightarrow> j \<in> covered (term_spans low t lo)"
proof (induction low t lo rule: term_spans.induct)
  case (1 low t lo)
  obtain at where at: "index_of low t lo = Some at"
    using index_of_None [OF 1(2) _ 1(3)] 1(4) by (cases "index_of low t lo") auto
  note found = index_of_at [OF 1(2) at]
  have "at \<le> j"
    using found(4) [OF 1(3)] 1(4) by (meson not_le)
  have u: "term_spans low t lo = (at, length t) # term_spans low t (at + max 1 (length t))"
    using 1(2) at term_spans.simps [of low t lo] by simp
  show ?case
  proof (cases "j < at + length t")
    case True
    with \<open>at \<le> j\<close> show ?thesis by (simp add: u covered_simps)
  next
    case False
    then have "at + max 1 (length t) \<le> j"
      using 1(2) by (cases t) auto
    with 1 at show ?thesis by (simp add: u covered_simps)
  qed
qed

lemma term_spans_Nil: "t \<noteq> [] \<Longrightarrow> term_spans low t 0 = [] \<longleftrightarrow> (\<forall>j. \<not> starts_with (drop j low) t)"
  using term_spans_cover [of t 0 _ low] term_spans_sound [of t _ low 0]
  by (metis covered_simps(1) empty_iff le0 list.set_intros(1) neq_Nil_conv)

lemma spans_of_None: "spans_of low ts = None \<longleftrightarrow> (\<exists>t \<in> set ts. t \<noteq> [] \<and> term_spans low t 0 = [])"
  by (induction ts) auto

lemma spans_of_Some:
  "spans_of low ts = Some rs \<Longrightarrow> set rs = (\<Union>t \<in> {t \<in> set ts. t \<noteq> []}. set (term_spans low t 0))"
  by (induction ts arbitrary: rs) (auto split: if_splits)

subsection \<open>Merging\<close>

lemma by_range_then: "by_range = then_by (by_key (\<lambda>r. int (fst r))) (by_key (\<lambda>r. int (snd r)))"
  by (intro ext) (simp add: by_range_def then_by_def by_key_def Let_def)

interpretation range_order: signed_comparator by_range
  unfolding by_range_then by (intro then_by_signed key_cmp.signed_comparator_axioms)

text \<open>Ranges apart from each other, in order, none of them empty.\<close>

definition spaced :: "span list \<Rightarrow> bool" where
  "spaced rs = (sorted_wrt (\<lambda>a b. fst a + snd a < fst b) rs \<and> (\<forall>r \<in> set rs. 0 < snd r))"

lemma merge_step_ok:
  assumes "spaced out" "0 < snd r" "out \<noteq> [] \<Longrightarrow> fst (last out) \<le> fst r"
  shows "spaced (merge_step out r)" "covered (merge_step out r) = covered out \<union> {fst r ..< fst r + snd r}"
    "merge_step out r \<noteq> []" "fst (last (merge_step out r)) \<le> fst r"
proof -
  let ?g = "spaced (merge_step out r) \<and> covered (merge_step out r) = covered out \<union> {fst r ..< fst r + snd r} \<and>
    merge_step out r \<noteq> [] \<and> fst (last (merge_step out r)) \<le> fst r"
  have "?g"
  proof (cases out rule: rev_cases)
    case Nil
    with assms(2) show ?thesis
      by (simp add: merge_step_def spaced_def covered_simps)
  next
    case (snoc b l)
    let ?m = "(fst l, max (snd l) (fst r + snd r - fst l))"
    have le: "fst l \<le> fst r"
      using assms(3) snoc by simp
    show ?thesis
    proof (cases "fst r \<le> fst l + snd l")
      case True
      then have step: "merge_step out r = b @ [?m]"
        using snoc by (simp add: merge_step_def)
      have "{fst l ..< fst l + max (snd l) (fst r + snd r - fst l)} =
          {fst l ..< fst l + snd l} \<union> {fst r ..< fst r + snd r}"
        using True le by auto
      then show ?thesis
        using assms(1) le unfolding step unfolding snoc spaced_def by (simp add: sorted_wrt_append covered_simps less_max_iff_disj Un_ac)
    next
      case False
      then have step: "merge_step out r = out @ [r]"
        using snoc by (simp add: merge_step_def)
      have "\<forall>x \<in> set out. fst x + snd x < fst r"
        using assms(1) False snoc by (auto simp: spaced_def sorted_wrt_append)
      then show ?thesis
        using assms(1,2) unfolding step spaced_def by (simp add: sorted_wrt_append covered_simps Un_ac)
    qed
  qed
  then show "spaced (merge_step out r)" "covered (merge_step out r) = covered out \<union> {fst r ..< fst r + snd r}"
    "merge_step out r \<noteq> []" "fst (last (merge_step out r)) \<le> fst r"
    by simp_all
qed

lemma merge_fold:
  "spaced out \<Longrightarrow> \<forall>r \<in> set rs. 0 < snd r \<Longrightarrow> sorted (map fst rs) \<Longrightarrow>
   (\<And>r. out \<noteq> [] \<Longrightarrow> r \<in> set rs \<Longrightarrow> fst (last out) \<le> fst r) \<Longrightarrow>
   spaced (foldl merge_step out rs) \<and> covered (foldl merge_step out rs) = covered out \<union> covered rs"
proof (induction rs arbitrary: out)
  case (Cons r rs)
  have step: "spaced (merge_step out r)" "covered (merge_step out r) = covered out \<union> {fst r ..< fst r + snd r}"
    "fst (last (merge_step out r)) \<le> fst r"
    using merge_step_ok [of out r] Cons.prems by simp_all
  have far: "fst (last (merge_step out r)) \<le> fst q" if "q \<in> set rs" for q
    using that step(3) Cons.prems(3) by fastforce
  have "spaced (foldl merge_step (merge_step out r) rs) \<and>
      covered (foldl merge_step (merge_step out r) rs) = covered (merge_step out r) \<union> covered rs"
    using Cons.prems(2,3) far by (intro Cons.IH [OF step(1)]) simp_all
  then show ?case
    using step(2) by (simp add: covered_simps Un_ac)
qed (simp add: covered_simps)

lemma merge_ranges_ok:
  assumes "\<forall>r \<in> set rs. 0 < snd r"
  shows "spaced (merge_ranges rs)" "covered (merge_ranges rs) = covered rs"
proof -
  have "sorted_wrt (\<lambda>a b. fst a \<le> fst b) (js_sort by_range rs)"
    using range_order.sorted_sort [of rs]
    by (rule sorted_wrt_mono_rel [rotated]) (auto simp: by_range_def Let_def split: if_splits)
  then have "spaced (foldl merge_step [] (js_sort by_range rs)) \<and>
      covered (foldl merge_step [] (js_sort by_range rs)) = covered [] \<union> covered (js_sort by_range rs)"
    using assms by (intro merge_fold) (auto simp: spaced_def sorted_map)
  then show "spaced (merge_ranges rs)" "covered (merge_ranges rs) = covered rs"
    by (simp_all add: merge_ranges_def covered_def)
qed


lemma merged_marks:
  assumes "spans_of low terms = Some rs"
  defines "ms \<equiv> merge_ranges rs"
  shows "spaced ms" "rs \<noteq> [] \<Longrightarrow> ms \<noteq> []" "r \<in> set ms \<Longrightarrow> fst r + snd r \<le> length low"
    "t \<in> set terms \<Longrightarrow> t \<noteq> [] \<Longrightarrow> starts_with (drop j low) t \<Longrightarrow> \<exists>r \<in> set ms. fst r \<le> j \<and> j < fst r + snd r"
    "r \<in> set ms \<Longrightarrow> fst r \<le> i \<Longrightarrow> i < fst r + snd r \<Longrightarrow>
       \<exists>t \<in> set terms. \<exists>j \<le> i. i < j + length t \<and> starts_with (drop j low) t"
proof -
  note all = spans_of_Some [OF assms(1)]
  have from_term: "\<exists>t \<in> set terms. t \<noteq> [] \<and> snd r = length t \<and> fst r + length t \<le> length low \<and> starts_with (drop (fst r) low) t"
    if "r \<in> set rs" for r
    using that term_spans_sound [of _ r low 0] unfolding all by fastforce
  then have pos: "\<forall>r \<in> set rs. 0 < snd r"
    by fastforce
  note ok = merge_ranges_ok [OF pos, folded ms_def]
  show "spaced ms"
    by (rule ok(1))
  have inside: "\<exists>t \<in> set terms. \<exists>j \<le> i. i < j + length t \<and> j + length t \<le> length low \<and> starts_with (drop j low) t"
    if "i \<in> covered ms" for i
  proof -
    have "i \<in> covered rs"
      using that ok(2) by simp
    then obtain r where "r \<in> set rs" "fst r \<le> i" "i < fst r + snd r"
      by (auto simp: covered_def)
    with from_term [of r] show ?thesis by fastforce
  qed
  show "fst r + snd r \<le> length low" if "r \<in> set ms"
  proof -
    have "fst r + snd r - 1 \<in> covered ms"
      using that ok(1) by (force simp: covered_def spaced_def)
    from inside [OF this] show ?thesis by auto
  qed
  show "\<exists>r \<in> set ms. fst r \<le> j \<and> j < fst r + snd r" if "t \<in> set terms" "t \<noteq> []" "starts_with (drop j low) t"
  proof -
    have "j \<in> covered rs"
      using term_spans_cover [OF that(2) _ that(3), of 0] that(1,2) unfolding covered_def all by auto
    then have "j \<in> covered ms"
      using ok(2) by simp
    then show ?thesis by (auto simp: covered_def)
  qed
  show "\<exists>t \<in> set terms. \<exists>j \<le> i. i < j + length t \<and> starts_with (drop j low) t"
    if "r \<in> set ms" "fst r \<le> i" "i < fst r + snd r"
    using inside [of i] that by (auto simp: covered_def)
  show "ms \<noteq> []" if "rs \<noteq> []"
    using that ok(2) pos by (cases rs) (force simp: covered_def)+
qed

text \<open>
  C18: \<open>allTermsIn\<close> says no match exactly when there is no term to look for or one of the terms is
  nowhere in the line, read without case. Otherwise the marks it gives are in order, apart from
  each other and inside the line; no occurrence of a term, overlapping ones included, begins
  outside the marks, and every marked character is part of an occurrence of a term.
\<close>

theorem terms_marked:
  shows "case all_terms_in body terms of
      None \<Rightarrow> (\<forall>t \<in> set terms. t = []) \<or> (\<exists>t \<in> set terms. t \<noteq> [] \<and> (\<forall>j. \<not> starts_with (drop j (map js_lower body)) t))
    | Some rs \<Rightarrow>
        rs \<noteq> [] \<and> sorted_wrt (\<lambda>a b. fst a + snd a < fst b) rs \<and>
        (\<forall>r \<in> set rs. 0 < snd r \<and> fst r + snd r \<le> length body) \<and>
        (\<forall>t \<in> set terms. t \<noteq> [] \<longrightarrow> (\<exists>j. starts_with (drop j (map js_lower body)) t) \<and>
           (\<forall>j. starts_with (drop j (map js_lower body)) t \<longrightarrow> (\<exists>r \<in> set rs. fst r \<le> j \<and> j < fst r + snd r))) \<and>
        (\<forall>r \<in> set rs. \<forall>i. fst r \<le> i \<and> i < fst r + snd r \<longrightarrow>
           (\<exists>t \<in> set terms. \<exists>j \<le> i. i < j + length t \<and> starts_with (drop j (map js_lower body)) t))"
proof -
  let ?low = "map js_lower body"
  show ?thesis
  proof (cases "spans_of ?low terms")
    case None
    then obtain t where "t \<in> set terms" "t \<noteq> []" "term_spans ?low t 0 = []"
      by (auto simp: spans_of_None)
    moreover from this have "\<forall>j. \<not> starts_with (drop j ?low) t"
      by (simp add: term_spans_Nil)
    ultimately show ?thesis
      using None by (auto simp: all_terms_in_def)
  next
    case (Some rs)
    have found: "term_spans ?low t 0 \<noteq> []" if "t \<in> set terms" "t \<noteq> []" for t
      using Some spans_of_None [of ?low terms] that by auto
    then have some: "\<exists>j. starts_with (drop j ?low) t" if "t \<in> set terms" "t \<noteq> []" for t
      using term_spans_Nil that by blast
    note marks = merged_marks [OF Some]
    show ?thesis
    proof (cases "rs = []")
      case True
      then have "\<forall>t \<in> set terms. t = []"
        using spans_of_Some [OF Some] found
        by (metis (mono_tags, lifting) UN_I empty_iff empty_set mem_Collect_eq neq_Nil_conv list.set_intros(1))
      then show ?thesis
        using Some True by (simp add: all_terms_in_def)
    next
      case False
      then have res: "all_terms_in body terms = Some (merge_ranges rs)"
        using Some by (cases terms; cases rs) (auto simp: all_terms_in_def)
      have ends: "\<forall>r \<in> set (merge_ranges rs). 0 < snd r \<and> fst r + snd r \<le> length body"
        using marks(1,3) by (auto simp: spaced_def)
      show ?thesis
        using marks(1) marks(2) [OF False] marks(4,5) ends some unfolding res spaced_def by simp
    qed
  qed
qed

theorem terms_marked_witness:
  "\<exists>r \<in> set (the (all_terms_in ''A Banana'' [''ana'', ''a b''])). fst r \<le> 5 \<and> 5 < fst r + snd r"
proof -
  have s: "all_terms_in ''A Banana'' [''ana'', ''a b''] = Some [(0, 6)]"
    by code_simp
  show ?thesis
    using terms_marked [where body = "''A Banana''" and terms = "[''ana'', ''a b'']"] unfolding s
    by (simp add: js_lower_def starts_with_def)
qed


section \<open>A snippet marks what the line marks\<close>

lemma trim_end_take: "\<exists>n. trim_end s = take n s"
proof -
  have "rev (rev s) = rev (takeWhile is_space (rev s) @ dropWhile is_space (rev s))"
    by simp
  then have "s = trim_end s @ rev (takeWhile is_space (rev s))"
    unfolding trim_end_def rev_append by simp
  then show ?thesis by (metis append_eq_conv_conj)
qed

lemma js_slice_drop: "k \<le> i \<Longrightarrow> js_slice (drop k s) (i - k) (i + l - k) = js_slice s i (i + l)"
  by (simp add: js_slice_def)

lemma js_slice_of_slice: "i \<le> p \<Longrightarrow> p + l \<le> j \<Longrightarrow> js_slice (js_slice s i j) (p - i) (p - i + l) = js_slice s p (p + l)"
  by (simp add: js_slice_def drop_take min_def)

lemma js_slice_mid:
  "length a \<le> p \<Longrightarrow> p + l \<le> length a + length b \<Longrightarrow> js_slice (a @ b @ c) p (p + l) = js_slice b (p - length a) (p - length a + l)"
  by (simp add: js_slice_def)

lemma snippet_marks:
  assumes "m \<in> set (snd (extract_snippet ell line ranges most))"
  shows "\<exists>r \<in> set ranges. snd m = snd r \<and> fst m + snd m \<le> length (fst (extract_snippet ell line ranges most)) \<and>
    js_slice (fst (extract_snippet ell line ranges most)) (fst m) (fst m + snd m) = js_slice line (fst r) (fst r + snd r)"
proof -
  define lead where "lead = length (takeWhile is_space line)"
  define body where "body = trim_end (drop lead line)"
  define shifted where "shifted = map (\<lambda>r. (fst r - lead, snd r))
    (filter (\<lambda>r. lead \<le> fst r \<and> fst r - lead + snd r \<le> length body) ranges)"
  have moved: "\<exists>r \<in> set ranges. snd q = snd r \<and> fst q + snd q \<le> length body \<and>
      js_slice body (fst q) (fst q + snd q) = js_slice line (fst r) (fst r + snd r)" if "q \<in> set shifted" for q
  proof -
    from that obtain r where r: "r \<in> set ranges" "q = (fst r - lead, snd r)" "lead \<le> fst r" "fst r - lead + snd r \<le> length body"
      unfolding shifted_def set_map set_filter by blast
    obtain n where "body = take n (drop lead line)"
      using trim_end_take [of "drop lead line"] body_def by blast
    with r show ?thesis
      by (intro bexI [of _ r]) (simp_all add: js_slice_take js_slice_drop)
  qed
  show ?thesis
  proof (cases "length body \<le> most")
    case True
    then have "extract_snippet ell line ranges most = (body, shifted)"
      by (simp add: extract_snippet_def Let_def lead_def body_def shifted_def)
    with assms moved [of m] show ?thesis by simp
  next
    case False
    define fst_at where "fst_at = (case shifted of r # _ \<Rightarrow> fst r | [] \<Rightarrow> 0)"
    define start0 where "start0 = fst_at - nat (round_div (int most) 3)"
    define stop where "stop = min (length body) (start0 + most)"
    define start where "start = (if stop - start0 < most then stop - most else start0)"
    define h where "h = (if 0 < start then ell else [])"
    define t where "t = (if stop < length body then ell else [])"
    have cut: "extract_snippet ell line ranges most = (h @ js_slice body start stop @ t,
        map (\<lambda>r. (fst r + length h - start, snd r)) (filter (\<lambda>r. start \<le> fst r \<and> fst r + snd r \<le> stop) shifted))"
      unfolding extract_snippet_def Let_def lead_def [symmetric] body_def [symmetric] shifted_def [symmetric]
        fst_at_def [symmetric] start0_def [symmetric] stop_def [symmetric] start_def [symmetric] h_def [symmetric] t_def [symmetric]
      using False by simp
    have stop: "stop \<le> length body"
      by (simp add: stop_def)
    from assms cut obtain q where q: "q \<in> set shifted" "start \<le> fst q" "fst q + snd q \<le> stop" "m = (fst q + length h - start, snd q)"
      by auto
    have "js_slice (h @ js_slice body start stop @ t) (fst m) (fst m + snd m) = js_slice body (fst q) (fst q + snd q)"
      using q(2,3,4) stop js_slice_of_slice [of start "fst q" "snd q" stop body]
      by (subst js_slice_mid) auto
    moreover have "fst m + snd m \<le> length h + length (js_slice body start stop)"
      using q(2-4) stop by auto
    moreover obtain r where "r \<in> set ranges" "snd q = snd r" "js_slice body (fst q) (fst q + snd q) = js_slice line (fst r) (fst r + snd r)"
      using moved [OF q(1)] by blast
    moreover have "snd m = snd q"
      using q(4) by simp
    ultimately show ?thesis
      unfolding cut fst_conv length_append by (intro bexI [of _ r]) simp_all
  qed
qed


section \<open>Which lines are found\<close>

text \<open>The lines in which every term occurs, and the hit each of them gives: the specification.\<close>

definition wanted_lines :: "jstr list \<Rightarrow> jstr list \<Rightarrow> nat list" where
  "wanted_lines terms ls = filter (\<lambda>k. all_terms_in (ls ! k) terms \<noteq> None) [0..<length ls]"

definition hit_of_line :: "jstr \<Rightarrow> jstr list \<Rightarrow> nat \<Rightarrow> jstr \<Rightarrow> jstr list \<Rightarrow> nat \<Rightarrow> nat \<Rightarrow> line_hit" where
  "hit_of_line ell terms most sec ls i k =
     (let snippet = extract_snippet ell (ls ! k) (the (all_terms_in (ls ! k) terms)) most
      in \<lparr>lhKind = (if is_checklist_line (ls ! k) then ''checklist'' else ''document''), lhLine = i + k + 1,
          lhSection = last (sec # List.map_filter heading_text (take (Suc k) ls)), lhText = fst snippet, lhOffsets = snd snippet\<rparr>)"

lemma wanted_lines_Cons:
  "wanted_lines terms (l # ls) = (if all_terms_in l terms = None then [] else [0]) @ map Suc (wanted_lines terms ls)"
proof -
  have "[0..<length (l # ls)] = 0 # map Suc [0..<length ls]"
    by (simp add: upt_conv_Cons map_Suc_upt del: upt_Suc)
  then show ?thesis
    by (simp add: wanted_lines_def filter_map comp_def del: upt_Suc)
qed

lemma hit_of_line_Cons:
  "hit_of_line ell terms most sec (l # ls) i (Suc k) =
   hit_of_line ell terms most (case heading_text l of Some h \<Rightarrow> h | None \<Rightarrow> sec) ls (i + 1) k"
  by (simp add: hit_of_line_def Let_def List.map_filter_def split: option.splits)

lemma match_from_spec:
  "match_from ell terms limit most ls i sec hits =
     (hits @ map (hit_of_line ell terms most sec ls i) (take (limit - length hits) (wanted_lines terms ls)),
      limit - length hits < length (wanted_lines terms ls))"
proof (induction ell terms limit most ls i sec hits rule: match_from.induct)
  case (1 ell terms limit most i sec hits)
  show ?case by (simp add: wanted_lines_def)
next
  case (2 ell terms limit most raw ls i sec hits)
  let ?sec = "case heading_text raw of Some h \<Rightarrow> h | None \<Rightarrow> sec"
  have tail: "map (hit_of_line ell terms most sec (raw # ls) i) (map Suc ks) = map (hit_of_line ell terms most ?sec ls (i + 1)) ks" for ks
    by (simp add: hit_of_line_Cons)
  show ?case
  proof (cases "all_terms_in raw terms")
    case None
    then show ?thesis
      using 2(1) [OF refl] by (simp add: wanted_lines_Cons take_map tail del: map_map)
  next
    case (Some ranges)
    show ?thesis
    proof (cases "limit \<le> length hits")
      case True
      with Some show ?thesis by (simp add: wanted_lines_Cons)
    next
      case False
      then obtain d where d: "limit = length hits + Suc d"
        by (metis less_imp_Suc_add not_le add_Suc_right)
      have "hit_of_line ell terms most sec (raw # ls) i 0 =
          \<lparr>lhKind = (if is_checklist_line raw then ''checklist'' else ''document''), lhLine = i + 1,
           lhSection = ?sec, lhText = fst (extract_snippet ell raw ranges most), lhOffsets = snd (extract_snippet ell raw ranges most)\<rparr>"
        using Some by (simp add: hit_of_line_def Let_def List.map_filter_def split: option.splits)
      then show ?thesis
        using 2(2) [OF refl Some False refl] Some d by (simp add: wanted_lines_Cons take_map tail Let_def del: map_map)
    qed
  qed
qed

text \<open>
  C17: \<open>matchLines\<close> finds what a reading of every line would find: the hits are, in the order of the
  file and up to the limit, the lines in which all the terms of the query occur, each with its
  number, its kind and the nearest heading at or above it; it says truncated exactly when a line
  was left out, and counts every line. Each mark of a hit shows in the snippet the same text as
  one of the marks of its line.
\<close>

theorem lines_found:
  assumes "quTerms q \<noteq> []"
  shows "let ls = split_on LF (unify_crlf body); (hits, truncated, n) = match_lines ell body q most_hits smax;
      limit = (case most_hits of None \<Rightarrow> 60 | Some m \<Rightarrow> m);
      wanted = filter (\<lambda>k. all_terms_in (ls ! k) (quTerms q) \<noteq> None) [0..<length ls]
    in n = length ls \<and> map lhLine hits = map Suc (take limit wanted) \<and> (truncated \<longleftrightarrow> limit < length wanted) \<and>
       map lhSection hits = map (\<lambda>k. last ([] # List.map_filter heading_text (take (Suc k) ls))) (take limit wanted) \<and>
       map (\<lambda>h. lhKind h = ''checklist'') hits = map (\<lambda>k. is_checklist_line (ls ! k)) (take limit wanted) \<and>
       (\<forall>h \<in> set hits. \<forall>m \<in> set (lhOffsets h). fst m + snd m \<le> length (lhText h) \<and>
          (\<exists>r \<in> set (the (all_terms_in (ls ! (lhLine h - 1)) (quTerms q))). snd m = snd r \<and>
             js_slice (lhText h) (fst m) (fst m + snd m) = js_slice (ls ! (lhLine h - 1)) (fst r) (fst r + snd r)))"
proof -
  define ls where "ls = split_on LF (unify_crlf body)"
  define limit where "limit = (case most_hits of None \<Rightarrow> 60 | Some m \<Rightarrow> m)"
  define most where "most = (if smax \<noteq> 0 then smax else SNIPPET_MAX)"
  let ?w = "take limit (wanted_lines (quTerms q) ls)"
  let ?hit = "hit_of_line ell (quTerms q) most [] ls 0"
  have lim: "(case most_hits of None \<Rightarrow> MAX_HITS_PER_FILE | Some m \<Rightarrow> m) = limit"
    by (simp add: limit_def MAX_HITS_PER_FILE_def split: option.splits)
  have run: "match_lines ell body q most_hits smax = (map ?hit ?w, limit < length (wanted_lines (quTerms q) ls), length ls)"
    using assms unfolding match_lines_def lim ls_def [symmetric] most_def [symmetric] Let_def by (simp add: match_from_spec)
  have line: "map lhLine (map ?hit ?w) = map Suc ?w"
    "map lhSection (map ?hit ?w) = map (\<lambda>k. last ([] # List.map_filter heading_text (take (Suc k) ls))) ?w"
    "map (\<lambda>h. lhKind h = ''checklist'') (map ?hit ?w) = map (\<lambda>k. is_checklist_line (ls ! k)) ?w"
    by (simp_all add: hit_of_line_def Let_def)
  have marks: "fst m + snd m \<le> length (lhText (?hit k)) \<and>
      (\<exists>r \<in> set (the (all_terms_in (ls ! k) (quTerms q))). snd m = snd r \<and>
        js_slice (lhText (?hit k)) (fst m) (fst m + snd m) = js_slice (ls ! k) (fst r) (fst r + snd r))"
    if "m \<in> set (lhOffsets (?hit k))" for k m
    using that snippet_marks [of m ell "ls ! k" "the (all_terms_in (ls ! k) (quTerms q))" most]
    by (auto simp: hit_of_line_def Let_def)
  have at: "lhLine (?hit k) = Suc k" for k
    by (simp add: hit_of_line_def Let_def)
  have all: "\<forall>h \<in> set (map ?hit ?w). \<forall>m \<in> set (lhOffsets h). fst m + snd m \<le> length (lhText h) \<and>
      (\<exists>r \<in> set (the (all_terms_in (ls ! (lhLine h - 1)) (quTerms q))). snd m = snd r \<and>
        js_slice (lhText h) (fst m) (fst m + snd m) = js_slice (ls ! (lhLine h - 1)) (fst r) (fst r + snd r))"
    using marks by (simp add: at)
  show ?thesis
    using line all unfolding run Let_def ls_def [symmetric] limit_def [symmetric] wanted_lines_def [symmetric] case_prod_conv
    by (intro conjI refl)
qed

theorem lines_found_witness:
  "map lhLine (fst (match_lines ''...'' (''# Plan'' @ [LF] @ ''- [ ] ship it'' @ [LF] @ ''shipped'')
     \<lparr>quRaw = [], quTerms = [''ship''], quPhrase = [], quTypes = [], quAuthors = [], quAfter = None, quEmpty = False\<rparr> None 0)) = [2, 3]"
proof -
  let ?q = "\<lparr>quRaw = [], quTerms = [''ship''], quPhrase = [], quTypes = [], quAuthors = [], quAfter = None, quEmpty = False\<rparr>"
  have ls: "split_on LF (unify_crlf (''# Plan'' @ [LF] @ ''- [ ] ship it'' @ [LF] @ ''shipped'')) = [''# Plan'', ''- [ ] ship it'', ''shipped'']"
    by code_simp
  have w: "filter (\<lambda>k. all_terms_in ([''# Plan'', ''- [ ] ship it'', ''shipped''] ! k) [''ship''] \<noteq> None) [0..<length [''# Plan'', ''- [ ] ship it'', ''shipped'']] = [1, 2]"
    by code_simp
  show ?thesis
    using lines_found [where q = ?q and ell = "''...''" and most_hits = None and smax = 0 and
        body = "''# Plan'' @ [LF] @ ''- [ ] ship it'' @ [LF] @ ''shipped''"]
    unfolding ls Let_def query.simps w by (simp split: prod.splits)
qed


section \<open>The count beside a facet\<close>

lemma count_values_of: "count_at (count_values vals hits) v = count_list (concat (map vals hits)) v"
proof -
  have "count_at (foldl add_count m vs) v = count_at m v + count_list vs v" for m vs
    by (induction vs arbitrary: m) (auto simp: count_at_def add_count_def update_conv' split: option.splits)
  from this [of "[]"] show ?thesis
    by (simp add: count_values_def count_at_def)
qed

lemma count_values_keys: "(v, n) \<in> set (count_values vals hits) \<Longrightarrow> n = count_at (count_values vals hits) v"
proof -
  have "distinct (map fst m) \<Longrightarrow> distinct (map fst (foldl add_count m vs))" for m vs
    by (induction vs arbitrary: m) (simp_all add: add_count_def distinct_update)
  from this [of "[]"] show "(v, n) \<in> set (count_values vals hits) \<Longrightarrow> n = count_at (count_values vals hits) v"
    by (simp add: count_values_def count_at_def)
qed

lemma facet_values_distinct: "distinct (facet_values same_day h key now)"
  by (simp add: facet_values_def date_buckets_def split: option.splits)

lemma count_list_distinct: "distinct xs \<Longrightarrow> count_list xs v = (if v \<in> set xs then 1 else 0)"
  by (induction xs) auto

lemma count_list_once:
  assumes "\<And>h. distinct (vals h)"
  shows "count_list (concat (map vals hits)) v = length (filter (\<lambda>h. v \<in> set (vals h)) hits)"
  by (induction hits) (simp_all add: count_list_distinct [OF assms])

text \<open>Ticking one value of a key is what is left of the pool with that key open.\<close>

lemma tick_one:
  assumes "key \<in> set FACET_KEYS"
  shows "apply_filters date same_day now (fs(key := [v])) hits =
    filter (\<lambda>h. matches_filter date same_day now h key [v]) (apply_filters date same_day now (fs(key := [])) hits)"
proof -
  have "matches_filter date same_day now h key []" for h
    by (simp add: matches_filter_def)
  then have "(\<forall>k \<in> set FACET_KEYS. matches_filter date same_day now h k ((fs(key := [v])) k)) \<longleftrightarrow>
      (\<forall>k \<in> set FACET_KEYS. matches_filter date same_day now h k ((fs(key := [])) k)) \<and> matches_filter date same_day now h key [v]" for h
    using assms by auto
  then show ?thesis
    unfolding apply_filters_def list_all_iff filter_filter by (intro filter_cong) auto
qed

lemma tick_value:
  "key \<noteq> ''changed'' \<or> since_value v = None \<Longrightarrow>
   matches_filter date same_day now h key [v] \<longleftrightarrow> v \<in> set (facet_values same_day h key now)"
  by (auto simp: matches_filter_def matches_changed_def facet_values_def list_ex_iff)

lemma count_is_tick:
  assumes "key \<in> set FACET_KEYS" "key \<noteq> ''changed'' \<or> since_value v = None"
  shows "count_at (fst (facet_counts date same_day now hits key fs)) v = length (apply_filters date same_day now (fs(key := [v])) hits)"
  using assms
  by (simp add: facet_counts_def Let_def count_values_of count_list_once facet_values_distinct tick_one tick_value)

lemma no_since: "vl \<in> set DATE_BUCKETS \<Longrightarrow> since_value (fst vl) = None"
  by (auto simp: DATE_BUCKETS_def since_value_def starts_with_def Let_def)

lemma listed_tick:
  assumes "key \<in> set FACET_KEYS" "key \<noteq> ''changed''" "f \<in> set (listed_facets lc nm key (fst (facet_counts date same_day now hits key fs)))"
  shows "fcCount f = length (apply_filters date same_day now (fs(key := [fcValue f])) hits)"
proof -
  obtain v n where v: "(v, n) \<in> set (fst (facet_counts date same_day now hits key fs))" "fcValue f = v" "fcCount f = n"
    using assms(3) by (auto simp: listed_facets_def)
  then have "n = count_at (fst (facet_counts date same_day now hits key fs)) v"
    using count_values_keys by (simp add: facet_counts_def Let_def)
  with v assms show ?thesis
    by (simp add: count_is_tick)
qed

text \<open>
  C32: the number beside every facet is true: it is how many hits the list would hold if that value
  alone were ticked under its heading and every other filter stayed as it is. That is so of
  projects, people and folders, of the content types and the dates, also when they count nothing,
  and of a date typed into the query, when it has no line break in it.
\<close>

theorem facet_counts_true:
  assumes "(key, facets) \<in> set (facets_for date same_day lc nm since now hits fs)" "f \<in> set facets"
    and "\<And>d. since = Some d \<Longrightarrow> CR \<notin> set d \<and> LF \<notin> set d"
  shows "fcCount f = length (apply_filters date same_day now (fs(key := [fcValue f])) hits)"
proof -
  have keys: "''project'' \<in> set FACET_KEYS" "''type'' \<in> set FACET_KEYS" "''contributor'' \<in> set FACET_KEYS"
    "''changed'' \<in> set FACET_KEYS" "''folder'' \<in> set FACET_KEYS"
    by (simp_all add: FACET_KEYS_def)
  let ?pool = "snd (facet_counts date same_day now hits ''changed'' fs)"
  have typed: "length (filter (\<lambda>h. matches_changed date same_day h v now) ?pool) =
      length (apply_filters date same_day now (fs(''changed'' := [v])) hits)" for v
    using keys(4) by (simp add: facet_counts_def Let_def tick_one matches_filter_def)
  from assms(1,2) show ?thesis
    unfolding facets_for_def Let_def
    using keys typed listed_tick [of _ f lc nm] count_is_tick [OF keys(2)] count_is_tick [OF keys(4)] no_since
    by (auto split: option.splits if_splits)
qed


theorem facet_counts_true_witness:
  "fcCount \<lparr>fcValue = ''since:2026-01-02'', fcLabel = ''Since 2026-01-02'', fcCount = 1\<rparr> =
     length (apply_filters (\<lambda>_. Some 5) (\<lambda>a b. a = b) 9 ((\<lambda>_. [])(''changed'' := [''since:2026-01-02'']))
       [\<lparr>htUri = ''u'', htProject = ''p'', htProjectName = ''P'', htPath = ''a.md'', htDir = Some [], htName = ''a.md'', htGlyph = [],
         htKind = ''document'', htAuthor = [], htChanged = Some 7, htLine = 1, htSection = [], htText = ''ship'', htScore = None\<rparr>])"
proof -
  let ?h = "\<lparr>htUri = ''u'', htProject = ''p'', htProjectName = ''P'', htPath = ''a.md'', htDir = Some [], htName = ''a.md'', htGlyph = [],
         htKind = ''document'', htAuthor = [], htChanged = Some 7, htLine = 1, htSection = [], htText = ''ship'', htScore = None\<rparr>"
  let ?f = "\<lparr>fcValue = ''since:2026-01-02'', fcLabel = ''Since 2026-01-02'', fcCount = 1\<rparr>"
  let ?facets = "facets_for (\<lambda>_. Some 5) (\<lambda>a b. a = b) (\<lambda>_ _. 0) (\<lambda>s. s) (Some ''2026-01-02'') 9 [?h] (\<lambda>_. [])"
  have m: "(''changed'', snd (?facets ! 3)) \<in> set ?facets"
    by (simp add: facets_for_def Let_def)
  have f: "?f \<in> set (snd (?facets ! 3))"
    by (simp add: facets_for_def Let_def facet_counts_def apply_filters_def FACET_KEYS_def matches_filter_def matches_changed_def
        since_value_def starts_with_def DATE_BUCKETS_def)
  show ?thesis
    using facet_counts_true [OF m f] by simp
qed

end
