(* ===== verification/Quality_Store.thy ===== *)
theory Quality_Store
  imports Json_Values "HOL-Library.Sublist"
begin

text \<open>
  browser/quality-store.js: the judgments of people on findings, the reader of the reports a
  detector run leaves under .studio/quality, and the matching of a report to a document. What is
  on disk is a tree: a file holds its time and the JSON it parses to, None where it does not
  parse or cannot be read; a directory says whether it can be listed. Paths are lists of names
  below the root of a project. Whether a write goes through, the clock and the author record of
  the reader are arguments. The theorems are that a report is matched only where it is the one
  that shares most of the path, that nothing listed goes unread and uncounted, which run is
  shown, and that the judgments on disk are the last ones made.
\<close>

section \<open>The disk\<close>

datatype dnode = DFile int "json option" | DDir bool "(jstr \<times> dnode) list"

fun node_at :: "dnode \<Rightarrow> jstr list \<Rightarrow> dnode option" where
  "node_at n [] = Some n"
| "node_at (DDir b cs) (p # ps) = (case map_of cs p of None \<Rightarrow> None | Some c \<Rightarrow> node_at c ps)"
| "node_at (DFile m v) (p # ps) = None"

text \<open>A file put at a path: the directories on the way are made; a file on the way is in the way.\<close>

fun free_path :: "dnode \<Rightarrow> jstr list \<Rightarrow> bool" where
  "free_path (DFile m v) ps = (ps = [])"
| "free_path (DDir b cs) [] = False"
| "free_path (DDir b cs) (p # ps) = (case map_of cs p of None \<Rightarrow> True | Some c \<Rightarrow> free_path c ps)"

fun put_node :: "jstr list \<Rightarrow> dnode \<Rightarrow> dnode \<Rightarrow> dnode" where
  "put_node [] f n = f"
| "put_node (p # ps) f (DDir b cs) =
     DDir b (AList.update p (put_node ps f (case map_of cs p of Some c \<Rightarrow> c | None \<Rightarrow> DDir True [])) cs)"
| "put_node (p # ps) f (DFile m v) = DFile m v"

definition QUALITY_DIR :: "jstr list" where "QUALITY_DIR = [''.studio'', ''quality'']"
definition REPORTS_SUBDIR :: jstr where "REPORTS_SUBDIR = ''reports''"
definition reports_path :: "jstr list" where "reports_path = QUALITY_DIR @ [REPORTS_SUBDIR]"
definition judgments_path :: "jstr list" where "judgments_path = QUALITY_DIR @ [''judgments.json'']"
definition state_path :: "jstr list" where "state_path = QUALITY_DIR @ [''state.json'']"
definition runs_path :: "jstr list" where "runs_path = QUALITY_DIR @ [''runs'']"
definition run_path :: "jstr \<Rightarrow> jstr list" where "run_path i = runs_path @ [i]"
definition manifest_path :: "jstr \<Rightarrow> jstr list" where "manifest_path i = run_path i @ [''manifest.json'']"

definition q_read_json :: "dnode \<Rightarrow> jstr list \<Rightarrow> val" where
  "q_read_json t p = (case node_at t p of Some (DFile m (Some v)) \<Rightarrow> Some v | _ \<Rightarrow> None)"

text \<open>None is a write that throws: the file service refuses both the write and the creation.\<close>

definition q_write_json :: "bool \<Rightarrow> int \<Rightarrow> jstr list \<Rightarrow> json \<Rightarrow> dnode \<Rightarrow> dnode option" where
  "q_write_json writes now p v t = (if writes \<and> free_path t p then Some (put_node p (DFile now (Some v)) t) else None)"

section \<open>Matching a report to a document\<close>

definition path_segments :: "jstr \<Rightarrow> jstr list" where
  "path_segments p = filter (\<lambda>s. s \<noteq> []) (split_on CHR ''/'' p)"

definition report_path :: "json \<Rightarrow> jstr option" where
  "report_path r =
     (case get r ''path'' of
        Some (JStr s) \<Rightarrow> Some s
      | _ \<Rightarrow> (case get r ''paths'' of Some (JArr (JStr s # _)) \<Rightarrow> Some s | _ \<Rightarrow> None))"

fun shared_prefix :: "jstr list \<Rightarrow> jstr list \<Rightarrow> nat" where
  "shared_prefix (x # xs) (y # ys) = (if x = y then Suc (shared_prefix xs ys) else 0)"
| "shared_prefix xs ys = 0"

definition suffix_match_length :: "jstr list \<Rightarrow> jstr list \<Rightarrow> nat" where
  "suffix_match_length a b = shared_prefix (rev a) (rev b)"

definition match_step :: "jstr list \<Rightarrow> nat \<times> json list \<Rightarrow> json \<Rightarrow> nat \<times> json list" where
  "match_step target bw report =
     (let (best, winners) = bw
      in case report_path report of
           None \<Rightarrow> bw
         | Some declared \<Rightarrow>
             if declared = [] then bw
             else
               let len = suffix_match_length (path_segments declared) target
               in if len < 1 then bw else if best < len then (len, [report])
                  else if len = best then (best, winners @ [report]) else bw)"

definition match_report :: "json list \<Rightarrow> jstr \<Rightarrow> json option" where
  "match_report reports rel =
     (let target = path_segments rel
      in if target = [] then None
         else case snd (foldl (match_step target) (0, []) reports) of [r] \<Rightarrow> Some r | _ \<Rightarrow> None)"

section \<open>Reading a set of reports\<close>

definition load_manifest :: "dnode \<Rightarrow> jstr \<Rightarrow> val" where
  "load_manifest t i = (case q_read_json t (manifest_path i) of Some (JObj fs) \<Rightarrow> Some (JObj fs) | _ \<Rightarrow> None)"

definition newest_first :: "jstr \<times> val \<Rightarrow> jstr \<times> val \<Rightarrow> int" where
  "newest_first a b = (if fst a < fst b then 1 else if fst a > fst b then -1 else 0)"

text \<open>The children of a directory that is there and can be listed; a file has none.\<close>

definition children_at :: "dnode \<Rightarrow> jstr list \<Rightarrow> (jstr \<times> dnode) list option" where
  "children_at t p =
     (case node_at t p of None \<Rightarrow> None | Some (DFile m v) \<Rightarrow> Some [] | Some (DDir b cs) \<Rightarrow> if b then Some cs else None)"

fun is_folder :: "dnode \<Rightarrow> bool" where
  "is_folder (DDir b cs) = True" | "is_folder (DFile m v) = False"

definition list_runs :: "dnode \<Rightarrow> (jstr \<times> val) list" where
  "list_runs t =
     (case children_at t runs_path of
        None \<Rightarrow> []
      | Some cs \<Rightarrow> js_sort newest_first (map (\<lambda>c. (fst c, load_manifest t (fst c))) (filter (\<lambda>c. is_folder (snd c)) cs)))"

definition is_half_written_run :: "jstr \<times> val \<Rightarrow> bool" where
  "is_half_written_run r = (case snd r of None \<Rightarrow> False | Some m \<Rightarrow> \<not> truthy (get m ''finishedAt''))"

record report_set =
  rpPresent :: bool
  rpRunId :: jstr
  rpSource :: jstr
  rpProducedAt :: val
  rpBloat :: "json list"
  rpPurpose :: "json list"
  rpDocsets :: "json list"
  rpTraces :: "json list"
  rpRead :: nat
  rpSkipped :: nat
  rpManifest :: val

definition bloat_shape :: "json \<Rightarrow> bool" where
  "bloat_shape r = (case get r ''paths'' of Some (JArr (JStr s # _)) \<Rightarrow> True | _ \<Rightarrow> False)"

definition purpose_shape :: "json \<Rightarrow> bool" where
  "purpose_shape r = (case get r ''path'' of Some (JStr s) \<Rightarrow> True | _ \<Rightarrow> False)"

definition docset_shape :: "json \<Rightarrow> bool" where
  "docset_shape r = (case get r ''paths'' of Some (JArr (x # _)) \<Rightarrow> True | _ \<Rightarrow> False)"

definition trace_shape :: "json \<Rightarrow> bool" where
  "trace_shape r = is_array (get r ''verdicts'')"

text \<open>The reports kept, how many were read and skipped, and the newest time seen.\<close>

fun read_report_file :: "(json \<Rightarrow> bool) \<Rightarrow> json list \<times> nat \<times> nat \<times> int \<Rightarrow> jstr \<times> dnode \<Rightarrow> json list \<times> nat \<times> nat \<times> int" where
  "read_report_file shape (kept_in, rd, sk, newest) (name, DDir b cs) = (kept_in, rd, sk + 1, newest)"
| "read_report_file shape (kept_in, rd, sk, newest) (name, DFile m v) =
     (if \<not> ends_with name ''.json'' then (kept_in, rd, sk + 1, newest)
      else case v of
          Some r \<Rightarrow> if truthy v \<and> shape r then (kept_in @ [r], rd + 1, sk, max newest m) else (kept_in, rd, sk + 1, max newest m)
        | None \<Rightarrow> (kept_in, rd, sk + 1, max newest m))"

definition read_report_files :: "(json \<Rightarrow> bool) \<Rightarrow> bool \<Rightarrow> (jstr \<times> dnode) list \<Rightarrow> int \<Rightarrow> json list \<times> nat \<times> nat \<times> int" where
  "read_report_files shape listable cs newest =
     (if listable then foldl (read_report_file shape) ([], 0, 0, newest) cs else ([], 0, 1, newest))"

definition counted :: "nat \<Rightarrow> nat \<Rightarrow> report_set \<Rightarrow> report_set" where
  "counted rd sk r = r\<lparr>rpRead := rpRead r + rd, rpSkipped := rpSkipped r + sk\<rparr>"

fun read_child :: "jstr list \<Rightarrow> report_set \<times> int \<Rightarrow> jstr \<times> dnode \<Rightarrow> report_set \<times> int" where
  "read_child ignore (r, newest) (name, DDir b cs) =
     (if name = ''bloat'' then
        let (xs, rd, sk, n) = read_report_files bloat_shape b cs newest in (counted rd sk (r\<lparr>rpBloat := rpBloat r @ xs\<rparr>), n)
      else if name = ''purpose'' then
        let (xs, rd, sk, n) = read_report_files purpose_shape b cs newest in (counted rd sk (r\<lparr>rpPurpose := rpPurpose r @ xs\<rparr>), n)
      else if name = ''bloat-docset'' then
        let (xs, rd, sk, n) = read_report_files docset_shape b cs newest in (counted rd sk (r\<lparr>rpDocsets := rpDocsets r @ xs\<rparr>), n)
      else (counted 0 1 r, newest))"
| "read_child ignore (r, newest) (name, DFile m v) =
     (if name \<in> set ignore then (r, newest)
      else if starts_with name ''trace-'' \<and> ends_with name ''.json'' then
        (case v of
           Some x \<Rightarrow> if truthy v \<and> trace_shape x then (counted 1 0 (r\<lparr>rpTraces := rpTraces r @ [x]\<rparr>), max newest m)
                     else (counted 0 1 r, max newest m)
         | None \<Rightarrow> (counted 0 1 r, max newest m))
      else (counted 0 1 r, max newest m))"

definition read_report_set :: "(int \<Rightarrow> jstr) \<Rightarrow> dnode \<Rightarrow> jstr list \<Rightarrow> jstr \<Rightarrow> jstr \<Rightarrow> val \<Rightarrow> jstr list \<Rightarrow> report_set" where
  "read_report_set iso_time t p i source manifest ignore =
     (let r0 = \<lparr>rpPresent = False, rpRunId = i, rpSource = source, rpProducedAt = None, rpBloat = [], rpPurpose = [],
          rpDocsets = [], rpTraces = [], rpRead = 0, rpSkipped = 0, rpManifest = manifest\<rparr>
      in case children_at t p of
           None \<Rightarrow> r0
         | Some cs \<Rightarrow>
             let (r, newest) = foldl (read_child ignore) (r0, 0) cs;
                 finished = (case manifest of Some m \<Rightarrow> get m ''finishedAt'' | None \<Rightarrow> None)
             in r\<lparr>rpPresent := True,
                  rpProducedAt := (if truthy finished then finished else if newest \<noteq> 0 then str (iso_time newest) else None)\<rparr>)"

definition load_reports :: "(int \<Rightarrow> jstr) \<Rightarrow> dnode \<Rightarrow> jstr option \<Rightarrow> report_set" where
  "load_reports iso_time t requested =
     (let by_hand = read_report_set iso_time t reports_path REPORTS_SUBDIR ''reports'' None [];
          of_run = (\<lambda>i m. read_report_set iso_time t (run_path i) i ''run'' m [''manifest.json''])
      in if requested = Some REPORTS_SUBDIR then by_hand
         else case requested of
             Some (c # cs) \<Rightarrow> of_run (c # cs) (load_manifest t (c # cs))
           | _ \<Rightarrow> (case List.find (\<lambda>r. \<not> is_half_written_run r) (list_runs t) of
                 Some r \<Rightarrow> of_run (fst r) (snd r)
               | None \<Rightarrow> by_hand))"

definition reports_for_document :: "report_set \<Rightarrow> jstr \<Rightarrow> json option \<times> json option" where
  "reports_for_document r rel = (match_report (rpBloat r) rel, match_report (rpPurpose r) rel)"

section \<open>Judgments and state\<close>

definition REASONS :: "jstr list" where
  "REASONS = [''not-a-duplicate'', ''deliberate'', ''wont-fix'', ''wrong-doc-type'']"

text \<open>An object with the fields that are not undefined, as JSON writes it.\<close>

definition json_object :: "(jstr \<times> val) list \<Rightarrow> json" where
  "json_object fs = JObj (map (\<lambda>f. (fst f, the (snd f))) (filter (\<lambda>f. snd f \<noteq> None) fs))"

definition load_judgments :: "dnode \<Rightarrow> (jstr \<times> json) list" where
  "load_judgments t = (case q_read_json t judgments_path of Some (JObj fs) \<Rightarrow> fs | _ \<Rightarrow> [])"

definition field_of :: "val \<Rightarrow> jstr \<Rightarrow> val" where
  "field_of r k = (case r of Some v \<Rightarrow> get v k | None \<Rightarrow> None)"

datatype judgment_error = No_fingerprint | No_reason | Unknown_reason jstr | Write_failed

definition judgment_of :: "json \<Rightarrow> jstr \<Rightarrow> val \<Rightarrow> json" where
  "judgment_of actor now r =
     (let reason = field_of r ''reason''
      in json_object [(''status'', or_val (field_of r ''status'') (str ''dismissed'')), (''reason'', if truthy reason then reason else None),
           (''note'', or_val (field_of r ''note'') (str [])), (''actor'', Some actor), (''at'', str now)])"

definition save_judgment ::
  "bool \<Rightarrow> int \<Rightarrow> json \<Rightarrow> jstr \<Rightarrow> jstr \<Rightarrow> val \<Rightarrow> dnode \<Rightarrow> dnode \<times> (judgment_error + json)" where
  "save_judgment writes tick actor now fingerprint r t =
     (if fingerprint = [] then (t, Inl No_fingerprint)
      else
        let status = or_val (field_of r ''status'') (str ''dismissed''); reason = field_of r ''reason''
        in if status = str ''dismissed'' \<and> \<not> is_str reason REASONS then (t, Inl No_reason)
           else if reason \<noteq> None \<and> \<not> is_str reason REASONS then (t, Inl (Unknown_reason (key_string reason)))
           else
             let j = judgment_of actor now r; judgments = AList.update fingerprint j (load_judgments t)
             in case q_write_json writes tick judgments_path (JObj judgments) t of
                  None \<Rightarrow> (t, Inl Write_failed)
                | Some t' \<Rightarrow> (t', Inr j))"

definition clear_judgment :: "bool \<Rightarrow> int \<Rightarrow> jstr \<Rightarrow> dnode \<Rightarrow> dnode \<times> bool" where
  "clear_judgment writes tick fingerprint t =
     (let judgments = load_judgments t
      in if map_of judgments fingerprint = None then (t, True)
         else case q_write_json writes tick judgments_path (JObj (AList.delete fingerprint judgments)) t of
             None \<Rightarrow> (t, False) | Some t' \<Rightarrow> (t', True))"

definition object_fields :: "val \<Rightarrow> (jstr \<times> json) list" where
  "object_fields v = (case v of Some (JObj fs) \<Rightarrow> fs | _ \<Rightarrow> [])"

definition load_state :: "dnode \<Rightarrow> (jstr \<times> json) list \<times> (jstr \<times> json) list" where
  "load_state t =
     (let data = q_read_json t state_path
      in (object_fields (field_of data ''overrides''), object_fields (field_of data ''lastRun'')))"

definition write_state :: "bool \<Rightarrow> int \<Rightarrow> (jstr \<times> json) list \<Rightarrow> (jstr \<times> json) list \<Rightarrow> dnode \<Rightarrow> dnode option" where
  "write_state writes tick ovs lasts t =
     q_write_json writes tick state_path (JObj [(''overrides'', JObj ovs), (''lastRun'', JObj lasts)]) t"

definition save_doc_type_override :: "bool \<Rightarrow> int \<Rightarrow> jstr \<Rightarrow> val \<Rightarrow> dnode \<Rightarrow> dnode option" where
  "save_doc_type_override writes tick rel doc_type t =
     (let (ovs, lasts) = load_state t
      in write_state writes tick (AList.update rel (json_object [(''docType'', doc_type)]) ovs) lasts t)"

definition save_last_run :: "bool \<Rightarrow> int \<Rightarrow> jstr \<Rightarrow> val \<Rightarrow> dnode \<Rightarrow> dnode option" where
  "save_last_run writes tick rel fingerprints t =
     (let (ovs, lasts) = load_state t
      in write_state writes tick ovs (AList.update rel (JArr (elements fingerprints)) lasts) t)"

section \<open>The report of a document\<close>

lemma shared_prefix_take: "k \<le> shared_prefix xs ys \<longleftrightarrow> k \<le> length xs \<and> k \<le> length ys \<and> take k xs = take k ys"
proof (induction xs ys arbitrary: k rule: shared_prefix.induct)
  case (1 x xs y ys)
  then show ?case by (cases k) auto
qed auto

lemma suffix_match_ge: "k \<le> suffix_match_length a b \<longleftrightarrow> (\<exists>s. length s = k \<and> suffix s a \<and> suffix s b)"
proof
  assume "k \<le> suffix_match_length a b"
  then have k: "k \<le> length a" "k \<le> length b" "take k (rev a) = take k (rev b)"
    by (auto simp: suffix_match_length_def shared_prefix_take)
  have "suffix (rev (take k (rev a))) a" "suffix (rev (take k (rev b))) b"
    by (simp_all add: suffix_to_prefix take_is_prefix)
  with k show "\<exists>s. length s = k \<and> suffix s a \<and> suffix s b"
    by (intro exI [of _ "rev (take k (rev a))"]) simp
next
  assume "\<exists>s. length s = k \<and> suffix s a \<and> suffix s b"
  then obtain s x y where "length s = k" "a = x @ s" "b = y @ s"
    by (auto simp: suffix_def)
  then show "k \<le> suffix_match_length a b"
    by (simp add: suffix_match_length_def shared_prefix_take)
qed

definition declared_segments :: "json \<Rightarrow> jstr list" where
  "declared_segments r = (case report_path r of Some p \<Rightarrow> path_segments p | None \<Rightarrow> [])"

definition score :: "jstr list \<Rightarrow> json \<Rightarrow> nat" where
  "score target r = suffix_match_length (declared_segments r) target"

lemma match_step_score:
  "match_step target (b, w) r =
     (if score target r < 1 then (b, w) else if b < score target r then (score target r, [r])
      else if score target r = b then (b, w @ [r]) else (b, w))"
  by (auto simp: match_step_def score_def declared_segments_def path_segments_def suffix_match_length_def Let_def split: option.splits)

lemma match_fold:
  "foldl (match_step target) (0, []) rs = (b, w) \<Longrightarrow>
   (\<forall>r \<in> set rs. score target r \<le> b) \<and> w = filter (\<lambda>r. score target r = b \<and> 1 \<le> score target r) rs \<and> (b = 0 \<or> w \<noteq> [])"
proof (induction rs arbitrary: b w rule: rev_induct)
  case (snoc r rs)
  obtain b0 w0 where f: "foldl (match_step target) (0, []) rs = (b0, w0)"
    by force
  note ih = snoc.IH [OF f]
  have none: "filter (\<lambda>q. score target q = score target r \<and> 1 \<le> score target q) rs = []" if "b0 < score target r"
    using ih that by (auto simp: filter_empty_conv)
  show ?case
    using snoc.prems ih none unfolding foldl_append f
    by (auto simp: match_step_score split: if_splits intro: order_trans)
qed simp

lemma filter_single:
  "filter P xs = [r] \<longleftrightarrow> (\<exists>before later. xs = before @ r # later \<and> P r \<and> (\<forall>q \<in> set before \<union> set later. \<not> P q))"
proof
  assume "filter P xs = [r]"
  then obtain us vs where "xs = us @ r # vs" "\<forall>u \<in> set us. \<not> P u" "P r" "filter P vs = []"
    by (auto simp: filter_eq_Cons_iff)
  then show "\<exists>before later. xs = before @ r # later \<and> P r \<and> (\<forall>q \<in> set before \<union> set later. \<not> P q)"
    by (auto simp: filter_empty_conv)
qed (auto simp: filter_empty_conv)

text \<open>The winner is the one of the highest score, when nothing else has that score.\<close>

lemma match_by_score:
  "match_report reports rel = Some r \<longleftrightarrow>
     (\<exists>before later. reports = before @ r # later \<and> 1 \<le> score (path_segments rel) r \<and>
        (\<forall>q \<in> set before \<union> set later. score (path_segments rel) q < score (path_segments rel) r))"
proof -
  let ?t = "path_segments rel"
  obtain b w where f: "foldl (match_step ?t) (0, []) reports = (b, w)"
    by force
  note fold = match_fold [OF f]
  have "?t \<noteq> []" if "1 \<le> score ?t r"
    using that by (auto simp: score_def suffix_match_length_def)
  moreover have "1 \<le> score ?t r" if "w = [r]"
  proof -
    have "r \<in> set (filter (\<lambda>r. score ?t r = b \<and> 1 \<le> score ?t r) reports)"
      using fold that by (metis list.set_intros(1))
    then show ?thesis by simp
  qed
  moreover have "match_report reports rel = (if ?t = [] then None else case w of [r] \<Rightarrow> Some r | _ \<Rightarrow> None)"
    using f by (simp add: match_report_def Let_def)
  then have "match_report reports rel = Some r \<longleftrightarrow> ?t \<noteq> [] \<and> w = [r]"
    by (auto split: list.splits)
  ultimately have "match_report reports rel = Some r \<longleftrightarrow> w = [r]"
    by blast
  also have "\<dots> \<longleftrightarrow> (\<exists>before later. reports = before @ r # later \<and> 1 \<le> score ?t r \<and>
      (\<forall>q \<in> set before \<union> set later. score ?t q < score ?t r))"
    (is "_ \<longleftrightarrow> ?r")
  proof
    assume "w = [r]"
    then have "filter (\<lambda>r. score ?t r = b \<and> 1 \<le> score ?t r) reports = [r]"
      using fold by simp
    then obtain before later where "reports = before @ r # later" "score ?t r = b" "1 \<le> b"
      "\<forall>q \<in> set before \<union> set later. \<not> (score ?t q = b \<and> 1 \<le> score ?t q)"
      unfolding filter_single by blast
    with fold show ?r
      by - (rule exI [of _ before], rule exI [of _ later], auto simp: le_less)
  next
    assume ?r
    then obtain before later where parts: "reports = before @ r # later" "1 \<le> score ?t r"
      "\<forall>q \<in> set before \<union> set later. score ?t q < score ?t r"
      by blast
    then have "score ?t r \<le> b"
      using fold by simp
    with parts(2) have "b \<noteq> 0"
      by simp
    moreover have "\<forall>q \<in> set reports. score ?t q \<le> score ?t r"
      using parts(1,3) by (auto intro: less_imp_le)
    moreover have "b = 0 \<or> (\<exists>q \<in> set reports. score ?t q = b)"
      using fold by (auto simp: filter_empty_conv)
    ultimately have b: "b = score ?t r"
      using \<open>score ?t r \<le> b\<close> by fastforce
    have "filter (\<lambda>r. score ?t r = b \<and> 1 \<le> score ?t r) reports = [r]"
      unfolding filter_single using parts(1,2) less_imp_neq [OF parts(3) [rule_format]] b
      by - (rule exI [of _ before], rule exI [of _ later], simp)
    then show "w = [r]"
      using fold by simp
  qed
  finally show ?thesis .
qed

lemma shared_suffixes:
  "(\<forall>u. suffix u (declared_segments q) \<and> suffix u target \<longrightarrow> length u < k) \<longleftrightarrow> score target q < k"
proof
  assume none: "\<forall>u. suffix u (declared_segments q) \<and> suffix u target \<longrightarrow> length u < k"
  show "score target q < k"
  proof (rule ccontr)
    assume "\<not> score target q < k"
    then obtain u where "length u = k" "suffix u (declared_segments q)" "suffix u target"
      using suffix_match_ge [of k "declared_segments q" target] by (auto simp: score_def)
    with none show False by auto
  qed
next
  assume less: "score target q < k"
  show "\<forall>u. suffix u (declared_segments q) \<and> suffix u target \<longrightarrow> length u < k"
  proof (intro allI impI)
    fix u assume "suffix u (declared_segments q) \<and> suffix u target"
    then have "length u \<le> score target q"
      using suffix_match_ge [of "length u" "declared_segments q" target] by (auto simp: score_def)
    with less show "length u < k" by simp
  qed
qed

text \<open>
  C35: a report is taken for that of a document exactly when it shares a suffix of whole path
  segments, at least one, with the path of the document, and every other report of the list
  shares fewer segments: never on a part of a name, never one of two that fit equally well.
\<close>

theorem report_matched_uniquely:
  "match_report reports rel = Some r \<longleftrightarrow>
     (\<exists>before later s. reports = before @ r # later \<and> s \<noteq> [] \<and>
        suffix s (declared_segments r) \<and> suffix s (path_segments rel) \<and>
        (\<forall>q \<in> set before \<union> set later. \<forall>u. suffix u (declared_segments q) \<and> suffix u (path_segments rel) \<longrightarrow> length u < length s))"
proof
  let ?t = "path_segments rel"
  assume "match_report reports rel = Some r"
  then obtain before later where parts: "reports = before @ r # later" "1 \<le> score ?t r"
    "\<forall>q \<in> set before \<union> set later. score ?t q < score ?t r"
    unfolding match_by_score by blast
  obtain s where s: "length s = score ?t r" "suffix s (declared_segments r)" "suffix s ?t"
    using suffix_match_ge [of "score ?t r" "declared_segments r" ?t] by (auto simp: score_def)
  have "s \<noteq> []"
    using parts(2) s(1) by auto
  then show "\<exists>before later s. reports = before @ r # later \<and> s \<noteq> [] \<and> suffix s (declared_segments r) \<and> suffix s ?t \<and>
      (\<forall>q \<in> set before \<union> set later. \<forall>u. suffix u (declared_segments q) \<and> suffix u ?t \<longrightarrow> length u < length s)"
    unfolding shared_suffixes using parts s by - (rule exI [of _ before], rule exI [of _ later], rule exI [of _ s], simp)
next
  let ?t = "path_segments rel"
  assume "\<exists>before later s. reports = before @ r # later \<and> s \<noteq> [] \<and> suffix s (declared_segments r) \<and> suffix s ?t \<and>
      (\<forall>q \<in> set before \<union> set later. \<forall>u. suffix u (declared_segments q) \<and> suffix u ?t \<longrightarrow> length u < length s)"
  then obtain before later s where parts: "reports = before @ r # later" "s \<noteq> []" "suffix s (declared_segments r)" "suffix s ?t"
    "\<forall>q \<in> set before \<union> set later. score ?t q < length s"
    unfolding shared_suffixes by blast
  have "length s \<le> score ?t r"
    using parts(3,4) suffix_match_ge [of "length s" "declared_segments r" ?t] by (auto simp: score_def)
  moreover from this have "1 \<le> score ?t r"
    using parts(2) by (cases s) auto
  ultimately show "match_report reports rel = Some r"
    unfolding match_by_score
    using parts(1) less_le_trans [OF parts(5) [rule_format]] by - (rule exI [of _ before], rule exI [of _ later], simp)
qed

theorem report_matched_uniquely_witness:
  "match_report [JObj [(''path'', JStr ''x/a/PRD.md'')], JObj [(''path'', JStr ''x/b/PRD.md'')]] ''a/PRD.md'' =
     Some (JObj [(''path'', JStr ''x/a/PRD.md'')])"
proof -
  let ?r = "JObj [(''path'', JStr ''x/a/PRD.md'')]" and ?q = "JObj [(''path'', JStr ''x/b/PRD.md'')]"
  have segs: "declared_segments ?r = [''x'', ''a'', ''PRD.md'']" "declared_segments ?q = [''x'', ''b'', ''PRD.md'']"
    "path_segments ''a/PRD.md'' = [''a'', ''PRD.md'']"
    by code_simp+
  show ?thesis
    unfolding report_matched_uniquely segs
    by - (rule exI [of _ "[]"], rule exI [of _ "[?q]"], rule exI [of _ "[''a'', ''PRD.md'']"], auto simp: segs suffix_Cons)
qed

section \<open>What is read is counted\<close>

text \<open>The reports of one file, of a list of files and of the directories of that name.\<close>

fun good :: "(json \<Rightarrow> bool) \<Rightarrow> jstr \<times> dnode \<Rightarrow> json list" where
  "good shape (name, DFile m (Some v)) = (if ends_with name ''.json'' \<and> truthy (Some v) \<and> shape v then [v] else [])"
| "good shape (name, n) = []"

definition goods :: "(json \<Rightarrow> bool) \<Rightarrow> (jstr \<times> dnode) list \<Rightarrow> json list" where
  "goods shape fs = concat (map (good shape) fs)"

fun in_dir :: "jstr \<Rightarrow> (json \<Rightarrow> bool) \<Rightarrow> jstr \<times> dnode \<Rightarrow> json list" where
  "in_dir d shape (name, DDir b fs) = (if name = d \<and> b then goods shape fs else [])"
| "in_dir d shape (name, DFile m v) = []"

fun trace_in :: "jstr list \<Rightarrow> jstr \<times> dnode \<Rightarrow> json list" where
  "trace_in ignore (name, DFile m v) = (if name \<in> set ignore \<or> \<not> starts_with name ''trace-'' then [] else good trace_shape (name, DFile m v))"
| "trace_in ignore (name, DDir b fs) = []"

text \<open>What the listing shows: every file of a known directory, and one for anything else but what is ignored.\<close>

fun seen :: "jstr list \<Rightarrow> jstr \<times> dnode \<Rightarrow> nat" where
  "seen ignore (name, DDir b fs) = (if name \<in> {''bloat'', ''purpose'', ''bloat-docset''} \<and> b then length fs else 1)"
| "seen ignore (name, DFile m v) = (if name \<in> set ignore then 0 else 1)"

lemma read_file_good:
  "read_report_file shape (xs, rd, sk, n) f = (ys, rd', sk', n') \<Longrightarrow>
   ys = xs @ good shape f \<and> rd' = rd + length (good shape f) \<and> rd' + sk' = rd + sk + 1"
  by (cases "(shape, f)" rule: good.cases) (auto split: if_splits option.splits)

lemma read_files_good:
  "foldl (read_report_file shape) (xs, rd, sk, n) fs = (ys, rd', sk', n') \<Longrightarrow>
   ys = xs @ goods shape fs \<and> rd' = rd + length (goods shape fs) \<and> rd' + sk' = rd + sk + length fs"
proof (induction fs arbitrary: xs rd sk n)
  case (Cons f fs)
  obtain xs1 rd1 sk1 n1 where one: "read_report_file shape (xs, rd, sk, n) f = (xs1, rd1, sk1, n1)"
    by (cases "read_report_file shape (xs, rd, sk, n) f")
  with Cons.prems Cons.IH [of xs1 rd1 sk1 n1] read_file_good [OF one] show ?case
    by (simp add: goods_def)
qed (simp add: goods_def)

lemma read_report_files_good:
  "read_report_files shape b fs n = (xs, rd, sk, n') \<Longrightarrow>
   xs = (if b then goods shape fs else []) \<and> rd = length xs \<and> rd + sk = (if b then length fs else 1)"
  using read_files_good [of shape "[]" 0 0 n fs xs rd sk n'] by (auto simp: read_report_files_def split: if_splits)

definition kept_all :: "report_set \<Rightarrow> nat" where
  "kept_all r = length (rpBloat r) + length (rpPurpose r) + length (rpDocsets r) + length (rpTraces r)"

lemma read_child_step:
  "read_child ignore (r, n) c = (r', n') \<Longrightarrow>
   rpBloat r' = rpBloat r @ in_dir ''bloat'' bloat_shape c \<and> rpPurpose r' = rpPurpose r @ in_dir ''purpose'' purpose_shape c \<and>
   rpDocsets r' = rpDocsets r @ in_dir ''bloat-docset'' docset_shape c \<and> rpTraces r' = rpTraces r @ trace_in ignore c \<and>
   (rpRead r = kept_all r \<longrightarrow> rpRead r' = kept_all r') \<and> rpRead r' + rpSkipped r' = rpRead r + rpSkipped r + seen ignore c \<and>
   rpRunId r' = rpRunId r \<and> rpSource r' = rpSource r \<and> rpManifest r' = rpManifest r"
proof -
  assume step: "read_child ignore (r, n) c = (r', n')"
  obtain name nd where c: "c = (name, nd)" by force
  show ?thesis
  proof (cases nd)
    case (DFile m v)
    with step c show ?thesis
      by (cases v) (auto simp: counted_def kept_all_def split: if_splits)
  next
    case (DDir b fs)
    show ?thesis
    proof -
      obtain xs rd sk m where b: "read_report_files bloat_shape b fs n = (xs, rd, sk, m)"
        by (cases "read_report_files bloat_shape b fs n")
      obtain xs' rd' sk' m' where p: "read_report_files purpose_shape b fs n = (xs', rd', sk', m')"
        by (cases "read_report_files purpose_shape b fs n")
      obtain xs'' rd'' sk'' m'' where d: "read_report_files docset_shape b fs n = (xs'', rd'', sk'', m'')"
        by (cases "read_report_files docset_shape b fs n")
      note good = read_report_files_good [OF b] read_report_files_good [OF p] read_report_files_good [OF d]
      consider "name = ''bloat''" | "name = ''purpose''" | "name = ''bloat-docset''"
        | "name \<notin> {''bloat'', ''purpose'', ''bloat-docset''}"
        by auto
      then show ?thesis
        using step good unfolding c DDir by cases (auto simp: b p d counted_def kept_all_def)
    qed
  qed
qed

lemma read_children:
  "foldl (read_child ignore) (r, n) cs = (r', n') \<Longrightarrow> rpRead r = kept_all r \<Longrightarrow>
   rpBloat r' = rpBloat r @ concat (map (in_dir ''bloat'' bloat_shape) cs) \<and>
   rpPurpose r' = rpPurpose r @ concat (map (in_dir ''purpose'' purpose_shape) cs) \<and>
   rpDocsets r' = rpDocsets r @ concat (map (in_dir ''bloat-docset'' docset_shape) cs) \<and>
   rpTraces r' = rpTraces r @ concat (map (trace_in ignore) cs) \<and>
   rpRead r' = kept_all r' \<and> rpRead r' + rpSkipped r' = rpRead r + rpSkipped r + sum_list (map (seen ignore) cs) \<and>
   rpRunId r' = rpRunId r \<and> rpSource r' = rpSource r \<and> rpManifest r' = rpManifest r"
proof (induction cs arbitrary: r n)
  case (Cons c cs)
  obtain r1 n1 where one: "read_child ignore (r, n) c = (r1, n1)"
    by force
  with Cons.prems Cons.IH [of r1 n1] read_child_step [OF one] show ?case
    by simp
qed simp

lemma read_set:
  "rpRunId (read_report_set iso_time t p i source m ignore) = i \<and> rpSource (read_report_set iso_time t p i source m ignore) = source \<and>
   (case children_at t p of
      None \<Rightarrow> \<not> rpPresent (read_report_set iso_time t p i source m ignore) \<and> rpRead (read_report_set iso_time t p i source m ignore) = 0
    | Some cs \<Rightarrow>
        let r = read_report_set iso_time t p i source m ignore
        in rpPresent r \<and> rpBloat r = concat (map (in_dir ''bloat'' bloat_shape) cs) \<and>
           rpPurpose r = concat (map (in_dir ''purpose'' purpose_shape) cs) \<and>
           rpDocsets r = concat (map (in_dir ''bloat-docset'' docset_shape) cs) \<and> rpTraces r = concat (map (trace_in ignore) cs) \<and>
           rpRead r = kept_all r \<and> rpRead r + rpSkipped r = sum_list (map (seen ignore) cs))"
proof (cases "children_at t p")
  case None
  then show ?thesis by (simp add: read_report_set_def Let_def)
next
  case (Some cs)
  let ?r0 = "\<lparr>rpPresent = False, rpRunId = i, rpSource = source, rpProducedAt = None, rpBloat = [], rpPurpose = [],
    rpDocsets = [], rpTraces = [], rpRead = 0, rpSkipped = 0, rpManifest = m\<rparr>"
  obtain r n where f: "foldl (read_child ignore) (?r0, 0) cs = (r, n)"
    by force
  have k: "rpBloat r = concat (map (in_dir ''bloat'' bloat_shape) cs)" "rpPurpose r = concat (map (in_dir ''purpose'' purpose_shape) cs)"
    "rpDocsets r = concat (map (in_dir ''bloat-docset'' docset_shape) cs)" "rpTraces r = concat (map (trace_in ignore) cs)"
    "rpRead r = kept_all r" "rpRunId r = i" "rpSource r = source"
    using read_children [OF f] by (simp_all add: kept_all_def)
  have sum: "rpRead r + rpSkipped r = sum_list (map (seen ignore) cs)"
  proof -
    have "rpRead ?r0 = kept_all ?r0"
      by (simp add: kept_all_def)
    from read_children [OF f this, THEN conjunct2, THEN conjunct2, THEN conjunct2, THEN conjunct2, THEN conjunct2, THEN conjunct1]
    show ?thesis by simp
  qed
  obtain at where "read_report_set iso_time t p i source m ignore = r\<lparr>rpPresent := True, rpProducedAt := at\<rparr>"
    using f Some by (simp add: read_report_set_def Let_def)
  then show ?thesis
    using k sum Some by (simp add: kept_all_def Let_def)
qed

text \<open>
  C2: "nothing found" and "stopped reading" never look alike. A set of reports holds exactly the
  well-shaped reports of the files listed, in their order, counts as read what it holds, and
  counts every other file or folder it saw as skipped; the manifest of a run alone is neither.
\<close>

theorem nothing_unseen:
  shows "let r = load_reports iso_time t requested;
      run = (rpSource r = ''run''); ignore = (if run then [''manifest.json''] else [])
    in case children_at t (if run then run_path (rpRunId r) else reports_path) of
         None \<Rightarrow> \<not> rpPresent r \<and> rpRead r = 0
       | Some cs \<Rightarrow> rpPresent r \<and> rpBloat r = concat (map (in_dir ''bloat'' bloat_shape) cs) \<and>
           rpPurpose r = concat (map (in_dir ''purpose'' purpose_shape) cs) \<and>
           rpDocsets r = concat (map (in_dir ''bloat-docset'' docset_shape) cs) \<and>
           rpTraces r = concat (map (trace_in ignore) cs) \<and>
           rpRead r = length (rpBloat r) + length (rpPurpose r) + length (rpDocsets r) + length (rpTraces r) \<and>
           rpRead r + rpSkipped r = sum_list (map (seen ignore) cs)"
proof -
  have "\<exists>i m. load_reports iso_time t requested = read_report_set iso_time t (run_path i) i ''run'' m [''manifest.json''] \<or>
      load_reports iso_time t requested = read_report_set iso_time t reports_path REPORTS_SUBDIR ''reports'' None []"
    by (auto simp: load_reports_def Let_def split: option.splits list.splits)
  then obtain i m where "load_reports iso_time t requested = read_report_set iso_time t (run_path i) i ''run'' m [''manifest.json''] \<or>
      load_reports iso_time t requested = read_report_set iso_time t reports_path REPORTS_SUBDIR ''reports'' None []"
    by blast
  then show ?thesis
  proof
    assume e: "load_reports iso_time t requested = read_report_set iso_time t (run_path i) i ''run'' m [''manifest.json'']"
    show ?thesis
      using read_set [of iso_time t "run_path i" i "''run''" m "[''manifest.json'']"] unfolding e Let_def kept_all_def by simp
  next
    assume e: "load_reports iso_time t requested = read_report_set iso_time t reports_path REPORTS_SUBDIR ''reports'' None []"
    show ?thesis
      using read_set [of iso_time t reports_path REPORTS_SUBDIR "''reports''" None "[]"] unfolding e Let_def kept_all_def by simp
  qed
qed

section \<open>Which run is shown\<close>

lemma newest_first_le: "newest_first a b \<le> 0 \<longleftrightarrow> fst b \<le> fst a"
  by (auto simp: newest_first_def)

interpretation newest_order: comparator newest_first
  by unfold_locales (auto simp: newest_first_le)

lemma find_sorted_Max:
  "sorted_wrt (\<lambda>x y. newest_first x y \<le> 0) rs \<Longrightarrow> List.find P rs = Some r \<Longrightarrow> fst r = Max (fst ` {r \<in> set rs. P r})"
proof (induction rs)
  case (Cons x rs)
  show ?case
  proof (cases "P x")
    case True
    then have r: "r = x" using Cons.prems(2) by simp
    have "\<forall>y \<in> set rs. fst y \<le> fst x"
      using Cons.prems(1) by (simp add: newest_first_le)
    then show ?thesis
      unfolding r using True by (intro Max_eqI [symmetric]) auto
  next
    case False
    then have "{q \<in> set (x # rs). P q} = {q \<in> set rs. P q}"
      by auto
    with False Cons show ?thesis by simp
  qed
qed simp

text \<open>Asked for no run in particular: the newest that is not half written, else what was dropped by hand.\<close>

lemma newest_run_shown:
  "rpRunId (load_reports iso_time t None) =
     (let finished = fst ` {r \<in> set (list_runs t). \<not> is_half_written_run r}
      in if finished = {} then REPORTS_SUBDIR else Max finished)"
proof (cases "List.find (\<lambda>r. \<not> is_half_written_run r) (list_runs t)")
  case None
  then have "{r \<in> set (list_runs t). \<not> is_half_written_run r} = {}"
    by (auto simp: find_None_iff)
  with None show ?thesis
    by (simp add: load_reports_def Let_def read_set)
next
  case (Some r)
  have "sorted_wrt (\<lambda>x y. newest_first x y \<le> 0) (list_runs t)"
    by (auto simp: list_runs_def newest_order.sorted_sort split: option.splits)
  with Some have "fst r = Max (fst ` {r \<in> set (list_runs t). \<not> is_half_written_run r})"
    by (rule find_sorted_Max [rotated])
  moreover have "r \<in> {r \<in> set (list_runs t). \<not> is_half_written_run r}"
    using Some by (auto simp: find_Some_iff)
  then have "{r \<in> set (list_runs t). \<not> is_half_written_run r} \<noteq> {}"
    by blast
  ultimately show ?thesis
    using Some by (auto simp: load_reports_def Let_def read_set)
qed

section \<open>Judgments survive\<close>

lemma node_at_empty: "p \<noteq> [] \<Longrightarrow> node_at (DDir b []) p = None"
  by (cases p) auto

lemma free_path_empty: "p \<noteq> [] \<Longrightarrow> free_path (DDir b []) p"
  by (cases p) auto

lemma put_there:
  "p = [] \<or> free_path t p \<Longrightarrow> node_at (put_node p (DFile m v) t) p = Some (DFile m v) \<and> free_path (put_node p (DFile m v) t) p"
proof (induction p arbitrary: t)
  case (Cons x p)
  then obtain b cs where t: "t = DDir b cs"
    by (cases t) auto
  have "p = [] \<or> free_path (case map_of cs x of Some c \<Rightarrow> c | None \<Rightarrow> DDir True []) p"
    using Cons.prems t free_path_empty by (auto split: option.splits)
  from Cons.IH [OF this] show ?case
    by (simp add: t update_conv')
qed simp

text \<open>A file put elsewhere in a directory leaves the other names of it alone.\<close>

lemma put_elsewhere:
  assumes "x \<noteq> y"
  shows "node_at (put_node (a @ x # xs) f t) (a @ y # r) = node_at t (a @ y # r)"
    "free_path (put_node (a @ x # xs) f t) (a @ y # r) = free_path t (a @ y # r)"
proof (induction a arbitrary: t)
  case Nil
  { case 1 show ?case using assms by (cases t) (simp_all add: update_conv') }
  { case 2 show ?case using assms by (cases t) (simp_all add: update_conv') }
next
  case (Cons z a)
  { case 1 show ?case
    proof (cases t)
      case (DDir b cs)
      then show ?thesis using Cons.IH(1) by (simp add: update_conv' node_at_empty split: option.split)
    qed simp }
  { case 2 show ?case
    proof (cases t)
      case (DDir b cs)
      then show ?thesis using Cons.IH(2) by (simp add: update_conv' free_path_empty split: option.split)
    qed simp }
qed

datatype quality_op =
    Judge bool int json jstr jstr val
  | Unjudge bool int jstr
  | Override_type bool int jstr val
  | Keep_run bool int jstr val

fun run_op :: "dnode \<Rightarrow> quality_op \<Rightarrow> dnode" where
  "run_op t (Judge w tick actor now fp r) = fst (save_judgment w tick actor now fp r t)"
| "run_op t (Unjudge w tick fp) = fst (clear_judgment w tick fp t)"
| "run_op t (Override_type w tick rel v) = (case save_doc_type_override w tick rel v t of Some t' \<Rightarrow> t' | None \<Rightarrow> t)"
| "run_op t (Keep_run w tick rel v) = (case save_last_run w tick rel v t of Some t' \<Rightarrow> t' | None \<Rightarrow> t)"

text \<open>The specification: a judgment counts when it has a key and a reason where it must have one.\<close>

definition acceptable :: "val \<Rightarrow> bool" where
  "acceptable r =
     (case field_of r ''reason'' of
        None \<Rightarrow> or_val (field_of r ''status'') (str ''dismissed'') \<noteq> str ''dismissed''
      | Some v \<Rightarrow> v \<in> JStr ` set REASONS)"

fun judge :: "(jstr \<Rightarrow> json option) \<Rightarrow> quality_op \<Rightarrow> jstr \<Rightarrow> json option" where
  "judge k (Judge w tick actor now fp r) = (if w \<and> fp \<noteq> [] \<and> acceptable r then k(fp \<mapsto> judgment_of actor now r) else k)"
| "judge k (Unjudge w tick fp) = (if w then k(fp := None) else k)"
| "judge k q = k"

lemma acceptable_checks:
  "acceptable r \<longleftrightarrow>
     \<not> (or_val (field_of r ''status'') (str ''dismissed'') = str ''dismissed'' \<and> \<not> is_str (field_of r ''reason'') REASONS) \<and>
     \<not> (field_of r ''reason'' \<noteq> None \<and> \<not> is_str (field_of r ''reason'') REASONS)"
  by (auto simp: acceptable_def is_str_def split: option.splits)

definition untouched :: "dnode \<Rightarrow> dnode \<Rightarrow> bool" where
  "untouched t t' = (\<forall>y r. y \<noteq> ''judgments.json'' \<and> y \<noteq> ''state.json'' \<longrightarrow>
     node_at t' (QUALITY_DIR @ y # r) = node_at t (QUALITY_DIR @ y # r))"

lemma write_judgments:
  fixes n :: int and fs :: "(jstr \<times> json) list" and t :: dnode
  assumes "free_path t judgments_path"
  defines "t' \<equiv> put_node judgments_path (DFile n (Some (JObj fs))) t"
  shows "load_judgments t' = fs" "free_path t' judgments_path" "untouched t t'"
  using assms(1) put_there [of judgments_path t n "Some (JObj fs)"] put_elsewhere(1) [of "''judgments.json''" _ QUALITY_DIR "[]"]
  unfolding t'_def by (auto simp: load_judgments_def q_read_json_def untouched_def judgments_path_def)

lemma write_state_file:
  fixes f t :: dnode
  defines "t' \<equiv> put_node state_path f t"
  shows "load_judgments t' = load_judgments t" "free_path t' judgments_path = free_path t judgments_path" "untouched t t'"
  using put_elsewhere [of "''state.json''" _ QUALITY_DIR "[]" f t]
  unfolding t'_def by (auto simp: load_judgments_def q_read_json_def untouched_def judgments_path_def state_path_def)

lemma run_op_ok:
  assumes "free_path t judgments_path"
  shows "map_of (load_judgments (run_op t q)) = judge (map_of (load_judgments t)) q \<and> free_path (run_op t q) judgments_path \<and>
    untouched t (run_op t q)"
proof (cases q)
  case (Judge w tick actor now fp r)
  show ?thesis
  proof (cases "w \<and> fp \<noteq> [] \<and> acceptable r")
    case True
    then have "run_op t q = put_node judgments_path (DFile tick (Some (JObj (AList.update fp (judgment_of actor now r) (load_judgments t))))) t"
      using assms Judge unfolding acceptable_checks by (auto simp: save_judgment_def Let_def q_write_json_def)
    with True Judge write_judgments [OF assms] show ?thesis
      by (simp add: update_conv')
  next
    case False
    then have "run_op t q = t"
      using Judge unfolding acceptable_checks by (auto simp: save_judgment_def Let_def q_write_json_def)
    with False Judge assms show ?thesis
      by (auto simp: untouched_def)
  qed
next
  case (Unjudge w tick fp)
  show ?thesis
  proof (cases "w \<and> map_of (load_judgments t) fp \<noteq> None")
    case True
    then have "run_op t q = put_node judgments_path (DFile tick (Some (JObj (AList.delete fp (load_judgments t))))) t"
      using assms Unjudge by (auto simp: clear_judgment_def Let_def q_write_json_def)
    with True Unjudge write_judgments [OF assms] show ?thesis
      by (simp add: delete_conv')
  next
    case False
    then have "run_op t q = t"
      using Unjudge by (auto simp: clear_judgment_def Let_def q_write_json_def)
    with False Unjudge assms show ?thesis
      by (auto simp: untouched_def)
  qed
next
  case (Override_type w tick rel v)
  then have "run_op t q = t \<or> (\<exists>f. run_op t q = put_node state_path f t)"
    by (auto simp: save_doc_type_override_def write_state_def q_write_json_def split: prod.split)
  with Override_type assms write_state_file [where t = t] show ?thesis
    by (auto simp: untouched_def)
next
  case (Keep_run w tick rel v)
  then have "run_op t q = t \<or> (\<exists>f. run_op t q = put_node state_path f t)"
    by (auto simp: save_last_run_def write_state_def q_write_json_def split: prod.split)
  with Keep_run assms write_state_file [where t = t] show ?thesis
    by (auto simp: untouched_def)
qed

lemma run_ops_ok:
  "free_path t judgments_path \<Longrightarrow>
   map_of (load_judgments (foldl run_op t qs)) = foldl judge (map_of (load_judgments t)) qs \<and> untouched t (foldl run_op t qs)"
proof (induction qs arbitrary: t)
  case (Cons q qs)
  with run_op_ok [OF Cons.prems, of q] Cons.IH [of "run_op t q"] show ?case
    by (simp add: untouched_def)
qed (simp add: untouched_def)

lemma untouched_reports: "untouched t t' \<Longrightarrow> load_reports iso_time t' requested = load_reports iso_time t requested"
proof -
  assume u: "untouched t t'"
  have at: "node_at t' reports_path = node_at t reports_path" "node_at t' runs_path = node_at t runs_path"
    "node_at t' (run_path i) = node_at t (run_path i)" "node_at t' (manifest_path i) = node_at t (manifest_path i)" for i
  proof -
    have names: "''reports'' \<noteq> ''judgments.json''" "''reports'' \<noteq> ''state.json''" "''runs'' \<noteq> ''judgments.json''" "''runs'' \<noteq> ''state.json''"
      by simp_all
    note keep = u [unfolded untouched_def, rule_format]
    show "node_at t' reports_path = node_at t reports_path" "node_at t' runs_path = node_at t runs_path"
      "node_at t' (run_path i) = node_at t (run_path i)" "node_at t' (manifest_path i) = node_at t (manifest_path i)"
      using keep [of "''reports''" "[]"] keep [of "''runs''" "[]"] keep [of "''runs''" "[i]"] keep [of "''runs''" "[i, ''manifest.json'']"] names
      by (simp_all add: reports_path_def runs_path_def run_path_def manifest_path_def REPORTS_SUBDIR_def)
  qed
  have m: "load_manifest t' i = load_manifest t i" for i
    by (simp add: load_manifest_def q_read_json_def at)
  have c: "children_at t' reports_path = children_at t reports_path" "children_at t' runs_path = children_at t runs_path"
    "children_at t' (run_path i) = children_at t (run_path i)" for i
    by (simp_all only: children_at_def at)
  have r: "list_runs t' = list_runs t"
    by (simp only: list_runs_def c m)
  show ?thesis
    by (simp only: load_reports_def read_report_set_def r c m)
qed

text \<open>
  C34: whatever is judged, cleared and recorded, and whichever writes are refused, the judgments on
  disk are, finding by finding, the last one accepted and not cleared since, exactly as it was
  made; one without a key, or without a reason of the closed list where it needs one, is not
  stored; and the reports shown are what they were, no observation changes.
\<close>

theorem judgments_last_word:
  assumes "free_path t judgments_path"
  shows "map_of (load_judgments (foldl run_op t qs)) = foldl judge (map_of (load_judgments t)) qs \<and>
    load_reports iso_time (foldl run_op t qs) requested = load_reports iso_time t requested"
  using run_ops_ok [OF assms] untouched_reports by blast

theorem judgments_last_word_witness:
  "map_of (load_judgments (foldl run_op (DDir True [])
     [Judge True 1 JNull ''t1'' ''f'' (Some (JObj [(''reason'', JStr ''deliberate'')])),
      Judge True 2 JNull ''t2'' ''f'' (Some (JObj [(''reason'', JStr ''because'')])),
      Judge True 3 JNull ''t3'' ''g'' (Some (JObj [(''status'', JStr ''later'')])), Unjudge True 4 ''g''])) ''f'' =
   Some (JObj [(''status'', JStr ''dismissed''), (''reason'', JStr ''deliberate''), (''note'', JStr []), (''actor'', JNull), (''at'', JStr ''t1'')])"
proof -
  have f: "free_path (DDir True []) judgments_path"
    by (simp add: judgments_path_def QUALITY_DIR_def)
  show ?thesis
    unfolding conjunct1 [OF judgments_last_word [OF f, where iso_time = "\<lambda>_. []" and requested = None]]
    by (simp add: acceptable_def REASONS_def field_of_def or_val_def judgment_of_def json_object_def load_judgments_def q_read_json_def
        judgments_path_def QUALITY_DIR_def)
qed

end
