(* ===== verification/Spec2Isabelle.thy ===== *)
theory Spec2Isabelle
  imports Hunk_Diff Table_Data Collab_Registry Identity Comment_Log Flow_Types Change_Log Md_Rewrap History_Store Session_Lock Flow_Spec Quality_Identity Review_Board Changes_Lifecycle Section_Move Task_List Inbox Quality_Anchor Viewer_Homes Scan_Cache Search_Scan Quality_Store
begin

text \<open>
  The document workspace of Constructor Studio: the hand-written JavaScript of the Theia
  extension under src/theia/product-ext/src. The browser half (browser/*.js) edits Markdown
  documents beside a sidecar directory .studio in which everything said about them is kept:
  comments, proposed changes, suggestions, history, the project flow and judgments on findings.
  The node half (node/*.js) keeps who is in which document and in whose credential home an
  assistant works. No module shares memory with another process: they meet in files, so the
  theorems are about what is folded from files, what is written to them and what is lost when.

  \<^bold>\<open>How the program is modelled.\<close> A function of the code is a function here, with its early
  returns and thrown errors as branches. A string is a list of Latin-1 code units, an array a
  list, a Map or an object with keys an association list in insertion order, an object with
  fields a record, decoded JSON a datatype (\<open>Json_Values\<close>) whose absent fields are None. A
  stateful class is a record passed through its methods; what other tabs, people or processes
  do in between is an arbitrary sequence of operations or an inductive step relation. What is
  not under src/ is an argument of the definitions: the file service of Theia (each operation may
  throw), JSON decoding of a line, the clock, random tokens, \<open>Date.parse\<close>, \<open>localeCompare\<close>, a
  calendar, the few characters beyond Latin-1. Sorting is the stable sort of the language.

  \<^bold>\<open>The theories, in the order they build on each other.\<close>

  \<^item> \<open>Studio_Prelude\<close>: the library of the language the modules call (slice, split, join, sort,
    trim, number to text), with the contract of a comparator as locales \<open>comparator\<close> and
    \<open>signed_comparator\<close> (a sublocale), interpreted for every sort of the modules.
  \<^item> \<open>Seq_Diff\<close>, \<open>Word_Diff\<close>, \<open>Hunk_Diff\<close> (diff.js): the table-driven diff of sequences is a longest
    common subsequence within its cell budget and rebuilds both sides; words and graphemes; hunks
    that fit both documents, and applying any selection of them.
  \<^item> \<open>Table_Data\<close> (table-data.js): delimited text, parsed and written back.
  \<^item> \<open>Collab_Registry\<close> (node/collab-registry.js, common/collab-protocol.js): rosters of documents and
    write claims as a state machine; reachable states keep the invariant and a claim is
    redeemed by exactly the digest claimed.
  \<^item> \<open>Identity\<close> (identity.js): sealed ids, names and their retirement.
  \<^item> \<open>Op_Log\<close>: what the two op logs share, the total order of ops and the locale \<open>sorted_fold\<close> (a
    fold does not depend on the listing of files), interpreted by both logs.
  \<^item> \<open>Comment_Log\<close> (comment-log.js): threads folded from one log per person.
  \<^item> \<open>Flow_Log\<close>, \<open>Flow_Types\<close>, \<open>Flow_Spec\<close> (flow-log.js, flow-spec.js): the validator and the fold of
    the project flow, the types of the folded state, and the questionnaire and gates derived from
    it: no agent's op forces a gate, and the questionnaire ends.
  \<^item> \<open>Change_Log\<close> (change-log.js): suggestions of many authors, found again by content in a
    document that has moved on.
  \<^item> \<open>History_Store\<close> (history-store.js): the capped and coalesced trail of a document.
  \<^item> \<open>Changes_Store\<close>, \<open>Review_Board\<close>, \<open>Changes_Lifecycle\<close> (changes-store.js, changes-lifecycle.js):
    proposals, their index, resolution of a file and of a linked group; the refinement of an
    abstract board of texts and open proposals; what a rename or a deletion does to pending work.
    The locales \<open>sound_files\<close> and \<open>sound_tree\<close> state what a file service promises; both are
    interpreted on a disk of named files, and the properties are stated on that disk.
  \<^item> \<open>Md_Rewrap\<close> (md-rewrap.js): hand-made line breaks put back onto serialised Markdown.
  \<^item> \<open>Session_Lock\<close> (session-lock.js): two tabs on one document, over a lossless broadcast channel
    that may deliver in any order.
  \<^item> \<open>Sha256\<close>, \<open>Quality_Identity\<close> (quality-identity.js): the digest as the code computes it on 32-bit
    words, equal to FIPS 180-4; fingerprints of findings and their reconciliation across runs.
  \<^item> \<open>Quality_Anchor\<close> (quality-anchor.js), \<open>Section_Move\<close> (quality-move.js), \<open>Quality_Store\<close>
    (quality-store.js): where a finding is in an open document; moving a section to where it belongs;
    judgments, reports and which run is shown.
  \<^item> \<open>Task_List\<close> (task-scan.js), \<open>Inbox\<close> (collab-scan.js): the tasks written in documents and the
    ranked inbox of threads.
  \<^item> \<open>Search_Scan\<close>, \<open>Scan_Cache\<close> (search-scan.js): the search of one file, its marks and snippets,
    filters and facets, and the cache of texts and hits.
  \<^item> \<open>Viewer_Homes\<close> (node/viewer-credentials.js, node/viewer-credentials-env.js): one credential home
    for each viewer of a shared session.

  \<^bold>\<open>What the lemmas are for.\<close> Each theory has three groups: what one step of a loop or one operation
  does (often with an accumulator generalised), the invariant that every operation keeps, and the
  properties stated at the end, which are read off the invariant or the loop lemma in a few lines.
  A specification that is not the code (the longest common subsequence, the occurrences of a text,
  the board of a reviewer, the judgments last accepted) is a definition of its own, next to the
  theorem that compares the code with it. A property with a hypothesis is followed by an instance
  of it on concrete input.

  \<^bold>\<open>Bounds and termination.\<close> Every recursive function is total, by structure or a measure, but one:
  the search for a free name under .orphaned is a partial function whose value None is a search that
  does not end, and it is proved to end on every finite disk. The walk over .studio/changes takes a
  fuel for its depth, None where more is needed; a fuel of the length of the longest path on
  the disk is proved to be enough. A chain of links between credential homes is followed for at most 40 steps, as the
  kernel does. The caps of the code (200 entries of history, 60 hits a file, 24 MB of cached text,
  the cell budget of the diff, the time to live of a claim, the maximum of the inbox) are
  constants of the model or arguments, and several properties are about what happens at the cap.
  Words are 32 bits wide in Sha256, the digest of collab-protocol.js and the hash of diff.js; other
  numbers stay in the range in which a double is exact.

  \<^bold>\<open>What modelling showed.\<close> Where the code differs from its comments or does what it does not mean to, a
  lemma of the theory concerned computes an input that shows it: a quoted empty last field, a read error
  that empties a log or a history, a sidecar of a document called index, the index rows lost when
  a folder is renamed, a validator that compares op.id with a string, the login deleted when a
  viewer home is adopted, the key of an entry put again in the cache, and others.

  \<^bold>\<open>Not modelled.\<close> The document editor and the views (ProseMirror, DOM and Lumino widgets), the Markdown
  bridge (rule tables for markdown-it and prosemirror-markdown), figures and measures (floating
  point), the detectors and the process that runs them, the watchers, debouncing and events of the
  stores, bindings and RPC endpoints, styles and icons. Outside the extension: the TypeScript portal,
  the Rust services, bundled plugins and vendored scripts. Of the modules modelled, texts beyond
  Latin-1 and the prose some of them render are left out, as the text of each theory says.
\<close>

end
